(* ===== verification/Prelude.thy ===== *)
theory Prelude
  imports "HOL-Library.Word"
begin

text \<open>
  Shared vocabulary of the development: the C integer types as words, byte buffers
  (\<open>memcpy\<close>, \<open>memset\<close>, \<open>realloc\<close>), the little-endian layout of an integer in memory (the
  targets of \<open>build.zig\<close>, x86-64 and aarch64, are little-endian), the outcomes that C leaves
  undefined, the behaviour of the allocator, and the generic lemmas the components use.
\<close>

unbundle bit_operations_syntax

section \<open>C types and undefined behaviour\<close>

type_synonym u8 = "8 word"
type_synonym u16 = "16 word"
type_synonym u32 = "32 word"
type_synonym u64 = "64 word"
type_synonym bytes = "u8 list"

text \<open>
  An operation that can reach undefined behaviour of C has the result type \<open>ub + 'a\<close>:
  \<open>UB_null\<close> is an access through a null pointer, \<open>UB_index\<close> an array access outside the
  array, \<open>UB_shift\<close> a shift by the width of the operand or more, \<open>UB_div\<close> a division by zero.
\<close>

datatype ub = UB_null | UB_index | UB_shift | UB_div

text \<open>The conversion \<open>(int)x\<close> of a \<open>size_t\<close> value, on the 32-bit \<open>int\<close> of the targets.\<close>

definition int32_of :: "nat \<Rightarrow> int" where
  "int32_of n = sint (word_of_nat n :: 32 word)"

named_theorems byte_simps \<open>length and content of byte buffers\<close>
named_theorems eval_simps \<open>evaluation of definitions at concrete arguments\<close>
named_theorems inv_intros \<open>preservation of the component invariants\<close>

section \<open>Buffers\<close>

text \<open>\<open>memcpy(dst + off, src, length src)\<close> on a buffer \<open>dst\<close>.\<close>

definition overwrite :: "nat \<Rightarrow> 'a list \<Rightarrow> 'a list \<Rightarrow> 'a list" where
  "overwrite off src dst = take off dst @ src @ drop (off + length src) dst"

text \<open>The little-endian bytes of an integer, and the integer in a run of bytes.\<close>

primrec le_enc :: "nat \<Rightarrow> 'a::len word \<Rightarrow> bytes" where
  "le_enc 0 v = []"
| "le_enc (Suc n) v = ucast v # le_enc n (drop_bit 8 v)"

primrec le_dec :: "bytes \<Rightarrow> 'a::len word" where
  "le_dec [] = 0"
| "le_dec (b # bs) = ucast b OR push_bit 8 (le_dec bs)"

text \<open>The \<open>w\<close>-byte integer at byte \<open>off\<close> of a buffer.\<close>

definition get_le :: "nat \<Rightarrow> nat \<Rightarrow> bytes \<Rightarrow> 'a::len word" where
  "get_le off w buf = le_dec (take w (drop off buf))"

section \<open>The allocator\<close>

text \<open>
  \<open>malloc\<close>, \<open>calloc\<close> and \<open>realloc\<close> may fail at any call. The heap is an oracle: \<open>allocs\<close>
  holds the outcome of the next calls in order, \<open>junk\<close> the content of memory that was
  allocated and not yet written. Every theorem holds for all oracles. The record is
  extensible: the state behind a \<open>kv_dma\<close> extends it.
\<close>

record heap =
  allocs :: "nat \<Rightarrow> bool"
  junk :: "nat \<Rightarrow> u8"

definition alloc :: "'z heap_scheme \<Rightarrow> bool \<times> 'z heap_scheme" where
  "alloc h = (allocs h 0, h\<lparr>allocs := \<lambda>i. allocs h (Suc i)\<rparr>)"

text \<open>The buffer after a successful \<open>realloc(buf, n)\<close>.\<close>

definition realloc_bytes :: "'z heap_scheme \<Rightarrow> bytes \<Rightarrow> nat \<Rightarrow> bytes" where
  "realloc_bytes h buf n = take n buf @ map (junk h) [length buf..<n]"

section \<open>Lemmas on buffers\<close>

lemma length_overwrite [simp, byte_simps]:
  "off + length src \<le> length dst \<Longrightarrow> length (overwrite off src dst) = length dst"
  by (simp add: overwrite_def)

lemma overwrite_Nil [simp]: "overwrite off [] dst = dst"
  by (simp add: overwrite_def)

lemma overwrite_0: "overwrite 0 src dst = src @ drop (length src) dst"
  by (simp add: overwrite_def)

lemma nth_overwrite:
  "off + length src \<le> length dst \<Longrightarrow> i < length dst \<Longrightarrow>
   overwrite off src dst ! i =
     (if off \<le> i \<and> i < off + length src then src ! (i - off) else dst ! i)"
  by (auto simp: overwrite_def nth_append min_def)

lemma take_overwrite [simp]:
  "off + length src \<le> length dst \<Longrightarrow> n \<le> off \<Longrightarrow> take n (overwrite off src dst) = take n dst"
  by (simp add: overwrite_def min_def)

lemma overwrite_append1:
  "off + length src \<le> length xs \<Longrightarrow> overwrite off src (xs @ ys) = overwrite off src xs @ ys"
  by (simp add: overwrite_def)

lemma overwrite_append2:
  "length xs \<le> off \<Longrightarrow> overwrite off src (xs @ ys) = xs @ overwrite (off - length xs) src ys"
  by (simp add: overwrite_def)

lemma overwrite_full: "length src = length dst \<Longrightarrow> overwrite 0 src dst = src"
  by (simp add: overwrite_def)

lemma overwrite_overwrite_adj:
  "off + length xs + length ys \<le> length dst \<Longrightarrow>
   overwrite (off + length xs) ys (overwrite off xs dst) = overwrite off (xs @ ys) dst"
  by (simp add: overwrite_def ac_simps)

lemma length_filter_update:
  "i < length xs \<Longrightarrow>
   length (filter P (xs[i := y])) + of_bool (P (xs ! i)) = length (filter P xs) + of_bool (P y)"
proof (induction xs arbitrary: i)
  case (Cons x xs)
  then show ?case by (cases i) auto
qed simp

lemma nth_0_update_unat [simp]: "w \<noteq> 0 \<Longrightarrow> xs[unat w := y] ! 0 = xs ! 0"
  by (metis nth_list_update_neq unat_eq_zero)

lemma list_all_update: "list_all P xs \<Longrightarrow> P y \<Longrightarrow> list_all P (xs[i := y])"
  by (auto simp: list_all_iff dest: set_update_subset_insert [THEN subsetD])

lemma list_all_nthD: "list_all P xs \<Longrightarrow> i < length xs \<Longrightarrow> P (xs ! i)"
  by (simp add: list_all_length)

lemma length_realloc_bytes [simp, byte_simps]:
  "length (realloc_bytes h buf n) = n"
  by (simp add: realloc_bytes_def)

lemma take_realloc_bytes [simp]:
  "length buf \<le> n \<Longrightarrow> take (length buf) (realloc_bytes h buf n) = buf"
  by (simp add: realloc_bytes_def)

lemma alloc_frame [simp]:
  "junk (snd (alloc h)) = junk h" "heap.more (snd (alloc h)) = heap.more h"
  by (simp_all add: alloc_def)

lemma alloc_outcome: "fst (alloc h) = allocs h 0"
  by (simp add: alloc_def)

section \<open>Lemmas on little-endian integers\<close>

lemma length_le_enc [simp, byte_simps]: "length (le_enc n v) = n"
  by (induction n arbitrary: v) auto

lemma le_enc_numeral [eval_simps]:
  "le_enc (numeral k) v = ucast v # le_enc (pred_numeral k) (drop_bit 8 v)"
  by (simp add: numeral_eq_Suc)

lemma le_enc_nth: "i < n \<Longrightarrow> le_enc n v ! i = ucast (drop_bit (8 * i) v)"
proof (induction n arbitrary: v i)
  case (Suc n)
  then show ?case by (cases i) (simp_all add: ac_simps)
qed simp

lemma bit_le_dec:
  "bit (le_dec bs :: 'a::len word) j \<longleftrightarrow>
   j < LENGTH('a) \<and> j div 8 < length bs \<and> bit (bs ! (j div 8)) (j mod 8)"
proof (induction bs arbitrary: j)
  case (Cons b bs)
  show ?case
  proof (cases "j < 8")
    case True
    then show ?thesis by (auto simp: bit_simps)
  next
    case False
    then obtain i where j: "j = i + 8" by (metis add.commute le_Suc_ex linorder_not_less)
    have "\<not> bit b (i + 8)" by (auto dest: bit_imp_le_length)
    moreover have "(i + 8) div 8 = Suc (i div 8)" "(i + 8) mod 8 = i mod 8" by simp_all
    ultimately show ?thesis by (auto simp: j bit_simps Cons)
  qed
qed simp

lemma le_dec_enc_ucast:
  "le_dec (le_enc n (v :: 'a::len word)) = (ucast (take_bit (8 * n) v) :: 'b::len word)"
proof (rule bit_word_eqI)
  fix j assume "j < LENGTH('b)"
  have "j div 8 < n \<longleftrightarrow> j < 8 * n" by (simp add: div_less_iff_less_mult mult.commute)
  moreover have "8 * (j div 8) + j mod 8 = j" by simp
  ultimately show "bit (le_dec (le_enc n v) :: 'b word) j = bit (ucast (take_bit (8 * n) v) :: 'b word) j"
    using \<open>j < LENGTH('b)\<close> by (auto simp: bit_le_dec le_enc_nth bit_simps)
qed

lemma le_dec_enc: "le_dec (le_enc n v) = take_bit (8 * n) (v :: 'a::len word)"
  by (simp add: le_dec_enc_ucast)

lemma le_dec_append:
  "le_dec (xs @ ys) = (le_dec xs OR push_bit (8 * length xs) (le_dec ys) :: 'a::len word)"
  by (induction xs) (simp_all add: push_bit_or or.assoc)

lemma le_enc_inj:
  assumes "LENGTH('a) \<le> 8 * n" and "le_enc n v = le_enc n (w :: 'a::len word)"
  shows "v = w"
proof -
  have "take_bit (8 * n) v = take_bit (8 * n) w"
    using assms(2) le_dec_enc [of n v] le_dec_enc [of n w] by simp
  with assms(1) show ?thesis by (simp add: take_bit_word_eq_self)
qed

lemma le_enc_dec:
  assumes "8 * length bs \<le> LENGTH('a)"
  shows "le_enc (length bs) (le_dec bs :: 'a::len word) = bs"
proof (rule nth_equalityI)
  fix i assume "i < length (le_enc (length bs) (le_dec bs :: 'a word))"
  then have i: "i < length bs" by simp
  show "le_enc (length bs) (le_dec bs :: 'a word) ! i = bs ! i"
  proof (rule bit_word_eqI)
    fix j assume j: "j < LENGTH(8)"
    with i have "8 * i + j < 8 * length bs" by simp
    with assms have "8 * i + j < LENGTH('a)" by linarith
    with i j show "bit (le_enc (length bs) (le_dec bs :: 'a word) ! i) j = bit (bs ! i) j"
      by (simp add: le_enc_nth bit_simps bit_le_dec)
  qed
qed simp

lemma int32_of_small: "n < 2 ^ 31 \<Longrightarrow> int32_of n = int n"
  by (simp add: int32_of_def signed_of_nat signed_take_bit_int_eq_self)

lemma unat_ucast_up:
  "LENGTH('a) \<le> LENGTH('b) \<Longrightarrow> unat (ucast (w :: 'a::len word) :: 'b::len word) = unat w"
  by (simp add: unsigned_ucast_eq take_bit_nat_eq_self order.strict_trans2 [OF unsigned_less])

section \<open>Fixed-width fields\<close>

text \<open>
  The contract of a packed struct field: an encoder into \<open>width\<close> bytes and a decoder that
  undoes it. Every integer field of \<open>kvssd_nvme_spec.h\<close> is an instance.
\<close>

locale field_codec =
  fixes width :: nat
    and enc :: "'v \<Rightarrow> bytes"
    and dec :: "bytes \<Rightarrow> 'v"
  assumes enc_length: "length (enc v) = width"
    and dec_enc: "dec (enc v) = v"
begin

lemma dec_append: "off = length xs \<Longrightarrow> dec (take width (drop off (xs @ enc v @ ys))) = v"
  by (simp add: enc_length dec_enc)

lemma dec_overwrite:
  "off + width \<le> length buf \<Longrightarrow> dec (take width (drop off (overwrite off (enc v) buf))) = v"
  by (simp add: overwrite_def enc_length dec_enc)

lemma enc_inj: "enc v = enc w \<Longrightarrow> v = w"
  by (metis dec_enc)

end

lemma le_field_codec:
  "LENGTH('a) = 8 * n \<Longrightarrow> field_codec n (le_enc n :: 'a::len word \<Rightarrow> bytes) le_dec"
  by unfold_locales (simp_all add: le_dec_enc take_bit_word_eq_self)

interpretation u8_field: field_codec 1 "le_enc 1 :: u8 \<Rightarrow> bytes" le_dec
  by (rule le_field_codec) simp

interpretation u16_field: field_codec 2 "le_enc 2 :: u16 \<Rightarrow> bytes" le_dec
  by (rule le_field_codec) simp

interpretation u32_field: field_codec 4 "le_enc 4 :: u32 \<Rightarrow> bytes" le_dec
  by (rule le_field_codec) simp

interpretation u64_field: field_codec 8 "le_enc 8 :: u64 \<Rightarrow> bytes" le_dec
  by (rule le_field_codec) simp

end
