(* ===== verification/NvmeSpec.thy ===== *)
theory NvmeSpec
  imports Prelude
begin

text \<open>
  The data of \<^verbatim>\<open>include/kvssd_nvme_spec.h\<close>: constants, and every packed struct as a record
  with its byte layout. A struct in memory is the concatenation of its fields in order
  (\<open>__attribute__((packed))\<close>), each little-endian; \<open>decode_\<close> reads a struct from bytes and
  \<open>encode_\<close> gives its bytes. The lemmas show that the two are inverse, that each struct has
  the size its \<open>_Static_assert\<close> demands, and which fields of a generic submission entry the
  KV view of the same 64 bytes shows.
\<close>

section \<open>Constants\<close>

abbreviation (input) KVSSD_PAGE_SIZE :: nat where "KVSSD_PAGE_SIZE \<equiv> 4096"

abbreviation (input) NVME_CMD_KV_STORE :: u8 where "NVME_CMD_KV_STORE \<equiv> 0x01"
abbreviation (input) NVME_CMD_KV_RETRIEVE :: u8 where "NVME_CMD_KV_RETRIEVE \<equiv> 0x02"
abbreviation (input) NVME_CMD_KV_LIST :: u8 where "NVME_CMD_KV_LIST \<equiv> 0x06"
abbreviation (input) NVME_CMD_KV_DELETE :: u8 where "NVME_CMD_KV_DELETE \<equiv> 0x10"
abbreviation (input) NVME_CMD_KV_EXIST :: u8 where "NVME_CMD_KV_EXIST \<equiv> 0x14"

abbreviation (input) NVME_CMD_KV_STORE_OPT_DONT_STORE_IF_KEY_NOT_EXISTS :: u8 where
  "NVME_CMD_KV_STORE_OPT_DONT_STORE_IF_KEY_NOT_EXISTS \<equiv> 1"
abbreviation (input) NVME_CMD_KV_STORE_OPT_DONT_STORE_IF_KEY_EXISTS :: u8 where
  "NVME_CMD_KV_STORE_OPT_DONT_STORE_IF_KEY_EXISTS \<equiv> 2"

abbreviation (input) NVME_SUCCESS :: u16 where "NVME_SUCCESS \<equiv> 0x0000"
abbreviation (input) NVME_INVALID_OPCODE :: u16 where "NVME_INVALID_OPCODE \<equiv> 0x0001"
abbreviation (input) NVME_INVALID_FIELD :: u16 where "NVME_INVALID_FIELD \<equiv> 0x0002"
abbreviation (input) NVME_CAP_EXCEEDED :: u16 where "NVME_CAP_EXCEEDED \<equiv> 0x0181"
abbreviation (input) NVME_KV_INVALID_VAL_SIZE :: u16 where "NVME_KV_INVALID_VAL_SIZE \<equiv> 0x0185"
abbreviation (input) NVME_KV_INVALID_KEY_SIZE :: u16 where "NVME_KV_INVALID_KEY_SIZE \<equiv> 0x0186"
abbreviation (input) NVME_KV_KEY_NOT_EXISTS :: u16 where "NVME_KV_KEY_NOT_EXISTS \<equiv> 0x0187"
abbreviation (input) NVME_KV_KEY_EXISTS :: u16 where "NVME_KV_KEY_EXISTS \<equiv> 0x0189"
abbreviation (input) NVME_DNR :: u16 where "NVME_DNR \<equiv> 0x4000"

abbreviation (input) NVME_CSI_NVM :: u8 where "NVME_CSI_NVM \<equiv> 0x00"
abbreviation (input) NVME_CSI_KV :: u8 where "NVME_CSI_KV \<equiv> 0x01"

abbreviation (input) NVME_KV_HARD_MAX_NUM_KEYS :: nat where "NVME_KV_HARD_MAX_NUM_KEYS \<equiv> 4294967295"
abbreviation (input) NVME_KV_MAX_KEY_SIZE :: nat where "NVME_KV_MAX_KEY_SIZE \<equiv> 16"
abbreviation (input) NVME_KV_MAX_VAL_SIZE :: nat where "NVME_KV_MAX_VAL_SIZE \<equiv> 4096"

text \<open>\<open>NVME_KV_MAX_KEY_SIZE + NVME_KV_MAX_VAL_SIZE\<close>, the accounting unit of the namespace.\<close>

abbreviation (input) kv_slot :: nat where "kv_slot \<equiv> 4112"

section \<open>Submission and completion queue entries\<close>

record NvmeSqe =
  sqe_opcode :: u8
  sqe_flags :: u8
  sqe_cid :: u16
  sqe_nsid :: u32
  sqe_cdw2 :: u32
  sqe_cdw3 :: u32
  sqe_mptr :: u64
  sqe_prp1 :: u64
  sqe_prp2 :: u64
  sqe_cdw10 :: u32
  sqe_cdw11 :: u32
  sqe_cdw12 :: u32
  sqe_cdw13 :: u32
  sqe_cdw14 :: u32
  sqe_cdw15 :: u32

definition encode_sqe :: "NvmeSqe \<Rightarrow> bytes" where
  "encode_sqe s =
     le_enc 1 (sqe_opcode s) @ le_enc 1 (sqe_flags s) @ le_enc 2 (sqe_cid s) @
     le_enc 4 (sqe_nsid s) @ le_enc 4 (sqe_cdw2 s) @ le_enc 4 (sqe_cdw3 s) @
     le_enc 8 (sqe_mptr s) @ le_enc 8 (sqe_prp1 s) @ le_enc 8 (sqe_prp2 s) @
     le_enc 4 (sqe_cdw10 s) @ le_enc 4 (sqe_cdw11 s) @ le_enc 4 (sqe_cdw12 s) @
     le_enc 4 (sqe_cdw13 s) @ le_enc 4 (sqe_cdw14 s) @ le_enc 4 (sqe_cdw15 s)"

definition decode_sqe :: "bytes \<Rightarrow> NvmeSqe" where
  "decode_sqe b = \<lparr>
     sqe_opcode = get_le 0 1 b, sqe_flags = get_le 1 1 b, sqe_cid = get_le 2 2 b,
     sqe_nsid = get_le 4 4 b, sqe_cdw2 = get_le 8 4 b, sqe_cdw3 = get_le 12 4 b,
     sqe_mptr = get_le 16 8 b, sqe_prp1 = get_le 24 8 b, sqe_prp2 = get_le 32 8 b,
     sqe_cdw10 = get_le 40 4 b, sqe_cdw11 = get_le 44 4 b, sqe_cdw12 = get_le 48 4 b,
     sqe_cdw13 = get_le 52 4 b, sqe_cdw14 = get_le 56 4 b, sqe_cdw15 = get_le 60 4 b\<rparr>"

record NvmeCqe =
  cqe_cdw0 :: u32
  cqe_cdw1 :: u32
  cqe_sq_head :: u16
  cqe_sq_id :: u16
  cqe_cid :: u16
  cqe_status :: u16

definition encode_cqe :: "NvmeCqe \<Rightarrow> bytes" where
  "encode_cqe c =
     le_enc 4 (cqe_cdw0 c) @ le_enc 4 (cqe_cdw1 c) @ le_enc 2 (cqe_sq_head c) @
     le_enc 2 (cqe_sq_id c) @ le_enc 2 (cqe_cid c) @ le_enc 2 (cqe_status c)"

definition decode_cqe :: "bytes \<Rightarrow> NvmeCqe" where
  "decode_cqe b = \<lparr>
     cqe_cdw0 = get_le 0 4 b, cqe_cdw1 = get_le 4 4 b, cqe_sq_head = get_le 8 2 b,
     cqe_sq_id = get_le 10 2 b, cqe_cid = get_le 12 2 b, cqe_status = get_le 14 2 b\<rparr>"

section \<open>The KV view of a submission entry\<close>

record NvmeKVCdw11 =
  kl :: u8
  ro :: u8
  rsvd :: u16

record NvmeKVCmd =
  kvc_opcode :: u8
  kvc_flags :: u8
  kvc_cid :: u16
  kvc_nsid :: u32
  kvc_key :: u64
  kvc_mptr :: u64
  kvc_prp1 :: u64
  kvc_prp2 :: u64
  kvc_hbs :: u32
  kvc_cdw11 :: NvmeKVCdw11
  kvc_cdw12 :: u32
  kvc_cdw13 :: u32
  kvc_key_hi :: u64

definition decode_kvcmd :: "bytes \<Rightarrow> NvmeKVCmd" where
  "decode_kvcmd b = \<lparr>
     kvc_opcode = get_le 0 1 b, kvc_flags = get_le 1 1 b, kvc_cid = get_le 2 2 b,
     kvc_nsid = get_le 4 4 b, kvc_key = get_le 8 8 b, kvc_mptr = get_le 16 8 b,
     kvc_prp1 = get_le 24 8 b, kvc_prp2 = get_le 32 8 b, kvc_hbs = get_le 40 4 b,
     kvc_cdw11 = \<lparr>kl = get_le 44 1 b, ro = get_le 45 1 b, rsvd = get_le 46 2 b\<rparr>,
     kvc_cdw12 = get_le 48 4 b, kvc_cdw13 = get_le 52 4 b, kvc_key_hi = get_le 56 8 b\<rparr>"

definition encode_kvcmd :: "NvmeKVCmd \<Rightarrow> bytes" where
  "encode_kvcmd c =
     le_enc 1 (kvc_opcode c) @ le_enc 1 (kvc_flags c) @ le_enc 2 (kvc_cid c) @ le_enc 4 (kvc_nsid c) @
     le_enc 8 (kvc_key c) @ le_enc 8 (kvc_mptr c) @ le_enc 8 (kvc_prp1 c) @ le_enc 8 (kvc_prp2 c) @
     le_enc 4 (kvc_hbs c) @
     le_enc 1 (kl (kvc_cdw11 c)) @ le_enc 1 (ro (kvc_cdw11 c)) @ le_enc 2 (rsvd (kvc_cdw11 c)) @
     le_enc 4 (kvc_cdw12 c) @ le_enc 4 (kvc_cdw13 c) @ le_enc 8 (kvc_key_hi c)"

text \<open>The pointer cast \<open>(const NvmeKVCmd *)sqe\<close> reads the same bytes through the other struct.\<close>

definition kvcmd_of_sqe :: "NvmeSqe \<Rightarrow> NvmeKVCmd" where
  "kvcmd_of_sqe s = decode_kvcmd (encode_sqe s)"

section \<open>KV namespace identification\<close>

record NvmeKVF =
  kml :: u16
  kvf_rsvd2 :: u8
  fopt :: u8
  vml :: u32
  mnk :: u32
  kvf_rsvd12 :: bytes

definition encode_kvf :: "NvmeKVF \<Rightarrow> bytes" where
  "encode_kvf f =
     le_enc 2 (kml f) @ le_enc 1 (kvf_rsvd2 f) @ le_enc 1 (fopt f) @
     le_enc 4 (vml f) @ le_enc 4 (mnk f) @ kvf_rsvd12 f"

record NvmeIdNsKV =
  nsze :: u64
  rsvd8 :: bytes
  nuse :: u64
  nsfeat :: u8
  nkvf :: u8
  nmic :: u8
  rescap :: u8
  fpi :: u8
  rsvd29 :: bytes
  novg :: u32
  anagrpid :: u32
  rsvd40 :: bytes
  nsattr :: u8
  nvmsetid :: u16
  endgid :: u16
  nguid :: "u64 list"
  eui64 :: u64
  kvf :: "NvmeKVF list"
  rsvd328 :: bytes
  id_vs :: bytes

definition encode_id_ns_kv :: "NvmeIdNsKV \<Rightarrow> bytes" where
  "encode_id_ns_kv d =
     le_enc 8 (nsze d) @ rsvd8 d @ le_enc 8 (nuse d) @
     le_enc 1 (nsfeat d) @ le_enc 1 (nkvf d) @ le_enc 1 (nmic d) @ le_enc 1 (rescap d) @
     le_enc 1 (fpi d) @ rsvd29 d @ le_enc 4 (novg d) @ le_enc 4 (anagrpid d) @
     rsvd40 d @ le_enc 1 (nsattr d) @ le_enc 2 (nvmsetid d) @ le_enc 2 (endgid d) @
     concat (map (le_enc 8) (nguid d)) @ le_enc 8 (eui64 d) @
     concat (map encode_kvf (kvf d)) @ rsvd328 d @ id_vs d"

text \<open>The memory \<open>calloc\<close> returns for these structs.\<close>

definition zero_kvf :: NvmeKVF where
  "zero_kvf = \<lparr>kml = 0, kvf_rsvd2 = 0, fopt = 0, vml = 0, mnk = 0, kvf_rsvd12 = replicate 4 0\<rparr>"

definition zero_id_ns_kv :: NvmeIdNsKV where
  "zero_id_ns_kv = \<lparr>
     nsze = 0, rsvd8 = replicate 8 0, nuse = 0, nsfeat = 0, nkvf = 0, nmic = 0, rescap = 0,
     fpi = 0, rsvd29 = replicate 3 0, novg = 0, anagrpid = 0, rsvd40 = replicate 3 0,
     nsattr = 0, nvmsetid = 0, endgid = 0, nguid = replicate 2 0, eui64 = 0,
     kvf = replicate 16 zero_kvf, rsvd328 = replicate 3512 0, id_vs = replicate 256 0\<rparr>"

text \<open>The arrays inside the struct have their declared lengths.\<close>

definition id_ns_kv_wf :: "NvmeIdNsKV \<Rightarrow> bool" where
  "id_ns_kv_wf d \<longleftrightarrow> length (rsvd8 d) = 8 \<and> length (rsvd29 d) = 3 \<and> length (rsvd40 d) = 3 \<and>
     length (nguid d) = 2 \<and> length (kvf d) = 16 \<and> list_all (\<lambda>f. length (kvf_rsvd12 f) = 4) (kvf d) \<and>
     length (rsvd328 d) = 3512 \<and> length (id_vs d) = 256"

section \<open>Layout lemmas\<close>

lemma length_encode_sqe [simp, byte_simps]: "length (encode_sqe s) = 64"
  by (simp add: encode_sqe_def)

lemma length_encode_cqe [simp, byte_simps]: "length (encode_cqe c) = 16"
  by (simp add: encode_cqe_def)

lemma length_encode_kvf [simp, byte_simps]:
  "length (kvf_rsvd12 f) = 4 \<Longrightarrow> length (encode_kvf f) = 16"
  by (simp add: encode_kvf_def)

lemma length_concat_const: "list_all (\<lambda>x. length (f x) = n) xs \<Longrightarrow> length (concat (map f xs)) = n * length xs"
  by (induction xs) auto

lemma id_ns_kv_arrays:
  assumes "id_ns_kv_wf d"
  shows "length (concat (map encode_kvf (kvf d))) = 256" "length (concat (map (le_enc 8) (nguid d))) = 16"
proof -
  have "list_all (\<lambda>f. length (encode_kvf f) = 16) (kvf d)"
    using assms by (auto simp: id_ns_kv_wf_def list_all_iff)
  then show "length (concat (map encode_kvf (kvf d))) = 256"
    using assms by (simp only: length_concat_const) (simp add: id_ns_kv_wf_def)
  show "length (concat (map (le_enc 8) (nguid d))) = 16"
    using assms by (subst length_concat_const [where n = 8]) (simp_all add: id_ns_kv_wf_def list_all_iff)
qed

lemma encode_id_ns_kv_layout:
  assumes "id_ns_kv_wf d"
  shows length_encode_id_ns_kv [byte_simps]: "length (encode_id_ns_kv d) = 4096"
    and encode_id_ns_kv_formats: "take 256 (drop 72 (encode_id_ns_kv d)) = concat (map encode_kvf (kvf d))"
  using assms id_ns_kv_arrays [OF assms]
  by (simp_all add: encode_id_ns_kv_def id_ns_kv_wf_def del: length_concat)

lemma zero_id_ns_kv_wf [simp]: "id_ns_kv_wf zero_id_ns_kv"
  by (simp add: id_ns_kv_wf_def zero_id_ns_kv_def zero_kvf_def list_all_iff)

text \<open>A field of a concatenation, by the position of its bytes.\<close>

lemma get_le_skip:
  "length xs \<le> off \<Longrightarrow> get_le off w (xs @ ys) = get_le (off - length xs) w ys"
  by (simp add: get_le_def)

lemma get_le_here:
  "LENGTH('a) = 8 * w \<Longrightarrow> get_le 0 w (le_enc w (v :: 'a::len word) @ ys) = v"
  by (simp add: get_le_def le_dec_enc take_bit_word_eq_self)

lemma get_le_last:
  "LENGTH('a) = 8 * w \<Longrightarrow> get_le 0 w (le_enc w (v :: 'a::len word)) = v"
  by (simp add: get_le_def le_dec_enc take_bit_word_eq_self)

lemma get_le_Cons:
  "0 < off \<Longrightarrow> get_le off w (x # ys) = get_le (off - 1) w ys"
  "get_le 0 (Suc 0) (x # ys) = ucast x"
  by (cases off) (simp_all add: get_le_def)

lemma get_le_byte:
  "0 < n \<Longrightarrow> get_le 0 (Suc 0) (le_enc n v @ ys) = ucast (ucast v :: u8)"
  by (cases n) (simp_all add: get_le_def)

lemmas get_le_layout = get_le_skip get_le_here get_le_last get_le_Cons get_le_byte

lemma decode_encode_sqe: "decode_sqe (encode_sqe s) = s"
  by (simp add: decode_sqe_def encode_sqe_def get_le_layout)

lemma decode_encode_cqe: "decode_cqe (encode_cqe c) = c"
  by (simp add: decode_cqe_def encode_cqe_def get_le_layout)

lemma le_enc_get_le:
  "off + w \<le> length b \<Longrightarrow> 8 * w = LENGTH('a) \<Longrightarrow>
   le_enc w (get_le off w b :: 'a::len word) = take w (drop off b)"
  using le_enc_dec [of "take w (drop off b)", where 'a = 'a] by (simp add: get_le_def)

lemma take_drop_glue:
  "p = n + m \<Longrightarrow> take m (drop n xs) @ take k (drop p xs) = take (m + k) (drop n xs)"
  "p = n + m \<Longrightarrow> take m (drop n xs) @ take k (drop p xs) @ ys = take (m + k) (drop n xs) @ ys"
  by (simp_all add: take_add add.commute [of m n])

lemma encode_decode_sqe:
  assumes "length b = 64"
  shows "encode_sqe (decode_sqe b) = b"
proof -
  have "take 59 (drop 1 b) @ drop 60 b = drop 1 b"
    using append_take_drop_id [of 59 "drop 1 b"] by simp
  with assms show ?thesis
    by (simp add: encode_sqe_def decode_sqe_def le_enc_get_le take_drop_glue
        del: le_enc.simps One_nat_def)
qed

lemma encode_decode_cqe:
  assumes "length b = 16"
  shows "encode_cqe (decode_cqe b) = b"
proof -
  have "take 10 (drop 4 b) @ drop 14 b = drop 4 b"
    using append_take_drop_id [of 10 "drop 4 b"] by simp
  with assms show ?thesis
    by (simp add: encode_cqe_def decode_cqe_def le_enc_get_le take_drop_glue
        del: le_enc.simps One_nat_def)
qed

text \<open>Two adjacent 32-bit fields read as one 64-bit field.\<close>

lemma get_le_pair:
  "get_le 0 8 (le_enc 4 (a :: u32) @ le_enc 4 (b :: u32) @ ys) =
     (ucast a OR push_bit 32 (ucast b) :: u64)"
  by (simp add: get_le_def le_dec_append le_dec_enc_ucast take_bit_word_eq_self)

lemma get_le_pair_last:
  "get_le 0 8 (le_enc 4 (a :: u32) @ le_enc 4 (b :: u32)) =
     (ucast a OR push_bit 32 (ucast b) :: u64)"
  using get_le_pair [of a b "[]"] by simp

lemma get_le_inside:
  assumes "off + w \<le> n" and "LENGTH('b) = 8 * w"
  shows "get_le off w (le_enc n (v :: 'a::len word) @ ys) = (ucast (drop_bit (8 * off) v) :: 'b::len word)"
proof (rule bit_word_eqI)
  fix j assume j: "j < LENGTH('b)"
  with assms have "j div 8 < w" by (simp add: div_less_iff_less_mult mult.commute)
  moreover have "j mod 8 < Suc (Suc (Suc (Suc (Suc (Suc (Suc (Suc 0)))))))" by simp
  ultimately show "bit (get_le off w (le_enc n v @ ys) :: 'b word) j =
      bit (ucast (drop_bit (8 * off) v) :: 'b word) j"
    using assms j by (simp add: get_le_def bit_le_dec le_enc_nth bit_simps nth_append algebra_simps)
qed

text \<open>Reading a field of a buffer that was written in part.\<close>

lemma take_drop_overwrite:
  "off + length src \<le> length dst \<Longrightarrow> w = length src \<Longrightarrow> take w (drop off (overwrite off src dst)) = src"
  by (simp add: overwrite_def)

lemma take_drop_overwrite_other:
  "off + w \<le> off' \<or> off' + length src \<le> off \<Longrightarrow> off' + length src \<le> length dst \<Longrightarrow>
   take w (drop off (overwrite off' src dst)) = take w (drop off dst)"
  by (rule nth_equalityI) (auto simp: nth_overwrite)

lemma take_drop_update:
  "i < off \<or> off + w \<le> i \<Longrightarrow> take w (drop off (xs[i := v])) = take w (drop off xs)"
  by (auto intro!: nth_equalityI simp: nth_list_update)

lemma get_le_overwrite:
  "off + length src \<le> length dst \<Longrightarrow> w = length src \<Longrightarrow> get_le off w (overwrite off src dst) = le_dec src"
  "off + w \<le> off' \<or> off' + length src \<le> off \<Longrightarrow> off' + length src \<le> length dst \<Longrightarrow>
   get_le off w (overwrite off' src dst) = get_le off w dst"
  by (simp_all add: get_le_def take_drop_overwrite take_drop_overwrite_other)

lemma get_le_nth:
  "off + w \<le> length b \<Longrightarrow> get_le off w b = le_dec (map (\<lambda>i. b ! (off + i)) [0..<w])"
  by (auto simp: get_le_def intro!: arg_cong [of _ _ le_dec] nth_equalityI)

text \<open>What the KV handlers see of a generic submission entry.\<close>

lemma kvcmd_of_sqe_fields:
  "kvcmd_of_sqe s = \<lparr>
     kvc_opcode = sqe_opcode s, kvc_flags = sqe_flags s, kvc_cid = sqe_cid s,
     kvc_nsid = sqe_nsid s, kvc_key = ucast (sqe_cdw2 s) OR push_bit 32 (ucast (sqe_cdw3 s)),
     kvc_mptr = sqe_mptr s, kvc_prp1 = sqe_prp1 s, kvc_prp2 = sqe_prp2 s,
     kvc_hbs = sqe_cdw10 s,
     kvc_cdw11 = \<lparr>kl = ucast (sqe_cdw11 s), ro = ucast (drop_bit 8 (sqe_cdw11 s)),
       rsvd = ucast (drop_bit 16 (sqe_cdw11 s))\<rparr>,
     kvc_cdw12 = sqe_cdw12 s, kvc_cdw13 = sqe_cdw13 s,
     kvc_key_hi = ucast (sqe_cdw14 s) OR push_bit 32 (ucast (sqe_cdw15 s))\<rparr>"
  by (simp add: kvcmd_of_sqe_def decode_kvcmd_def encode_sqe_def get_le_layout get_le_pair
      get_le_pair_last get_le_inside)

section \<open>The wire formats\<close>

lemma length_encode_kvcmd [simp, byte_simps]: "length (encode_kvcmd c) = 64"
  by (simp add: encode_kvcmd_def)

lemma decode_encode_kvcmd: "decode_kvcmd (encode_kvcmd c) = c"
  by (simp add: decode_kvcmd_def encode_kvcmd_def get_le_layout)

lemma encode_decode_kvcmd:
  assumes "length b = 64"
  shows "encode_kvcmd (decode_kvcmd b) = b"
proof -
  have "take 55 (drop 1 b) @ drop 56 b = drop 1 b"
    using append_take_drop_id [of 55 "drop 1 b"] by simp
  with assms show ?thesis
    by (simp add: encode_kvcmd_def decode_kvcmd_def le_enc_get_le take_drop_glue
        del: le_enc.simps One_nat_def)
qed

lemma take_drop_concat:
  "list_all (\<lambda>x. length (f x) = n) xs \<Longrightarrow> i < length xs \<Longrightarrow> take n (drop (n * i) (concat (map f xs))) = f (xs ! i)"
proof (induction xs arbitrary: i)
  case (Cons x xs)
  then show ?case by (cases i) simp_all
qed simp

text \<open>
  The offsets at which the packed structs of the header have their fields, as tables that do not
  refer to the encodings: length of the struct, and offset and width of every field.
\<close>

definition sqe_layout :: "bytes \<Rightarrow> NvmeSqe \<Rightarrow> bool" where
  "sqe_layout b s \<longleftrightarrow> length b = 64 \<and>
     get_le 0 1 b = sqe_opcode s \<and> get_le 1 1 b = sqe_flags s \<and> get_le 2 2 b = sqe_cid s \<and>
     get_le 4 4 b = sqe_nsid s \<and> get_le 8 4 b = sqe_cdw2 s \<and> get_le 12 4 b = sqe_cdw3 s \<and>
     get_le 16 8 b = sqe_mptr s \<and> get_le 24 8 b = sqe_prp1 s \<and> get_le 32 8 b = sqe_prp2 s \<and>
     get_le 40 4 b = sqe_cdw10 s \<and> get_le 44 4 b = sqe_cdw11 s \<and> get_le 48 4 b = sqe_cdw12 s \<and>
     get_le 52 4 b = sqe_cdw13 s \<and> get_le 56 4 b = sqe_cdw14 s \<and> get_le 60 4 b = sqe_cdw15 s"

definition cqe_layout :: "bytes \<Rightarrow> NvmeCqe \<Rightarrow> bool" where
  "cqe_layout b c \<longleftrightarrow> length b = 16 \<and>
     get_le 0 4 b = cqe_cdw0 c \<and> get_le 4 4 b = cqe_cdw1 c \<and> get_le 8 2 b = cqe_sq_head c \<and>
     get_le 10 2 b = cqe_sq_id c \<and> get_le 12 2 b = cqe_cid c \<and> get_le 14 2 b = cqe_status c"

definition kvcmd_layout :: "bytes \<Rightarrow> NvmeKVCmd \<Rightarrow> bool" where
  "kvcmd_layout b c \<longleftrightarrow> length b = 64 \<and>
     get_le 0 1 b = kvc_opcode c \<and> get_le 1 1 b = kvc_flags c \<and> get_le 2 2 b = kvc_cid c \<and>
     get_le 4 4 b = kvc_nsid c \<and> get_le 8 8 b = kvc_key c \<and> get_le 16 8 b = kvc_mptr c \<and>
     get_le 24 8 b = kvc_prp1 c \<and> get_le 32 8 b = kvc_prp2 c \<and> get_le 40 4 b = kvc_hbs c \<and>
     get_le 44 1 b = kl (kvc_cdw11 c) \<and> get_le 45 1 b = ro (kvc_cdw11 c) \<and> get_le 46 2 b = rsvd (kvc_cdw11 c) \<and>
     get_le 48 4 b = kvc_cdw12 c \<and> get_le 52 4 b = kvc_cdw13 c \<and> get_le 56 8 b = kvc_key_hi c"

definition kvf_layout :: "bytes \<Rightarrow> NvmeKVF \<Rightarrow> bool" where
  "kvf_layout b f \<longleftrightarrow> length b = 16 \<and>
     get_le 0 2 b = kml f \<and> get_le 2 1 b = kvf_rsvd2 f \<and> get_le 3 1 b = fopt f \<and>
     get_le 4 4 b = vml f \<and> get_le 8 4 b = mnk f \<and> drop 12 b = kvf_rsvd12 f"

definition id_ns_kv_layout :: "bytes \<Rightarrow> NvmeIdNsKV \<Rightarrow> bool" where
  "id_ns_kv_layout b d \<longleftrightarrow> length b = 4096 \<and>
     get_le 0 8 b = nsze d \<and> take 8 (drop 8 b) = rsvd8 d \<and> get_le 16 8 b = nuse d \<and>
     get_le 24 1 b = nsfeat d \<and> get_le 25 1 b = nkvf d \<and> get_le 26 1 b = nmic d \<and>
     get_le 27 1 b = rescap d \<and> get_le 28 1 b = fpi d \<and> take 3 (drop 29 b) = rsvd29 d \<and>
     get_le 32 4 b = novg d \<and> get_le 36 4 b = anagrpid d \<and> take 3 (drop 40 b) = rsvd40 d \<and>
     get_le 43 1 b = nsattr d \<and> get_le 44 2 b = nvmsetid d \<and> get_le 46 2 b = endgid d \<and>
     get_le 48 8 b = nguid d ! 0 \<and> get_le 56 8 b = nguid d ! 1 \<and> get_le 64 8 b = eui64 d \<and>
     (\<forall>i<16. kvf_layout (take 16 (drop (72 + 16 * i) b)) (kvf d ! i)) \<and>
     take 3512 (drop 328 b) = rsvd328 d \<and> drop 3840 b = id_vs d"

lemma kvf_layout_encode:
  assumes "length (kvf_rsvd12 f) = 4"
  shows "kvf_layout (encode_kvf f) f"
  using assms by (simp add: kvf_layout_def encode_kvf_def get_le_layout)

lemma id_ns_kv_layout_encode:
  assumes wf: "id_ns_kv_wf d"
  shows "id_ns_kv_layout (encode_id_ns_kv d) d"
proof -
  obtain g0 g1 where g: "nguid d = [g0, g1]"
    using wf by (auto simp: id_ns_kv_wf_def length_Suc_conv numeral_2_eq_2)
  note L = id_ns_kv_arrays [OF wf] and W = wf [unfolded id_ns_kv_wf_def]
  have "take 16 (drop (72 + 16 * i) (encode_id_ns_kv d)) = encode_kvf (kvf d ! i)" if "i < 16" for i
  proof -
    have "take 16 (drop (16 * i) (concat (map encode_kvf (kvf d)))) = encode_kvf (kvf d ! i)"
      using W that by (intro take_drop_concat) (auto simp: list_all_iff)
    moreover have "take 16 (drop (72 + 16 * i) (encode_id_ns_kv d)) =
        take 16 (drop (16 * i) (take 256 (drop 72 (encode_id_ns_kv d))))"
      using that by (simp add: drop_take add.commute min_def)
    ultimately show ?thesis unfolding encode_id_ns_kv_formats [OF wf] by simp
  qed
  moreover have "kvf_layout (encode_kvf (kvf d ! i)) (kvf d ! i)" if "i < 16" for i
    using W that by (intro kvf_layout_encode) (auto simp: list_all_length)
  ultimately show ?thesis
    using W L length_encode_id_ns_kv [OF wf] unfolding id_ns_kv_layout_def
    by (simp add: encode_id_ns_kv_def get_le_layout g del: length_concat)
qed

text \<open>C21: The packed structures of the header: submission and completion entries, the KV command, the format
  descriptor and the namespace structure have the sizes that the header asserts, 64, 16, 64, 16
  and 4096 bytes, and every field is little-endian at the offset at which the packed struct has it.
  Records and byte strings of the right length correspond one to one, and reading a submission
  entry through the KV struct loses no byte of it.\<close>

theorem wire_formats:
  "sqe_layout (encode_sqe s) s \<and> decode_sqe (encode_sqe s) = s \<and> (length b = 64 \<longrightarrow> encode_sqe (decode_sqe b) = b) \<and>
   cqe_layout (encode_cqe c) c \<and> decode_cqe (encode_cqe c) = c \<and> (length b' = 16 \<longrightarrow> encode_cqe (decode_cqe b') = b') \<and>
   kvcmd_layout (encode_kvcmd k) k \<and> decode_kvcmd (encode_kvcmd k) = k \<and>
   kvcmd_layout (encode_sqe s) (kvcmd_of_sqe s) \<and> encode_kvcmd (kvcmd_of_sqe s) = encode_sqe s \<and>
   (length (kvf_rsvd12 f) = 4 \<longrightarrow> kvf_layout (encode_kvf f) f) \<and>
   (id_ns_kv_wf d \<longrightarrow> id_ns_kv_layout (encode_id_ns_kv d) d)"
proof (intro conjI impI)
  show "sqe_layout (encode_sqe s) s" by (simp add: sqe_layout_def encode_sqe_def get_le_layout)
  show "cqe_layout (encode_cqe c) c" by (simp add: cqe_layout_def encode_cqe_def get_le_layout)
  show "kvcmd_layout (encode_kvcmd k) k" by (simp add: kvcmd_layout_def encode_kvcmd_def get_le_layout)
  show "kvcmd_layout (encode_sqe s) (kvcmd_of_sqe s)"
    by (simp add: kvcmd_layout_def kvcmd_of_sqe_def decode_kvcmd_def)
  show "encode_kvcmd (kvcmd_of_sqe s) = encode_sqe s" by (simp add: kvcmd_of_sqe_def encode_decode_kvcmd)
qed (simp_all add: decode_encode_sqe decode_encode_cqe decode_encode_kvcmd encode_decode_sqe encode_decode_cqe
    kvf_layout_encode id_ns_kv_layout_encode)

theorem wire_formats_witness:
  "encode_sqe (decode_sqe (replicate 64 7)) = replicate 64 7 \<and>
   encode_cqe (decode_cqe (replicate 16 9)) = replicate 16 9 \<and>
   kvf_layout (encode_kvf (zero_kvf\<lparr>mnk := 5\<rparr>)) (zero_kvf\<lparr>mnk := 5\<rparr>) \<and>
   id_ns_kv_layout (encode_id_ns_kv zero_id_ns_kv) zero_id_ns_kv"
  using wire_formats [of "decode_sqe (replicate 64 7)" "replicate 64 7" "decode_cqe (replicate 16 9)" "replicate 16 9"
      "decode_kvcmd (replicate 64 7)" "zero_kvf\<lparr>mnk := 5\<rparr>" zero_id_ns_kv]
  by (simp add: zero_kvf_def)

end
