(* ===== verification/KvStore.thy ===== *)
theory KvStore
  imports NvmeSpec
begin

text \<open>
  The KV namespace of \<^verbatim>\<open>src/kv.h\<close> and \<^verbatim>\<open>src/kv.c\<close>: the slot array, the namespace
  descriptor and the handlers \<open>kv_store\<close>, \<open>kv_retrieve\<close>, \<open>kv_delete\<close> and \<open>kv_exist\<close>
  (\<open>kv_list\<close> is in \<^verbatim>\<open>KvList\<close>). Each handler takes the namespace and the state \<open>s\<close> behind the
  \<open>struct kv_dma\<close> and returns the status with both updated. The specification is a map from
  key bytes to the 4096-byte value buffer; the lemmas show that under the invariant \<open>kv_inv\<close>
  every handler computes exactly its specification on that map and keeps the invariant.
\<close>

section \<open>State\<close>

record kv_pair =
  kp_key :: bytes
  kp_kl :: nat
  kp_val :: bytes
  kp_used :: bool

record kv_ns =
  pairs :: "kv_pair list"
  entries_allocated :: nat
  max_num_keys :: u32
  id_ns_kv :: "NvmeIdNsKV option"
  ednek :: u32

text \<open>
  \<open>struct kv_dma\<close>: \<open>h2c\<close> moves \<open>len\<close> host bytes into the buffer \<open>dst\<close> and returns 0 or a
  failure code with the buffer as it left it (a failed transfer may have moved some bytes);
  \<open>c2h\<close> moves \<open>len\<close> bytes of \<open>src\<close> to the host. The \<open>ctx\<close> pointer is the state \<open>'s\<close>.
\<close>

record 's kv_dma =
  h2c :: "NvmeKVCmd \<Rightarrow> bytes \<Rightarrow> nat \<Rightarrow> 's heap_scheme \<Rightarrow> int \<times> bytes \<times> 's heap_scheme"
  c2h :: "NvmeKVCmd \<Rightarrow> bytes \<Rightarrow> nat \<Rightarrow> 's heap_scheme \<Rightarrow> int \<times> 's heap_scheme"

abbreviation (input) KV_INITIAL_ENTRIES :: nat where "KV_INITIAL_ENTRIES \<equiv> 16"

text \<open>The content of zeroed memory (\<open>calloc\<close>, \<open>memset\<close>) read as a slot.\<close>

definition zero_pair :: kv_pair where
  "zero_pair = \<lparr>kp_key = replicate 16 0, kp_kl = 0, kp_val = replicate 4096 0, kp_used = False\<rparr>"

section \<open>Initialisation and teardown\<close>

definition kv_ns_init :: "kv_ns \<Rightarrow> u32 \<Rightarrow> 's heap_scheme \<Rightarrow> int \<times> kv_ns \<times> 's heap_scheme" where
  "kv_ns_init ns mx s =
     (let (ok1, s1) = alloc s in
      if \<not> ok1 then (-1, ns, s1)
      else let (ok2, s2) = alloc s1 in
      if \<not> ok2 then (-1, ns\<lparr>pairs := []\<rparr>, s2)
      else
        (0,
         ns\<lparr>pairs := replicate KV_INITIAL_ENTRIES zero_pair,
            entries_allocated := KV_INITIAL_ENTRIES,
            max_num_keys := mx,
            ednek := 0,
            id_ns_kv := Some (zero_id_ns_kv\<lparr>
              nsze := ucast mx * 4112, nuse := 0, nkvf := 1,
              kvf := (kvf zero_id_ns_kv)[0 := (kvf zero_id_ns_kv ! 0)\<lparr>
                mnk := mx, kml := 16, vml := 4096\<rparr>]\<rparr>)\<rparr>,
         s2))"

definition kv_ns_teardown :: "kv_ns \<Rightarrow> kv_ns" where
  "kv_ns_teardown ns = ns\<lparr>pairs := [], id_ns_kv := None, entries_allocated := 0\<rparr>"

section \<open>Keys\<close>

definition kv_key_match :: "NvmeKVCmd \<Rightarrow> kv_pair \<Rightarrow> bool" where
  "kv_key_match cmd p =
     (let n = unat (kl (kvc_cdw11 cmd)) in
      if \<not> kp_used p then False
      else if n \<noteq> kp_kl p then False
      else if take (min n 8) (le_enc 8 (kvc_key cmd)) \<noteq> take (min n 8) (kp_key p) then False
      else if n > 8 then
        (if take (min (n - 8) 8) (le_enc 8 (kvc_key_hi cmd)) \<noteq>
            take (min (n - 8) 8) (drop 8 (kp_key p)) then False
         else True)
      else True)"

definition kv_key_store :: "kv_pair \<Rightarrow> NvmeKVCmd \<Rightarrow> kv_pair" where
  "kv_key_store p cmd =
     (let n = unat (kl (kvc_cdw11 cmd));
          k1 = overwrite 0 (take (min n 8) (le_enc 8 (kvc_key cmd))) (kp_key p);
          k2 = (if n > 8 then overwrite 8 (take (min (n - 8) 8) (le_enc 8 (kvc_key_hi cmd))) k1
                else k1)
      in p\<lparr>kp_key := k2, kp_kl := min n 16, kp_used := True\<rparr>)"

section \<open>Handlers\<close>

text \<open>
  The search loop of \<open>kv_store\<close> over \<open>pairs[0 .. entries_allocated)\<close>: the index of the first
  match, and \<open>fst_empty\<close> as the loop leaves it.
\<close>

primrec kv_store_scan :: "NvmeKVCmd \<Rightarrow> nat \<Rightarrow> int \<Rightarrow> kv_pair list \<Rightarrow> nat option \<times> int" where
  "kv_store_scan cmd i fst_empty [] = (None, fst_empty)"
| "kv_store_scan cmd i fst_empty (p # ps) =
     (let fst_empty' = (if fst_empty < 0 \<and> \<not> kp_used p then int32_of i else fst_empty) in
      if kv_key_match cmd p then (Some i, fst_empty')
      else kv_store_scan cmd (Suc i) fst_empty' ps)"

text \<open>The search loop of the other handlers.\<close>

primrec kv_find :: "NvmeKVCmd \<Rightarrow> nat \<Rightarrow> kv_pair list \<Rightarrow> nat option" where
  "kv_find cmd i [] = None"
| "kv_find cmd i (p # ps) = (if kv_key_match cmd p then Some i else kv_find cmd (Suc i) ps)"

text \<open>
  The table doubles when no slot is free. \<open>None\<close> is a failed \<open>realloc\<close>. The entry counts are
  sizes of arrays of 4128-byte objects in memory, so the product \<open>2 * entries_allocated\<close> does
  not wrap; the conversion of the index to \<open>int\<close> can.
\<close>

definition kv_grow :: "kv_ns \<Rightarrow> 's heap_scheme \<Rightarrow> (int \<times> kv_ns) option \<times> 's heap_scheme" where
  "kv_grow ns s =
     (let (ok, s1) = alloc s; new_entries = entries_allocated ns * 2 in
      if \<not> ok then (None, s1)
      else
        (Some (int32_of (entries_allocated ns),
           ns\<lparr>pairs := pairs ns @ replicate (new_entries - entries_allocated ns) zero_pair,
              entries_allocated := new_entries\<rparr>), s1))"

text \<open>The value transfer into slot \<open>i\<close> that ends both branches of \<open>kv_store\<close>.\<close>

definition kv_store_value ::
    "'s kv_dma \<Rightarrow> NvmeKVCmd \<Rightarrow> nat \<Rightarrow> kv_ns \<Rightarrow> 's heap_scheme \<Rightarrow> u16 \<times> kv_ns \<times> 's heap_scheme" where
  "kv_store_value dma cmd i ns s =
     (let p = pairs ns ! i;
          (rc, v, s') = h2c dma cmd (kp_val p) (unat (kvc_hbs cmd)) s;
          ns' = ns\<lparr>pairs := (pairs ns)[i := p\<lparr>kp_val := v\<rparr>]\<rparr>
      in (if rc \<noteq> 0 then NVME_INVALID_FIELD else NVME_SUCCESS, ns', s'))"

definition kv_store_insert ::
    "'s kv_dma \<Rightarrow> NvmeKVCmd \<Rightarrow> int \<Rightarrow> NvmeIdNsKV \<Rightarrow> kv_ns \<Rightarrow> 's heap_scheme \<Rightarrow>
     ub + (u16 \<times> kv_ns \<times> 's heap_scheme)" where
  "kv_store_insert dma cmd fst_empty d ns s =
     (if fst_empty < 0 \<or> nat fst_empty \<ge> length (pairs ns) then Inl UB_index
      else
        let i = nat fst_empty;
            ns1 = ns\<lparr>pairs := (pairs ns)[i := kv_key_store (pairs ns ! i) cmd],
                     id_ns_kv := Some (d\<lparr>nuse := nuse d + 4112\<rparr>)\<rparr>
        in Inr (kv_store_value dma cmd i ns1 s))"

definition kv_store ::
    "'s kv_dma \<Rightarrow> NvmeKVCmd \<Rightarrow> kv_ns \<Rightarrow> 's heap_scheme \<Rightarrow> ub + (u16 \<times> kv_ns \<times> 's heap_scheme)" where
  "kv_store dma cmd ns s =
     (if unat (kl (kvc_cdw11 cmd)) > 16 then Inr (NVME_KV_INVALID_KEY_SIZE, ns, s)
      else if unat (kvc_hbs cmd) > NVME_KV_MAX_VAL_SIZE then Inr (NVME_KV_INVALID_VAL_SIZE, ns, s)
      else
        (case kv_store_scan cmd 0 (-1) (take (entries_allocated ns) (pairs ns)) of
          (Some i, _) \<Rightarrow>
            (if ro (kvc_cdw11 cmd) AND NVME_CMD_KV_STORE_OPT_DONT_STORE_IF_KEY_EXISTS \<noteq> 0
             then Inr (NVME_KV_KEY_EXISTS, ns, s)
             else Inr (kv_store_value dma cmd i ns s))
        | (None, fst_empty) \<Rightarrow>
            (if ro (kvc_cdw11 cmd) AND NVME_CMD_KV_STORE_OPT_DONT_STORE_IF_KEY_NOT_EXISTS \<noteq> 0
             then Inr (NVME_KV_KEY_NOT_EXISTS, ns, s)
             else
               (case id_ns_kv ns of
                 None \<Rightarrow> Inl UB_null
               | Some d \<Rightarrow>
                   (if nuse d div 4112 \<ge> ucast (max_num_keys ns) then Inr (NVME_CAP_EXCEEDED, ns, s)
                    else if fst_empty < 0 then
                      (case kv_grow ns s of
                        (None, s1) \<Rightarrow> Inr (NVME_CAP_EXCEEDED, ns, s1)
                      | (Some (e, ns1), s1) \<Rightarrow> kv_store_insert dma cmd e d ns1 s1)
                    else kv_store_insert dma cmd fst_empty d ns s)))))"

definition kv_retrieve ::
    "'s kv_dma \<Rightarrow> NvmeKVCmd \<Rightarrow> kv_ns \<Rightarrow> 's heap_scheme \<Rightarrow> u16 \<times> 's heap_scheme" where
  "kv_retrieve dma cmd ns s =
     (if unat (kl (kvc_cdw11 cmd)) > 16 then (NVME_INVALID_FIELD, s)
      else
        (case kv_find cmd 0 (take (entries_allocated ns) (pairs ns)) of
          Some i \<Rightarrow>
            (let len = min (unat (kvc_hbs cmd)) NVME_KV_MAX_VAL_SIZE;
                 (rc, s') = c2h dma cmd (kp_val (pairs ns ! i)) len s
             in (if rc \<noteq> 0 then NVME_INVALID_FIELD else NVME_SUCCESS, s'))
        | None \<Rightarrow> (NVME_KV_KEY_NOT_EXISTS, s)))"

definition kv_delete :: "NvmeKVCmd \<Rightarrow> kv_ns \<Rightarrow> ub + (u16 \<times> kv_ns)" where
  "kv_delete cmd ns =
     (if unat (kl (kvc_cdw11 cmd)) > 16 then Inr (NVME_INVALID_FIELD, ns)
      else
        (case kv_find cmd 0 (take (entries_allocated ns) (pairs ns)) of
          Some i \<Rightarrow>
            (case id_ns_kv ns of
              None \<Rightarrow> Inl UB_null
            | Some d \<Rightarrow>
                Inr (NVME_SUCCESS,
                  ns\<lparr>pairs := (pairs ns)[i := zero_pair],
                     id_ns_kv := Some (d\<lparr>nuse := nuse d - 4112\<rparr>)\<rparr>))
        | None \<Rightarrow>
            (if ednek ns AND 0x01 \<noteq> 0 then Inr (NVME_KV_KEY_NOT_EXISTS, ns)
             else Inr (NVME_SUCCESS, ns))))"

definition kv_exist :: "NvmeKVCmd \<Rightarrow> kv_ns \<Rightarrow> u16" where
  "kv_exist cmd ns =
     (if unat (kl (kvc_cdw11 cmd)) > 16 then NVME_INVALID_FIELD
      else
        (case kv_find cmd 0 (take (entries_allocated ns) (pairs ns)) of
          Some i \<Rightarrow> NVME_SUCCESS
        | None \<Rightarrow> NVME_KV_KEY_NOT_EXISTS))"

section \<open>Specification\<close>

text \<open>The key a command names, the key a slot holds, and the map a slot array stands for.\<close>

definition cmd_key :: "NvmeKVCmd \<Rightarrow> bytes" where
  "cmd_key cmd = take (unat (kl (kvc_cdw11 cmd))) (le_enc 8 (kvc_key cmd) @ le_enc 8 (kvc_key_hi cmd))"

definition pair_key :: "kv_pair \<Rightarrow> bytes" where
  "pair_key p = take (kp_kl p) (kp_key p)"

definition slots_map :: "kv_pair list \<Rightarrow> bytes \<rightharpoonup> bytes" where
  "slots_map ps k = map_option kp_val (find (\<lambda>p. kp_used p \<and> pair_key p = k) ps)"

definition kv_abs :: "kv_ns \<Rightarrow> bytes \<rightharpoonup> bytes" where
  "kv_abs ns = slots_map (pairs ns)"

definition used_count :: "kv_pair list \<Rightarrow> nat" where
  "used_count ps = length (filter kp_used ps)"

definition kv_full :: "kv_ns \<Rightarrow> bool" where
  "kv_full ns \<longleftrightarrow> list_all kp_used (pairs ns)"

definition pair_wf :: "kv_pair \<Rightarrow> bool" where
  "pair_wf p \<longleftrightarrow> length (kp_key p) = 16 \<and> kp_kl p \<le> 16 \<and> length (kp_val p) = 4096 \<and>
     (kp_used p \<or> p = zero_pair)"

text \<open>No two used slots hold the same key.\<close>

definition keys_distinct :: "kv_pair list \<Rightarrow> bool" where
  "keys_distinct ps \<longleftrightarrow>
     (\<forall>i < length ps. \<forall>j < length ps. kp_used (ps ! i) \<longrightarrow> kp_used (ps ! j) \<longrightarrow>
        pair_key (ps ! i) = pair_key (ps ! j) \<longrightarrow> i = j)"

text \<open>
  The invariant. The bound \<open>max_num_keys \<le> 2 ^ 31\<close> is a capacity of 8.8 TB: beyond it the
  table can grow past the range of the \<open>int\<close> that holds a slot index.
\<close>

definition kv_inv :: "kv_ns \<Rightarrow> bool" where
  "kv_inv ns \<longleftrightarrow>
     length (pairs ns) = entries_allocated ns \<and>
     (\<exists>k. entries_allocated ns = 16 * 2 ^ k) \<and>
     entries_allocated ns \<le> 2 ^ 31 \<and> unat (max_num_keys ns) \<le> 2 ^ 31 \<and>
     list_all pair_wf (pairs ns) \<and> keys_distinct (pairs ns) \<and>
     used_count (pairs ns) \<le> unat (max_num_keys ns) \<and>
     (\<exists>d. id_ns_kv ns = Some d \<and> id_ns_kv_wf d \<and>
        nuse d = of_nat (kv_slot * used_count (pairs ns)) \<and>
        nsze d = ucast (max_num_keys ns) * 4112)"

text \<open>
  The handlers on the map. \<open>full\<close> says whether every slot is taken, so that an insert has to
  allocate; \<open>mx\<close> is the capacity in keys.
\<close>

definition spec_store ::
    "'s kv_dma \<Rightarrow> NvmeKVCmd \<Rightarrow> nat \<Rightarrow> bool \<Rightarrow> (bytes \<rightharpoonup> bytes) \<Rightarrow> 's heap_scheme \<Rightarrow>
     u16 \<times> (bytes \<rightharpoonup> bytes) \<times> 's heap_scheme" where
  "spec_store dma cmd mx full m s =
     (let k = cmd_key cmd; n = unat (kvc_hbs cmd);
          put = (\<lambda>v s. let (rc, v', s') = h2c dma cmd v n s in
                   (if rc \<noteq> 0 then NVME_INVALID_FIELD else NVME_SUCCESS, m(k \<mapsto> v'), s'))
      in
      if unat (kl (kvc_cdw11 cmd)) > 16 then (NVME_KV_INVALID_KEY_SIZE, m, s)
      else if n > NVME_KV_MAX_VAL_SIZE then (NVME_KV_INVALID_VAL_SIZE, m, s)
      else
        (case m k of
          Some v \<Rightarrow>
            (if ro (kvc_cdw11 cmd) AND NVME_CMD_KV_STORE_OPT_DONT_STORE_IF_KEY_EXISTS \<noteq> 0
             then (NVME_KV_KEY_EXISTS, m, s) else put v s)
        | None \<Rightarrow>
            (if ro (kvc_cdw11 cmd) AND NVME_CMD_KV_STORE_OPT_DONT_STORE_IF_KEY_NOT_EXISTS \<noteq> 0
             then (NVME_KV_KEY_NOT_EXISTS, m, s)
             else if card (dom m) \<ge> mx then (NVME_CAP_EXCEEDED, m, s)
             else if full then
               (let (ok, s1) = alloc s in
                if ok then put (replicate 4096 0) s1 else (NVME_CAP_EXCEEDED, m, s1))
             else put (replicate 4096 0) s)))"

definition spec_retrieve ::
    "'s kv_dma \<Rightarrow> NvmeKVCmd \<Rightarrow> (bytes \<rightharpoonup> bytes) \<Rightarrow> 's heap_scheme \<Rightarrow> u16 \<times> 's heap_scheme" where
  "spec_retrieve dma cmd m s =
     (if unat (kl (kvc_cdw11 cmd)) > 16 then (NVME_INVALID_FIELD, s)
      else
        (case m (cmd_key cmd) of
          Some v \<Rightarrow>
            (let (rc, s') = c2h dma cmd v (min (unat (kvc_hbs cmd)) 4096) s
             in (if rc \<noteq> 0 then NVME_INVALID_FIELD else NVME_SUCCESS, s'))
        | None \<Rightarrow> (NVME_KV_KEY_NOT_EXISTS, s)))"

definition spec_delete ::
    "NvmeKVCmd \<Rightarrow> bool \<Rightarrow> (bytes \<rightharpoonup> bytes) \<Rightarrow> u16 \<times> (bytes \<rightharpoonup> bytes)" where
  "spec_delete cmd err_if_absent m =
     (if unat (kl (kvc_cdw11 cmd)) > 16 then (NVME_INVALID_FIELD, m)
      else if m (cmd_key cmd) = None \<and> err_if_absent then (NVME_KV_KEY_NOT_EXISTS, m)
      else (NVME_SUCCESS, m(cmd_key cmd := None)))"

definition spec_exist :: "NvmeKVCmd \<Rightarrow> (bytes \<rightharpoonup> bytes) \<Rightarrow> u16" where
  "spec_exist cmd m =
     (if unat (kl (kvc_cdw11 cmd)) > 16 then NVME_INVALID_FIELD
      else if m (cmd_key cmd) = None then NVME_KV_KEY_NOT_EXISTS else NVME_SUCCESS)"

section \<open>Slots and keys\<close>

lemma zero_pair_simps [simp]:
  "\<not> kp_used zero_pair" "kp_val zero_pair = replicate 4096 0" "length (kp_key zero_pair) = 16"
  "kp_kl zero_pair = 0"
  by (simp_all add: zero_pair_def)

lemma pair_wf_zero [simp]: "pair_wf zero_pair"
  by (simp add: pair_wf_def)

lemma take_split: "8 < n \<Longrightarrow> take n xs = take 8 xs @ take (n - 8) (drop 8 xs)"
  using take_add [of 8 "n - 8" xs] by simp

lemma length_cmd_key [simp]:
  "unat (kl (kvc_cdw11 cmd)) \<le> 16 \<Longrightarrow> length (cmd_key cmd) = unat (kl (kvc_cdw11 cmd))"
  by (simp add: cmd_key_def)

lemma kv_key_match_iff:
  assumes wf: "pair_wf p" and kl: "unat (kl (kvc_cdw11 cmd)) \<le> 16"
  shows "kv_key_match cmd p \<longleftrightarrow> kp_used p \<and> pair_key p = cmd_key cmd"
proof -
  let ?n = "unat (kl (kvc_cdw11 cmd))"
  have len: "length (kp_key p) = 16" "kp_kl p \<le> 16" using wf by (simp_all add: pair_wf_def)
  have "length (pair_key p) = kp_kl p" using len by (simp add: pair_key_def)
  then have "pair_key p = cmd_key cmd \<Longrightarrow> kp_kl p = ?n" using kl by simp
  moreover have "kp_kl p = ?n \<Longrightarrow> kp_used p \<Longrightarrow> kv_key_match cmd p \<longleftrightarrow> pair_key p = cmd_key cmd"
  proof (cases "?n \<le> 8")
    case True
    then show "kp_kl p = ?n \<Longrightarrow> kp_used p \<Longrightarrow> ?thesis"
      by (auto simp: kv_key_match_def pair_key_def cmd_key_def Let_def)
  next
    case False
    then show "kp_kl p = ?n \<Longrightarrow> kp_used p \<Longrightarrow> ?thesis"
      using len kl by (auto simp: kv_key_match_def pair_key_def cmd_key_def Let_def take_split [of ?n "kp_key p"])
  qed
  ultimately show ?thesis by (auto simp: kv_key_match_def Let_def)
qed

lemma kv_key_store_key:
  assumes "length (kp_key p) = 16" and "unat (kl (kvc_cdw11 cmd)) \<le> 16"
  shows "pair_key (kv_key_store p cmd) = cmd_key cmd"
    and "length (kp_key (kv_key_store p cmd)) = 16"
  using assms
  by (auto simp: kv_key_store_def pair_key_def cmd_key_def overwrite_def Let_def)

lemma kv_key_store_simps [simp]:
  "kp_used (kv_key_store p cmd)" "kp_val (kv_key_store p cmd) = kp_val p"
  "kp_kl (kv_key_store p cmd) \<le> 16"
  by (simp_all add: kv_key_store_def Let_def)

section \<open>The search loops\<close>

text \<open>The index the linear search returns is the first match.\<close>

lemma kv_find_Some:
  "kv_find cmd i ps = Some j \<Longrightarrow> i \<le> j \<and> j - i < length ps \<and> kv_key_match cmd (ps ! (j - i))"
  by (induction ps arbitrary: i) (force split: if_splits simp: nth_Cons' Suc_le_eq)+

lemma kv_find_None: "kv_find cmd i ps = None \<longleftrightarrow> (\<forall>p \<in> set ps. \<not> kv_key_match cmd p)"
  by (induction ps arbitrary: i) auto

lemma kv_store_scan_fst: "fst (kv_store_scan cmd i e ps) = kv_find cmd i ps"
  by (induction ps arbitrary: i e) (auto simp: Let_def)

primrec first_free :: "nat \<Rightarrow> kv_pair list \<Rightarrow> nat option" where
  "first_free i [] = None"
| "first_free i (p # ps) = (if kp_used p then first_free (Suc i) ps else Some i)"

lemma kv_store_scan_keep:
  "0 \<le> e \<Longrightarrow> kv_find cmd i ps = None \<Longrightarrow> snd (kv_store_scan cmd i e ps) = e"
  by (induction ps arbitrary: i) (auto simp: Let_def split: if_splits)

lemma kv_store_scan_snd:
  "kv_find cmd i ps = None \<Longrightarrow> i + length ps \<le> 2 ^ 31 \<Longrightarrow>
   snd (kv_store_scan cmd i (-1) ps) = (case first_free i ps of None \<Rightarrow> -1 | Some j \<Rightarrow> int j)"
  by (induction ps arbitrary: i)
    (auto simp: Let_def int32_of_small kv_store_scan_keep split: if_splits)

lemma first_free_Some:
  "first_free i ps = Some j \<Longrightarrow> i \<le> j \<and> j - i < length ps \<and> \<not> kp_used (ps ! (j - i))"
  by (induction ps arbitrary: i) (force split: if_splits simp: nth_Cons' Suc_le_eq)+

lemma first_free_None: "first_free i ps = None \<longleftrightarrow> list_all kp_used ps"
  by (induction ps arbitrary: i) auto

section \<open>The map of a slot array\<close>

lemma slots_map_eq_None:
  "slots_map ps k = None \<longleftrightarrow> (\<forall>p \<in> set ps. kp_used p \<longrightarrow> pair_key p \<noteq> k)"
  by (auto simp: slots_map_def find_None_iff)

lemma slots_map_eq_Some:
  assumes "keys_distinct ps"
  shows "slots_map ps k = Some v \<longleftrightarrow>
    (\<exists>i < length ps. kp_used (ps ! i) \<and> pair_key (ps ! i) = k \<and> kp_val (ps ! i) = v)"
proof
  assume "slots_map ps k = Some v"
  then show "\<exists>i < length ps. kp_used (ps ! i) \<and> pair_key (ps ! i) = k \<and> kp_val (ps ! i) = v"
    by (auto simp: slots_map_def find_Some_iff)
next
  assume "\<exists>i < length ps. kp_used (ps ! i) \<and> pair_key (ps ! i) = k \<and> kp_val (ps ! i) = v"
  then obtain i where i: "i < length ps" "kp_used (ps ! i)" "pair_key (ps ! i) = k" "kp_val (ps ! i) = v"
    by blast
  have "\<not> (kp_used (ps ! j) \<and> pair_key (ps ! j) = k)" if "j < i" for j
    using assms i that unfolding keys_distinct_def by (metis less_trans nat_neq_iff)
  with i have "find (\<lambda>p. kp_used p \<and> pair_key p = k) ps = Some (ps ! i)"
    unfolding find_Some_iff by blast
  with i show "slots_map ps k = Some v" by (simp add: slots_map_def)
qed

lemma slots_map_nth:
  "keys_distinct ps \<Longrightarrow> i < length ps \<Longrightarrow> kp_used (ps ! i) \<Longrightarrow>
   slots_map ps (pair_key (ps ! i)) = Some (kp_val (ps ! i))"
  by (auto simp: slots_map_eq_Some)

text \<open>Replacing one slot: the three updates of the handlers are instances.\<close>

lemma slots_update:
  assumes d: "keys_distinct ps" and i: "i < length ps"
    and fresh: "\<And>j. kp_used q \<Longrightarrow> j < length ps \<Longrightarrow> j \<noteq> i \<Longrightarrow> kp_used (ps ! j) \<Longrightarrow>
      pair_key (ps ! j) \<noteq> pair_key q"
  shows "keys_distinct (ps[i := q])"
    and "slots_map (ps[i := q]) k =
      (if kp_used q \<and> k = pair_key q then Some (kp_val q)
       else if kp_used (ps ! i) \<and> k = pair_key (ps ! i) then None
       else slots_map ps k)"
proof -
  show d': "keys_distinct (ps[i := q])"
    unfolding keys_distinct_def
  proof (intro allI impI)
    fix a b
    assume "a < length (ps[i := q])" "b < length (ps[i := q])" "kp_used (ps[i := q] ! a)"
      "kp_used (ps[i := q] ! b)" "pair_key (ps[i := q] ! a) = pair_key (ps[i := q] ! b)"
    then show "a = b"
      using d fresh [of a] fresh [of b] unfolding keys_distinct_def
      by (cases "a = i"; cases "b = i") auto
  qed
  have split_i: "(\<exists>j < length ps. P j) \<longleftrightarrow> P i \<or> (\<exists>j < length ps. j \<noteq> i \<and> P j)" for P
    using i by blast
  have other: "slots_map ps k = Some w \<longleftrightarrow>
      (\<exists>j < length ps. j \<noteq> i \<and> kp_used (ps ! j) \<and> pair_key (ps ! j) = k \<and> kp_val (ps ! j) = w)"
    if "\<not> (kp_used (ps ! i) \<and> k = pair_key (ps ! i))" for w
    unfolding slots_map_eq_Some [OF d] using that by metis
  have new: "slots_map (ps[i := q]) k = Some w \<longleftrightarrow>
      (kp_used q \<and> pair_key q = k \<and> kp_val q = w) \<or>
      (\<exists>j < length ps. j \<noteq> i \<and> kp_used (ps ! j) \<and> pair_key (ps ! j) = k \<and> kp_val (ps ! j) = w)" for w
    unfolding slots_map_eq_Some [OF d'] length_list_update
    using i by (subst split_i) (simp cong: conj_cong)
  consider "kp_used q \<and> k = pair_key q" | "\<not> (kp_used q \<and> k = pair_key q)" "kp_used (ps ! i) \<and> k = pair_key (ps ! i)"
    | "\<not> (kp_used q \<and> k = pair_key q)" "\<not> (kp_used (ps ! i) \<and> k = pair_key (ps ! i))" by blast
  then show "slots_map (ps[i := q]) k =
      (if kp_used q \<and> k = pair_key q then Some (kp_val q)
       else if kp_used (ps ! i) \<and> k = pair_key (ps ! i) then None
       else slots_map ps k)"
  proof cases
    case 1
    then show ?thesis using new by auto
  next
    case 2
    with d i have "slots_map (ps[i := q]) k \<noteq> Some w" for w
      unfolding new keys_distinct_def by metis
    with 2 show ?thesis by auto
  next
    case 3
    with new other [OF 3(2)] have "slots_map (ps[i := q]) k = Some w \<longleftrightarrow> slots_map ps k = Some w" for w
      by metis
    then have "slots_map (ps[i := q]) k = slots_map ps k" by (metis not_None_eq)
    with 3 show ?thesis by auto
  qed
qed

lemma slots_update_value:
  assumes "keys_distinct ps" and "i < length ps" and "kp_used (ps ! i)"
  shows "keys_distinct (ps[i := (ps ! i)\<lparr>kp_val := v\<rparr>])"
    and "slots_map (ps[i := (ps ! i)\<lparr>kp_val := v\<rparr>]) = (slots_map ps)(pair_key (ps ! i) \<mapsto> v)"
proof -
  let ?q = "(ps ! i)\<lparr>kp_val := v\<rparr>"
  have key: "pair_key ?q = pair_key (ps ! i)" by (simp add: pair_key_def)
  have fresh: "kp_used ?q \<Longrightarrow> j < length ps \<Longrightarrow> j \<noteq> i \<Longrightarrow> kp_used (ps ! j) \<Longrightarrow>
      pair_key (ps ! j) \<noteq> pair_key ?q" for j
    using assms unfolding keys_distinct_def key by blast
  note upd = slots_update [OF assms(1,2) fresh]
  show "keys_distinct (ps[i := ?q])" by (rule upd(1))
  show "slots_map (ps[i := ?q]) = (slots_map ps)(pair_key (ps ! i) \<mapsto> v)"
    by (rule ext) (simp add: upd(2) key assms(3))
qed

lemma slots_insert:
  assumes "keys_distinct ps" and "i < length ps" and "\<not> kp_used (ps ! i)"
    and "slots_map ps (pair_key q) = None" and "kp_used q"
  shows "keys_distinct (ps[i := q])"
    and "slots_map (ps[i := q]) = (slots_map ps)(pair_key q \<mapsto> kp_val q)"
proof -
  have fresh: "kp_used q \<Longrightarrow> j < length ps \<Longrightarrow> j \<noteq> i \<Longrightarrow> kp_used (ps ! j) \<Longrightarrow>
      pair_key (ps ! j) \<noteq> pair_key q" for j
    using assms(4) by (simp add: slots_map_eq_None)
  note upd = slots_update [OF assms(1,2) fresh]
  show "keys_distinct (ps[i := q])" by (rule upd(1))
  show "slots_map (ps[i := q]) = (slots_map ps)(pair_key q \<mapsto> kp_val q)"
    by (rule ext) (simp add: upd(2) assms(3,5))
qed

lemma slots_clear:
  assumes "keys_distinct ps" and "i < length ps" and "kp_used (ps ! i)" and "\<not> kp_used q"
  shows "keys_distinct (ps[i := q])"
    and "slots_map (ps[i := q]) = (slots_map ps)(pair_key (ps ! i) := None)"
proof -
  note upd = slots_update [OF assms(1,2), of q]
  show "keys_distinct (ps[i := q])" using assms(4) by (intro upd(1)) simp
  show "slots_map (ps[i := q]) = (slots_map ps)(pair_key (ps ! i) := None)"
    using assms(3,4) by (intro ext) (subst upd(2), simp_all)
qed

text \<open>Free slots at the end change nothing.\<close>

lemma slots_grow:
  assumes "keys_distinct ps" and "list_all (\<lambda>q. \<not> kp_used q) qs"
  shows "keys_distinct (ps @ qs)" and "slots_map (ps @ qs) = slots_map ps"
proof -
  have unused: "j < length (ps @ qs) \<Longrightarrow> kp_used ((ps @ qs) ! j) \<Longrightarrow> j < length ps" for j
    using assms(2) by (auto simp: nth_append list_all_length split: if_splits)
  show "keys_distinct (ps @ qs)"
    using assms(1) unused unfolding keys_distinct_def by (metis nth_append)
  have "find (\<lambda>p. kp_used p \<and> pair_key p = k) qs = None" for k
    using assms(2) by (auto simp: find_None_iff list_all_iff)
  then have "find (\<lambda>p. kp_used p \<and> pair_key p = k) (ps @ qs) =
      find (\<lambda>p. kp_used p \<and> pair_key p = k) ps" for k
    by (induction ps) simp_all
  then show "slots_map (ps @ qs) = slots_map ps"
    by (simp add: slots_map_def fun_eq_iff)
qed

section \<open>Counting\<close>

lemma card_slots_map:
  assumes "keys_distinct ps"
  shows "card (dom (slots_map ps)) = used_count ps"
proof -
  let ?I = "{i. i < length ps \<and> kp_used (ps ! i)}"
  have "dom (slots_map ps) = (\<lambda>i. pair_key (ps ! i)) ` ?I"
    by (auto simp: dom_def slots_map_eq_Some [OF assms])
  moreover have "inj_on (\<lambda>i. pair_key (ps ! i)) ?I"
    using assms by (auto simp: inj_on_def keys_distinct_def)
  ultimately show ?thesis
    by (simp add: card_image used_count_def length_filter_conv_card)
qed

lemma used_count_update:
  "i < length ps \<Longrightarrow>
   used_count (ps[i := q]) + of_bool (kp_used (ps ! i)) = used_count ps + of_bool (kp_used q)"
  unfolding used_count_def by (rule length_filter_update)

lemma used_count_append [simp]: "used_count (ps @ qs) = used_count ps + used_count qs"
  by (simp add: used_count_def)

lemma used_count_free [simp]: "\<not> kp_used q \<Longrightarrow> used_count (replicate n q) = 0"
  by (simp add: used_count_def)

lemma used_count_full: "list_all kp_used ps \<Longrightarrow> used_count ps = length ps"
  by (simp add: used_count_def filter_True list_all_iff)

text \<open>The capacity test of \<open>kv_store\<close>, computed on 64-bit words, is exact.\<close>

lemma capacity_check:
  assumes "c \<le> 2 ^ 31"
  shows "(of_nat (4112 * c) :: u64) div 4112 \<ge> ucast (m :: u32) \<longleftrightarrow> unat m \<le> c"
proof -
  have "unat (of_nat (4112 * c) :: u64) = 4112 * c"
    using assms by (simp only: unat_of_nat) simp
  then have "unat ((of_nat (4112 * c) :: u64) div 4112) = c"
    by (simp add: unat_div del: of_nat_mult)
  then show ?thesis by (simp add: word_le_nat_alt unat_ucast_up del: of_nat_mult)
qed

section \<open>Invariant and initial state\<close>

lemma kv_invD:
  assumes "kv_inv ns"
  shows "length (pairs ns) = entries_allocated ns" "list_all pair_wf (pairs ns)"
    "keys_distinct (pairs ns)" "used_count (pairs ns) \<le> unat (max_num_keys ns)"
    "entries_allocated ns \<le> 2 ^ 31" "unat (max_num_keys ns) \<le> 2 ^ 31"
    "card (dom (kv_abs ns)) = used_count (pairs ns)"
    "take (entries_allocated ns) (pairs ns) = pairs ns"
  using assms by (simp_all add: kv_inv_def card_slots_map kv_abs_def)

lemma kv_ns_init_inv:
  assumes "kv_ns_init ns0 mx s = (0, ns, s')" and "unat mx \<le> 2 ^ 31"
  shows "kv_inv ns" and "kv_abs ns = Map.empty"
proof -
  have ns: "pairs ns = replicate 16 zero_pair" "entries_allocated ns = 16" "max_num_keys ns = mx"
    "id_ns_kv ns = Some (zero_id_ns_kv\<lparr>nsze := ucast mx * 4112, nuse := 0, nkvf := 1,
       kvf := (kvf zero_id_ns_kv)[0 := (kvf zero_id_ns_kv ! 0)\<lparr>mnk := mx, kml := 16, vml := 4096\<rparr>]\<rparr>)"
    using assms(1) by (auto simp: kv_ns_init_def split: prod.splits if_splits)
  have "keys_distinct (replicate 16 zero_pair)"
    by (simp add: keys_distinct_def)
  moreover have "16 = (16 :: nat) * 2 ^ 0" by simp
  moreover have "id_ns_kv_wf (the (id_ns_kv ns))"
    using zero_id_ns_kv_wf unfolding ns id_ns_kv_wf_def
    by (auto simp: list_all_length nth_list_update)
  ultimately show "kv_inv ns"
    using assms(2) unfolding kv_inv_def by (auto simp: ns list_all_iff)
  show "kv_abs ns = Map.empty"
    by (rule ext) (auto simp: kv_abs_def ns slots_map_eq_None)
qed

section \<open>The transport contract\<close>

text \<open>
  What the handlers rely on of a \<open>struct kv_dma\<close> (\<^verbatim>\<open>kv.h\<close>: ``'len' bytes are moved''): a
  transfer of \<open>len\<close> bytes into a buffer that holds them leaves the rest of the buffer alone,
  whether or not it succeeds, and a transfer to the host reads no more than \<open>len\<close> bytes.
\<close>

locale kv_transport =
  fixes dma :: "'s kv_dma"
  assumes h2c_frame:
    "h2c dma cmd dst len s = (rc, dst', s') \<Longrightarrow> len \<le> length dst \<Longrightarrow>
     length dst' = length dst \<and> drop len dst' = drop len dst"
    and c2h_prefix:
    "len \<le> length src \<Longrightarrow> c2h dma cmd src len s = c2h dma cmd (take len src) len s"
begin

text \<open>Writing the value of a used slot.\<close>

lemma kv_store_value_refines:
  assumes inv: "kv_inv ns" and i: "i < length (pairs ns)" and used: "kp_used (pairs ns ! i)"
    and hbs: "unat (kvc_hbs cmd) \<le> 4096"
    and eq: "kv_store_value dma cmd i ns s = (st, ns', s')"
    and h: "h2c dma cmd (kp_val (pairs ns ! i)) (unat (kvc_hbs cmd)) s = (rc, v, s1)"
  shows "kv_inv ns'" and "kv_abs ns' = (kv_abs ns)(pair_key (pairs ns ! i) \<mapsto> v)"
    and "st = (if rc \<noteq> 0 then NVME_INVALID_FIELD else NVME_SUCCESS)" and "s' = s1"
    and "max_num_keys ns' = max_num_keys ns" and "ednek ns' = ednek ns"
proof -
  let ?q = "(pairs ns ! i)\<lparr>kp_val := v\<rparr>"
  have ns': "ns' = ns\<lparr>pairs := (pairs ns)[i := ?q]\<rparr>"
    and rest: "st = (if rc \<noteq> 0 then NVME_INVALID_FIELD else NVME_SUCCESS)" "s' = s1"
    using eq h by (simp_all add: kv_store_value_def split: prod.splits)
  have wf: "pair_wf (pairs ns ! i)" using kv_invD(2) [OF inv] i by (rule list_all_nthD)
  then have "length (kp_val (pairs ns ! i)) = 4096" by (simp add: pair_wf_def)
  with h2c_frame [OF h] hbs have "length v = 4096" by simp
  with wf used have "pair_wf ?q" by (simp add: pair_wf_def)
  moreover have "used_count ((pairs ns)[i := ?q]) = used_count (pairs ns)"
    using used_count_update [OF i, of ?q] used by simp
  ultimately show "kv_inv ns'"
    using inv slots_update_value(1) [OF kv_invD(3) [OF inv] i used, of v]
    unfolding ns' kv_inv_def by (simp add: list_all_update)
  show "kv_abs ns' = (kv_abs ns)(pair_key (pairs ns ! i) \<mapsto> v)"
    using slots_update_value(2) [OF kv_invD(3) [OF inv] i used] by (simp add: ns' kv_abs_def)
  show "st = (if rc \<noteq> 0 then NVME_INVALID_FIELD else NVME_SUCCESS)" "s' = s1"
    "max_num_keys ns' = max_num_keys ns" "ednek ns' = ednek ns"
    by (simp_all add: rest ns')
qed

text \<open>A new key in a free slot, then its value.\<close>

lemma kv_store_insert_refines:
  assumes inv: "kv_inv ns" and i: "i < length (pairs ns)" and free: "\<not> kp_used (pairs ns ! i)"
    and kl: "unat (kl (kvc_cdw11 cmd)) \<le> 16" and hbs: "unat (kvc_hbs cmd) \<le> 4096"
    and absent: "kv_abs ns (cmd_key cmd) = None"
    and room: "used_count (pairs ns) < unat (max_num_keys ns)" and d: "id_ns_kv ns = Some d"
    and h: "h2c dma cmd (replicate 4096 0) (unat (kvc_hbs cmd)) s = (rc, v, s1)"
  obtains ns' where
    "kv_store_insert dma cmd (int i) d ns s =
       Inr (if rc \<noteq> 0 then NVME_INVALID_FIELD else NVME_SUCCESS, ns', s1)"
    "kv_inv ns'" "kv_abs ns' = (kv_abs ns)(cmd_key cmd \<mapsto> v)"
    "max_num_keys ns' = max_num_keys ns" "ednek ns' = ednek ns"
proof -
  let ?q = "kv_key_store (pairs ns ! i) cmd"
  let ?ns1 = "ns\<lparr>pairs := (pairs ns)[i := ?q], id_ns_kv := Some (d\<lparr>nuse := nuse d + 4112\<rparr>)\<rparr>"
  have zero: "pairs ns ! i = zero_pair"
    using list_all_nthD [OF kv_invD(2) [OF inv] i] free by (simp add: pair_wf_def)
  have q: "pair_key ?q = cmd_key cmd" "kp_val ?q = replicate 4096 0" "pair_wf ?q"
    using kv_key_store_key [of "pairs ns ! i" cmd] kl by (simp_all add: zero pair_wf_def)
  have ins: "keys_distinct ((pairs ns)[i := ?q])"
    "slots_map ((pairs ns)[i := ?q]) = (kv_abs ns)(cmd_key cmd \<mapsto> replicate 4096 0)"
    using slots_insert [OF kv_invD(3) [OF inv] i free, of ?q] absent q(2) by (simp_all add: q(1) kv_abs_def)
  have cnt: "used_count ((pairs ns)[i := ?q]) = Suc (used_count (pairs ns))"
    using used_count_update [OF i, of ?q] free by simp
  have inv1: "kv_inv ?ns1"
    using inv ins(1) q(3) cnt room d unfolding kv_inv_def
    by (auto simp: list_all_update id_ns_kv_wf_def algebra_simps)
  have abs1: "kv_abs ?ns1 = (kv_abs ns)(cmd_key cmd \<mapsto> replicate 4096 0)"
    by (simp add: kv_abs_def [of ?ns1] ins)
  obtain st ns' s' where eq: "kv_store_value dma cmd i ?ns1 s = (st, ns', s')"
    by (metis prod.exhaust)
  have "kv_store_insert dma cmd (int i) d ns s = Inr (st, ns', s')"
    using i eq by (simp add: kv_store_insert_def Let_def)
  moreover note kv_store_value_refines [OF inv1 _ _ hbs eq, of rc v s1]
  ultimately show ?thesis
    using i h q abs1 by (intro that [of ns']) simp_all
qed

end

section \<open>Growing the table\<close>

lemma kv_grow_eq:
  "kv_grow ns s =
     (if fst (alloc s) then
        Some (int32_of (entries_allocated ns),
          ns\<lparr>pairs := pairs ns @ replicate (entries_allocated ns) zero_pair,
             entries_allocated := entries_allocated ns * 2\<rparr>)
      else None, snd (alloc s))"
  by (simp add: kv_grow_def Let_def split_def mult_2_right)

lemma kv_grow_inv:
  assumes inv: "kv_inv ns" and full: "kv_full ns"
    and room: "used_count (pairs ns) < unat (max_num_keys ns)"
    and eq: "kv_grow ns s = (Some (e, ns1), s1)"
  shows "e = int (entries_allocated ns)" and "kv_inv ns1" and "kv_abs ns1 = kv_abs ns"
    and "entries_allocated ns < length (pairs ns1)" and "pairs ns1 ! entries_allocated ns = zero_pair"
    and "used_count (pairs ns1) = used_count (pairs ns)"
    and "max_num_keys ns1 = max_num_keys ns" "ednek ns1 = ednek ns" "id_ns_kv ns1 = id_ns_kv ns"
proof -
  let ?n = "entries_allocated ns"
  have ns1: "ns1 = ns\<lparr>pairs := pairs ns @ replicate ?n zero_pair, entries_allocated := ?n * 2\<rparr>"
    and e: "e = int32_of ?n"
    using eq by (auto simp: kv_grow_eq split: if_splits)
  obtain k where k: "?n = 16 * 2 ^ k" using inv by (auto simp: kv_inv_def)
  have n: "?n < 2 ^ 31"
    using used_count_full [of "pairs ns"] full room kv_invD(1,6) [OF inv] by (simp add: kv_full_def)
  show "e = int ?n" unfolding e using n by (rule int32_of_small)
  have "(2 :: nat) ^ (k + 4) < 2 ^ 31" using n by (simp add: k power_add)
  then have "k + 4 < 31" by (rule power_less_imp_less_exp [rotated]) simp
  then have "(2 :: nat) ^ (k + 5) \<le> 2 ^ 31" by (intro power_increasing) simp_all
  then have le: "?n * 2 \<le> 2 ^ 31" by (simp add: k power_add)
  have free: "list_all (\<lambda>q. \<not> kp_used q) (replicate ?n zero_pair)" by (simp add: list_all_iff)
  note g = slots_grow [OF kv_invD(3) [OF inv] free]
  show "kv_inv ns1"
    using inv le k g(1) unfolding ns1 kv_inv_def
    by (auto simp: list_all_iff intro: exI [of _ "Suc k"])
  show "kv_abs ns1 = kv_abs ns" using g(2) by (simp add: ns1 kv_abs_def)
  show "?n < length (pairs ns1)" "pairs ns1 ! ?n = zero_pair"
    using kv_invD(1) [OF inv] by (simp_all add: ns1 nth_append k)
  show "used_count (pairs ns1) = used_count (pairs ns)" by (simp add: ns1)
  show "max_num_keys ns1 = max_num_keys ns" "ednek ns1 = ednek ns" "id_ns_kv ns1 = id_ns_kv ns"
    by (simp_all add: ns1)
qed

section \<open>The handlers compute their specification\<close>

text \<open>Under the invariant the linear search finds exactly the keys of the map.\<close>

lemma kv_find_map:
  assumes inv: "kv_inv ns" and kl: "unat (kl (kvc_cdw11 cmd)) \<le> 16"
  shows "kv_find cmd 0 (pairs ns) = None \<longleftrightarrow> kv_abs ns (cmd_key cmd) = None"
    and "kv_find cmd 0 (pairs ns) = Some i \<Longrightarrow>
      i < length (pairs ns) \<and> kp_used (pairs ns ! i) \<and> pair_key (pairs ns ! i) = cmd_key cmd \<and>
      kv_abs ns (cmd_key cmd) = Some (kp_val (pairs ns ! i))"
proof -
  have match: "p \<in> set (pairs ns) \<Longrightarrow>
      kv_key_match cmd p \<longleftrightarrow> kp_used p \<and> pair_key p = cmd_key cmd" for p
    using kv_invD(2) [OF inv] kl by (simp add: list_all_iff kv_key_match_iff)
  then show "kv_find cmd 0 (pairs ns) = None \<longleftrightarrow> kv_abs ns (cmd_key cmd) = None"
    by (auto simp: kv_find_None kv_abs_def slots_map_eq_None)
  assume "kv_find cmd 0 (pairs ns) = Some i"
  with kv_find_Some have "i < length (pairs ns)" "kv_key_match cmd (pairs ns ! i)" by fastforce+
  with match [of "pairs ns ! i"] slots_map_nth [OF kv_invD(3) [OF inv], of i]
  show "i < length (pairs ns) \<and> kp_used (pairs ns ! i) \<and> pair_key (pairs ns ! i) = cmd_key cmd \<and>
      kv_abs ns (cmd_key cmd) = Some (kp_val (pairs ns ! i))"
    by (auto simp: kv_abs_def)
qed

lemma kv_retrieve_refines:
  assumes "kv_inv ns"
  shows "kv_retrieve dma cmd ns s = spec_retrieve dma cmd (kv_abs ns) s"
proof (cases "unat (kl (kvc_cdw11 cmd)) \<le> 16")
  case True
  show ?thesis
  proof (cases "kv_find cmd 0 (pairs ns)")
    case None
    with True show ?thesis
      using kv_find_map(1) [OF assms True] kv_invD(8) [OF assms]
      by (simp add: kv_retrieve_def spec_retrieve_def)
  next
    case (Some i)
    with True show ?thesis
      using kv_find_map(2) [OF assms True Some] kv_invD(8) [OF assms]
      by (simp add: kv_retrieve_def spec_retrieve_def)
  qed
qed (simp add: kv_retrieve_def spec_retrieve_def)

lemma kv_exist_refines:
  assumes "kv_inv ns"
  shows "kv_exist cmd ns = spec_exist cmd (kv_abs ns)"
  using kv_find_map(1) [OF assms, of cmd] kv_invD(8) [OF assms]
  by (cases "unat (kl (kvc_cdw11 cmd)) \<le> 16")
    (auto simp: kv_exist_def spec_exist_def split: option.splits)

lemma kv_delete_refines:
  assumes inv: "kv_inv ns"
  obtains ns' where
    "kv_delete cmd ns = Inr (fst (spec_delete cmd (ednek ns AND 1 \<noteq> 0) (kv_abs ns)), ns')"
    "kv_abs ns' = snd (spec_delete cmd (ednek ns AND 1 \<noteq> 0) (kv_abs ns))" "kv_inv ns'"
    "max_num_keys ns' = max_num_keys ns" "ednek ns' = ednek ns"
proof (cases "unat (kl (kvc_cdw11 cmd)) \<le> 16 \<and> kv_find cmd 0 (pairs ns) \<noteq> None")
  case True
  then have kl: "unat (kl (kvc_cdw11 cmd)) \<le> 16" by simp
  from True obtain i where f: "kv_find cmd 0 (pairs ns) = Some i" by blast
  from inv obtain d where d: "id_ns_kv ns = Some d" by (auto simp: kv_inv_def)
  note i = kv_find_map(2) [OF inv kl f]
  let ?ns = "ns\<lparr>pairs := (pairs ns)[i := zero_pair], id_ns_kv := Some (d\<lparr>nuse := nuse d - 4112\<rparr>)\<rparr>"
  have clr: "keys_distinct ((pairs ns)[i := zero_pair])"
    "slots_map ((pairs ns)[i := zero_pair]) = (kv_abs ns)(cmd_key cmd := None)"
    using slots_clear [OF kv_invD(3) [OF inv], of i zero_pair] i by (simp_all add: kv_abs_def)
  have "Suc (used_count ((pairs ns)[i := zero_pair])) = used_count (pairs ns)"
    using used_count_update [of i "pairs ns" zero_pair] i by simp
  then have cnt: "used_count (pairs ns) = Suc (used_count ((pairs ns)[i := zero_pair]))" by simp
  have "kv_inv ?ns"
    using inv clr(1) cnt d unfolding kv_inv_def
    by (auto simp: list_all_update id_ns_kv_wf_def algebra_simps)
  then show ?thesis
    using i f d clr kl kv_invD(8) [OF inv]
    by (intro that [of ?ns]) (simp_all add: kv_delete_def spec_delete_def kv_abs_def)
next
  case False
  then show ?thesis
    using inv kv_find_map(1) [OF inv, of cmd] kv_invD(8) [OF inv]
    by (intro that [of ns]) (auto simp: kv_delete_def spec_delete_def fun_upd_idem)
qed

text \<open>
  A handler run refines a specification run when it returns (no undefined behaviour) with the
  same status and transport state, the namespace stands for the specified map, and invariant,
  capacity and feature setting are kept.
\<close>

definition refines ::
    "kv_ns \<Rightarrow> ub + (u16 \<times> kv_ns \<times> 's) \<Rightarrow> u16 \<times> (bytes \<rightharpoonup> bytes) \<times> 's \<Rightarrow> bool" where
  "refines ns res spec \<longleftrightarrow>
     (\<exists>ns'. res = Inr (fst spec, ns', snd (snd spec)) \<and> kv_abs ns' = fst (snd spec) \<and>
        kv_inv ns' \<and> max_num_keys ns' = max_num_keys ns \<and> ednek ns' = ednek ns)"

lemma refinesI:
  "res = Inr (st, ns', s') \<Longrightarrow> spec = (st, m', s') \<Longrightarrow> kv_abs ns' = m' \<Longrightarrow> kv_inv ns' \<Longrightarrow>
   max_num_keys ns' = max_num_keys ns \<Longrightarrow> ednek ns' = ednek ns \<Longrightarrow> refines ns res spec"
  by (auto simp: refines_def)

text \<open>\<open>kv_store\<close> of a new key, with the search evaluated.\<close>

lemma kv_store_new:
  assumes inv: "kv_inv ns" and kl: "unat (kl (kvc_cdw11 cmd)) \<le> 16"
    and hbs: "unat (kvc_hbs cmd) \<le> 4096" and new: "kv_abs ns (cmd_key cmd) = None"
    and opt: "ro (kvc_cdw11 cmd) AND 1 = 0" and d: "id_ns_kv ns = Some d"
  shows "kv_store dma cmd ns s =
    (if unat (max_num_keys ns) \<le> used_count (pairs ns) then Inr (NVME_CAP_EXCEEDED, ns, s)
     else (case first_free 0 (pairs ns) of
       None \<Rightarrow> (case kv_grow ns s of
           (None, s1) \<Rightarrow> Inr (NVME_CAP_EXCEEDED, ns, s1)
         | (Some (e, ns1), s1) \<Rightarrow> kv_store_insert dma cmd e d ns1 s1)
     | Some j \<Rightarrow> kv_store_insert dma cmd (int j) d ns s))"
proof -
  have nuse: "nuse d = of_nat (4112 * used_count (pairs ns))" using inv d by (auto simp: kv_inv_def)
  have find: "kv_find cmd 0 (pairs ns) = None" using kv_find_map(1) [OF inv kl] new by simp
  have scan: "kv_store_scan cmd 0 (-1) (pairs ns) =
      (None, case first_free 0 (pairs ns) of None \<Rightarrow> -1 | Some j \<Rightarrow> int j)"
    using kv_store_scan_fst [of cmd 0 "-1" "pairs ns"] kv_store_scan_snd [OF find] find kv_invD(1,5) [OF inv]
    by (simp add: prod_eq_iff)
  have cap: "nuse d div 4112 \<ge> ucast (max_num_keys ns) \<longleftrightarrow> unat (max_num_keys ns) \<le> used_count (pairs ns)"
    unfolding nuse using kv_invD(4,6) [OF inv] by (intro capacity_check) linarith
  show ?thesis
    using kl hbs opt d cap by (simp add: kv_store_def kv_invD(8) [OF inv] scan split: option.split)
qed

lemma spec_store_new:
  assumes "unat (kl (kvc_cdw11 cmd)) \<le> 16" and "unat (kvc_hbs cmd) \<le> 4096"
    and "m (cmd_key cmd) = None" and "ro (kvc_cdw11 cmd) AND 1 = 0"
  shows "spec_store dma cmd mx full m s =
    (let put = (\<lambda>s. let (rc, v, s') = h2c dma cmd (replicate 4096 0) (unat (kvc_hbs cmd)) s in
           (if rc \<noteq> 0 then NVME_INVALID_FIELD else NVME_SUCCESS, m(cmd_key cmd \<mapsto> v), s')) in
     if mx \<le> card (dom m) then (NVME_CAP_EXCEEDED, m, s)
     else if full then (if fst (alloc s) then put (snd (alloc s)) else (NVME_CAP_EXCEEDED, m, snd (alloc s)))
     else put s)"
  using assms by (simp add: spec_store_def Let_def split: prod.split)

context kv_transport
begin

text \<open>The three ways an insert ends: at capacity, in a free slot, in a grown table.\<close>

lemma kv_store_new_refines:
  assumes inv: "kv_inv ns" and kl: "unat (kl (kvc_cdw11 cmd)) \<le> 16"
    and hbs: "unat (kvc_hbs cmd) \<le> 4096" and new: "kv_abs ns (cmd_key cmd) = None"
    and opt: "ro (kvc_cdw11 cmd) AND 1 = 0"
  shows "refines ns (kv_store dma cmd ns s)
    (spec_store dma cmd (unat (max_num_keys ns)) (kv_full ns) (kv_abs ns) s)"
proof -
  from inv obtain d where d: "id_ns_kv ns = Some d" by (auto simp: kv_inv_def)
  note impl = kv_store_new [OF inv kl hbs new opt d, of dma s]
  note spec = spec_store_new [where m = "kv_abs ns", OF kl hbs new opt,
      where dma = dma and mx = "unat (max_num_keys ns)" and s = s]
  note cnt = kv_invD(7) [OF inv]
  consider (cap) "unat (max_num_keys ns) \<le> used_count (pairs ns)"
    | (free) i where "used_count (pairs ns) < unat (max_num_keys ns)" "first_free 0 (pairs ns) = Some i"
    | (full) "used_count (pairs ns) < unat (max_num_keys ns)" "first_free 0 (pairs ns) = None"
    by fastforce
  then show ?thesis
  proof cases
    case cap
    then show ?thesis
      by (intro refinesI [OF impl [unfolded if_P [OF cap]] _ refl inv]) (simp_all add: spec cnt)
  next
    case (free i)
    obtain rc v s1 where h: "h2c dma cmd (replicate 4096 0) (unat (kvc_hbs cmd)) s = (rc, v, s1)"
      by (metis prod.exhaust)
    have i: "i < length (pairs ns)" "\<not> kp_used (pairs ns ! i)"
      using first_free_Some [OF free(2)] by simp_all
    then have nf: "\<not> kv_full ns" by (auto simp: kv_full_def list_all_length)
    obtain ns' where r: "kv_store_insert dma cmd (int i) d ns s =
          Inr (if rc \<noteq> 0 then NVME_INVALID_FIELD else NVME_SUCCESS, ns', s1)"
        "kv_inv ns'" "kv_abs ns' = (kv_abs ns)(cmd_key cmd \<mapsto> v)"
        "max_num_keys ns' = max_num_keys ns" "ednek ns' = ednek ns"
      by (rule kv_store_insert_refines [OF inv i kl hbs new free(1) d h])
    show ?thesis
      by (rule refinesI [OF _ _ r(3,2,4,5)]) (use free nf h in \<open>simp_all add: impl spec r cnt\<close>)
  next
    case full
    then have fl: "kv_full ns" by (simp add: kv_full_def first_free_None)
    show ?thesis
    proof (cases "fst (alloc s)")
      case False
      then have "kv_grow ns s = (None, snd (alloc s))" by (simp add: kv_grow_eq)
      with False full fl show ?thesis
        by (intro refinesI [OF _ _ refl inv]) (simp_all add: impl spec cnt)
    next
      case True
      then obtain e ns1 where e: "kv_grow ns s = (Some (e, ns1), snd (alloc s))"
        by (simp add: kv_grow_eq)
      note gr = kv_grow_inv [OF inv fl full(1) e]
      obtain rc v s2 where h: "h2c dma cmd (replicate 4096 0) (unat (kvc_hbs cmd)) (snd (alloc s)) = (rc, v, s2)"
        by (metis prod.exhaust)
      have "\<not> kp_used (pairs ns1 ! entries_allocated ns)" by (simp add: gr)
      then obtain ns' where r: "kv_store_insert dma cmd e d ns1 (snd (alloc s)) =
          Inr (if rc \<noteq> 0 then NVME_INVALID_FIELD else NVME_SUCCESS, ns', s2)"
        "kv_inv ns'" "kv_abs ns' = (kv_abs ns)(cmd_key cmd \<mapsto> v)"
        "max_num_keys ns' = max_num_keys ns" "ednek ns' = ednek ns"
        using kv_store_insert_refines [OF gr(2,4) _ kl hbs _ _ _ h, of d] gr full d new by auto
      show ?thesis
        by (rule refinesI [OF _ _ r(3,2,4,5)]) (use full fl True e h in \<open>simp_all add: impl spec r cnt\<close>)
    qed
  qed
qed

lemma kv_store_refines:
  assumes inv: "kv_inv ns"
  shows "refines ns (kv_store dma cmd ns s)
    (spec_store dma cmd (unat (max_num_keys ns)) (kv_full ns) (kv_abs ns) s)"
proof (cases "unat (kl (kvc_cdw11 cmd)) \<le> 16 \<and> unat (kvc_hbs cmd) \<le> 4096")
  case False
  then show ?thesis
    using inv by (auto simp: refines_def kv_store_def spec_store_def)
next
  case True
  then have kl: "unat (kl (kvc_cdw11 cmd)) \<le> 16" and hbs: "unat (kvc_hbs cmd) \<le> 4096" by simp_all
  have scan: "\<exists>e. kv_store_scan cmd 0 (-1) (pairs ns) = (kv_find cmd 0 (pairs ns), e)"
    using kv_store_scan_fst [of cmd 0 "-1" "pairs ns"] by (metis prod.collapse)
  show ?thesis
  proof (cases "kv_find cmd 0 (pairs ns)")
    case None
    then have new: "kv_abs ns (cmd_key cmd) = None" using kv_find_map(1) [OF inv kl] by simp
    show ?thesis
    proof (cases "ro (kvc_cdw11 cmd) AND 1 = 0")
      case True
      then show ?thesis by (rule kv_store_new_refines [OF inv kl hbs new])
    next
      case False
      with scan None new kl hbs inv show ?thesis
        by (auto simp: refines_def kv_store_def spec_store_def kv_invD(8) [OF inv])
    qed
  next
    case (Some i)
    note i = kv_find_map(2) [OF inv kl Some]
    obtain rc v s1 where h: "h2c dma cmd (kp_val (pairs ns ! i)) (unat (kvc_hbs cmd)) s = (rc, v, s1)"
      by (metis prod.exhaust)
    obtain st ns' s' where eq: "kv_store_value dma cmd i ns s = (st, ns', s')" by (metis prod.exhaust)
    have "i < length (pairs ns)" "kp_used (pairs ns ! i)" using i by simp_all
    note r = kv_store_value_refines [OF inv this hbs eq h]
    from scan Some i kl hbs inv eq h r show ?thesis
      by (auto simp: refines_def kv_store_def spec_store_def kv_invD(8) [OF inv])
  qed
qed

end

end
