(* ===== verification/KvList.thy ===== *)
theory KvList
  imports KvStore
begin

text \<open>
  \<open>kv_list\<close> of \<^verbatim>\<open>src/kv.c\<close>: the Returned Data Structure it builds in a buffer that it grows
  with \<open>realloc\<close>, entry by entry, until the host buffer is full. The specification is the byte
  image of the listed keys; the lemmas show that the buffer handed to the host is exactly that
  image, so no byte of it comes from uninitialised memory.
\<close>

section \<open>The handler\<close>

text \<open>\<open>kds_wo_pad\<close> and \<open>kds\<close> of the loop body.\<close>

definition kds_wo_pad :: "kv_pair \<Rightarrow> nat" where
  "kds_wo_pad p = 2 + kp_kl p"

definition kds :: "kv_pair \<Rightarrow> nat" where
  "kds p = kds_wo_pad p + kds_wo_pad p mod 4"

text \<open>The writes of one entry into the grown buffer: padding, key length, key, counter.\<close>

definition kv_list_put :: "kv_pair \<Rightarrow> nat \<Rightarrow> bytes \<Rightarrow> bytes" where
  "kv_list_put p rds_size rds =
     (let rds1 = (if kds_wo_pad p < kds p
                  then overwrite (rds_size + kds_wo_pad p) (replicate (kds p - kds_wo_pad p) 0) rds
                  else rds);
          rds2 = overwrite rds_size (le_enc 2 (of_nat (kp_kl p) :: u16)) rds1;
          rds3 = overwrite (rds_size + 2) (take (kp_kl p) (kp_key p)) rds2
      in overwrite 0 (le_enc 2 (get_le 0 2 rds3 + 1 :: u16)) rds3)"

primrec kv_list_loop ::
    "nat \<Rightarrow> kv_pair list \<Rightarrow> bytes \<Rightarrow> nat \<Rightarrow> 's heap_scheme \<Rightarrow> (bytes \<times> nat) option \<times> 's heap_scheme" where
  "kv_list_loop hbs [] rds rds_size s = (Some (rds, rds_size), s)"
| "kv_list_loop hbs (p # ps) rds rds_size s =
     (if \<not> kp_used p then kv_list_loop hbs ps rds rds_size s
      else
        let (ok, s1) = alloc s in
        if \<not> ok then (None, s1)
        else
          let grown = realloc_bytes s1 rds (rds_size + kds p) in
          if rds_size + kds p > hbs then (Some (grown, rds_size), s1)
          else kv_list_loop hbs ps (kv_list_put p rds_size grown) (rds_size + kds p) s1)"

definition kv_list ::
    "'s kv_dma \<Rightarrow> NvmeKVCmd \<Rightarrow> kv_ns \<Rightarrow> 's heap_scheme \<Rightarrow> u16 \<times> 's heap_scheme" where
  "kv_list dma cmd ns s =
     (let (ok, s1) = alloc s in
      if unat (kl (kvc_cdw11 cmd)) > 16 then (NVME_INVALID_FIELD, s1)
      else if \<not> ok then (NVME_CAP_EXCEEDED, s1)
      else
        let slots = take (entries_allocated ns) (pairs ns);
            first_entry = (case kv_find cmd 0 slots of Some i \<Rightarrow> i | None \<Rightarrow> 0)
        in
        (case kv_list_loop (unat (kvc_hbs cmd)) (drop first_entry slots) (replicate 4 0) 4 s1 of
          (None, s2) \<Rightarrow> (NVME_CAP_EXCEEDED, s2)
        | (Some (rds, rds_size), s2) \<Rightarrow>
            (let (rc, s3) = c2h dma cmd rds rds_size s2
             in (if rc \<noteq> 0 then NVME_INVALID_FIELD else NVME_SUCCESS, s3))))"

section \<open>Specification\<close>

text \<open>One entry, the header, and the whole structure.\<close>

definition kds_image :: "kv_pair \<Rightarrow> bytes" where
  "kds_image p = le_enc 2 (of_nat (kp_kl p) :: u16) @ pair_key p @ replicate (kds_wo_pad p mod 4) 0"

definition rds_image :: "kv_pair list \<Rightarrow> bytes" where
  "rds_image qs = le_enc 2 (of_nat (length qs) :: u16) @ [0, 0] @ concat (map kds_image qs)"

text \<open>The entries that fit, in order, into \<open>hbs\<close> bytes of which \<open>sz\<close> are taken.\<close>

primrec fitting :: "nat \<Rightarrow> nat \<Rightarrow> kv_pair list \<Rightarrow> kv_pair list" where
  "fitting hbs sz [] = []"
| "fitting hbs sz (p # ps) = (if sz + kds p > hbs then [] else p # fitting hbs (sz + kds p) ps)"

text \<open>The slots a list command returns: from the named key on, or all of them.\<close>

definition listed :: "NvmeKVCmd \<Rightarrow> kv_ns \<Rightarrow> kv_pair list" where
  "listed cmd ns =
     fitting (unat (kvc_hbs cmd)) 4
       (filter kp_used (drop (case kv_find cmd 0 (pairs ns) of Some i \<Rightarrow> i | None \<Rightarrow> 0) (pairs ns)))"

section \<open>One entry\<close>

lemma length_kds_image [simp]: "pair_wf p \<Longrightarrow> length (kds_image p) = kds p"
  by (simp add: kds_image_def kds_def kds_wo_pad_def pair_key_def pair_wf_def)

text \<open>The four writes fill the grown part completely and count the entry.\<close>

lemma kv_list_put_image:
  assumes wf: "pair_wf p" and j: "length j = kds p" and sz: "4 \<le> length rds"
  shows "kv_list_put p (length rds) (rds @ j) =
    overwrite 0 (le_enc 2 (get_le 0 2 rds + 1 :: u16)) rds @ kds_image p"
proof -
  let ?pad = "replicate (kds_wo_pad p mod 4) 0" and ?l = "le_enc 2 (of_nat (kp_kl p) :: u16)"
  have len: "length (pair_key p) = kp_kl p" "length j = 2 + (kp_kl p + kds_wo_pad p mod 4)"
    using wf j by (simp_all add: pair_key_def pair_wf_def kds_def kds_wo_pad_def)
  obtain a b c where abc: "j = a @ b @ c" "length a = 2" "length b = kp_kl p" "length c = kds_wo_pad p mod 4"
  proof
    show "j = take 2 j @ take (kp_kl p) (drop 2 j) @ drop (kp_kl p) (drop 2 j)"
      by (metis append_take_drop_id)
  qed (use len in auto)
  have w1: "(if kds_wo_pad p < kds p
      then overwrite (length rds + kds_wo_pad p) (replicate (kds p - kds_wo_pad p) 0) (rds @ j)
      else rds @ j) = rds @ a @ b @ ?pad"
    using abc by (auto simp: kds_def kds_wo_pad_def overwrite_def)
  have w2: "overwrite (length rds) ?l (rds @ a @ b @ ?pad) = rds @ ?l @ b @ ?pad"
    using abc by (simp add: overwrite_def)
  have w3: "overwrite (length rds + 2) (take (kp_kl p) (kp_key p)) (rds @ ?l @ b @ ?pad) = rds @ kds_image p"
    using abc len by (simp add: overwrite_def kds_image_def flip: pair_key_def)
  have "get_le 0 2 (rds @ kds_image p) = (get_le 0 2 rds :: u16)"
    using sz by (simp add: get_le_def)
  then show ?thesis
    using sz unfolding kv_list_put_def Let_def w1 w2 w3 by (simp add: overwrite_append1)
qed

lemma rds_image_count:
  "overwrite 0 (le_enc 2 (get_le 0 2 (rds_image qs) + 1 :: u16)) (rds_image qs) @ kds_image p =
   rds_image (qs @ [p])"
proof -
  have "get_le 0 2 (rds_image qs) = (of_nat (length qs) :: u16)"
    unfolding rds_image_def by (rule get_le_here) simp
  then show ?thesis
    by (simp add: rds_image_def overwrite_def add.commute)
qed

lemma length_rds_image:
  "list_all pair_wf qs \<Longrightarrow> length (rds_image qs) = 4 + (\<Sum>q\<leftarrow>qs. kds q)"
  by (induction qs rule: rev_induct) (auto simp: rds_image_def)

lemma length_rds_image_ge [simp]: "4 \<le> length (rds_image qs)"
  by (simp add: rds_image_def)

section \<open>The loop\<close>

lemma kv_list_loop_image:
  assumes "list_all pair_wf ps" and "rds = rds_image qs"
    and "kv_list_loop hbs ps rds (length rds) s = (Some (rds', n), s')"
  shows "n \<le> length rds' \<and>
    take n rds' = rds_image (qs @ fitting hbs (length rds) (filter kp_used ps))"
  using assms
proof (induction ps arbitrary: qs rds s)
  case Nil
  then show ?case by auto
next
  case (Cons p ps)
  show ?case
  proof (cases "kp_used p")
    case False
    with Cons show ?thesis by simp
  next
    case True
    obtain ok s1 where al: "alloc s = (ok, s1)" by (metis prod.exhaust)
    with True Cons.prems(3) have ok: "ok" by (auto split: if_splits)
    have wf: "pair_wf p" using Cons.prems(1) by simp
    define j where "j = drop (length rds) (realloc_bytes s1 rds (length rds + kds p))"
    have j: "realloc_bytes s1 rds (length rds + kds p) = rds @ j" "length j = kds p"
      by (simp_all add: j_def realloc_bytes_def)
    show ?thesis
    proof (cases "length rds + kds p > hbs")
      case True
      with Cons.prems(2,3) \<open>kp_used p\<close> al ok j show ?thesis by auto
    next
      case False
      let ?rds = "rds_image (qs @ [p])"
      have put: "kv_list_put p (length rds) (rds @ j) = ?rds"
        using kv_list_put_image [OF wf j(2), of rds] Cons.prems(2) by (simp add: rds_image_count)
      have len: "length ?rds = length rds + kds p"
        using wf Cons.prems(2) by (simp add: rds_image_def)
      have "kv_list_loop hbs ps ?rds (length ?rds) s1 = (Some (rds', n), s')"
        using Cons.prems(3) \<open>kp_used p\<close> al ok j False by (simp add: put len)
      from Cons.IH [OF _ refl this] Cons.prems(1) False \<open>kp_used p\<close>
      show ?thesis by (simp add: len)
    qed
  qed
qed

lemma kv_list_loop_alloc:
  assumes "\<And>i. allocs s i"
  shows "\<exists>x s'. kv_list_loop hbs ps rds n s = (Some x, s') \<and> heap.more s' = heap.more s \<and> (\<forall>i. allocs s' i)"
  using assms
proof (induction ps arbitrary: rds n s)
  case (Cons p ps)
  have s1: "alloc s = (True, s\<lparr>allocs := \<lambda>i. allocs s (Suc i)\<rparr>)"
    using Cons.prems by (simp add: alloc_def)
  show ?case
    using Cons.IH [of s] Cons.IH [of "s\<lparr>allocs := \<lambda>i. allocs s (Suc i)\<rparr>"] Cons.prems
    by (auto simp: s1 Let_def)
qed auto

lemma kv_list_loop_frame:
  "heap.more (snd (kv_list_loop hbs ps rds n s)) = heap.more s"
proof (induction ps arbitrary: rds n s)
  case (Cons p ps)
  show ?case
    using alloc_frame(2) [of s] by (cases "alloc s") (simp add: Cons Let_def)
qed simp

section \<open>What the host receives\<close>

lemma list_all_fitting: "list_all P ps \<Longrightarrow> list_all P (fitting hbs sz ps)"
  by (induction ps arbitrary: sz) auto

lemma fitting_prefix: "\<exists>rest. ps = fitting hbs sz ps @ rest"
  by (induction ps arbitrary: sz) auto

lemma fitting_maximal:
  "ps = fitting hbs sz ps @ p # rest \<Longrightarrow> hbs < sz + (\<Sum>q\<leftarrow>fitting hbs sz ps @ [p]. kds q)"
proof (induction ps arbitrary: sz)
  case (Cons q ps)
  then show ?case using Cons.IH [of "sz + kds q"] by (auto simp: add.assoc split: if_splits)
qed simp

lemma fitting_size: "sz \<le> hbs \<Longrightarrow> sz + (\<Sum>q\<leftarrow>fitting hbs sz ps. kds q) \<le> hbs"
proof (induction ps arbitrary: sz)
  case (Cons p ps)
  then show ?case using Cons.IH [of "sz + kds p"] by (simp add: add.assoc)
qed simp

lemma fitting_all: "sz + (\<Sum>q\<leftarrow>ps. kds q) \<le> hbs \<Longrightarrow> fitting hbs sz ps = ps"
  by (induction ps arbitrary: sz) auto

lemma listed_wf:
  assumes "kv_inv ns"
  shows "list_all pair_wf (listed cmd ns)"
  using kv_invD(2) [OF assms] unfolding listed_def
  by (intro list_all_fitting) (auto simp: list_all_iff dest: in_set_dropD)

lemma length_listed:
  assumes "kv_inv ns"
  shows "length (rds_image (listed cmd ns)) = 4 + (\<Sum>q\<leftarrow>listed cmd ns. kds q)"
  by (rule length_rds_image [OF listed_wf [OF assms]])

context kv_transport
begin

lemma kv_list_refines:
  assumes inv: "kv_inv ns" and kl: "unat (kl (kvc_cdw11 cmd)) \<le> 16"
    and mem: "\<And>i. allocs s i"
  shows "\<exists>s1. heap.more s1 = heap.more s \<and> (\<forall>i. allocs s1 i) \<and>
    kv_list dma cmd ns s =
      (let (rc, s') = c2h dma cmd (rds_image (listed cmd ns)) (length (rds_image (listed cmd ns))) s1
       in (if rc \<noteq> 0 then NVME_INVALID_FIELD else NVME_SUCCESS, s'))"
proof -
  let ?first = "case kv_find cmd 0 (pairs ns) of Some i \<Rightarrow> i | None \<Rightarrow> 0"
  let ?s1 = "s\<lparr>allocs := \<lambda>i. allocs s (Suc i)\<rparr>"
  have hdr: "replicate 4 0 = rds_image []" by (simp add: rds_image_def numeral_eq_Suc)
  obtain rds n s2 where loop:
      "kv_list_loop (unat (kvc_hbs cmd)) (drop ?first (pairs ns)) (rds_image []) 4 ?s1 = (Some (rds, n), s2)"
      "heap.more s2 = heap.more s" "\<forall>i. allocs s2 i"
  proof -
    obtain x s2 where "kv_list_loop (unat (kvc_hbs cmd)) (drop ?first (pairs ns)) (rds_image []) 4 ?s1 = (Some x, s2)"
        "heap.more s2 = heap.more ?s1" "\<forall>i. allocs s2 i"
      using kv_list_loop_alloc [of ?s1] mem by simp blast
    then show ?thesis using that by (cases x) simp
  qed
  have len: "length (rds_image []) = 4" by (simp add: rds_image_def)
  have "list_all pair_wf (drop ?first (pairs ns))"
    using kv_invD(2) [OF inv] by (auto simp: list_all_iff dest: in_set_dropD)
  note img = kv_list_loop_image [OF this refl, of "unat (kvc_hbs cmd)" "[]" ?s1 rds n s2, unfolded len, OF loop(1)]
  then have "c2h dma cmd rds n s2 =
      c2h dma cmd (rds_image (listed cmd ns)) (length (rds_image (listed cmd ns))) s2"
    using c2h_prefix [of n rds cmd s2] by (metis append_Nil length_take listed_def min.absorb2)
  then show ?thesis
    using loop kl mem by (intro exI [of _ s2]) (simp add: kv_list_def alloc_def kv_invD(8) [OF inv] hdr)
qed

lemma kv_list_success:
  assumes inv: "kv_inv ns" and eq: "kv_list dma cmd ns s = (NVME_SUCCESS, s')"
  obtains s1 where "unat (kl (kvc_cdw11 cmd)) \<le> 16" "heap.more s1 = heap.more s"
    "c2h dma cmd (rds_image (listed cmd ns)) (length (rds_image (listed cmd ns))) s1 = (0, s')"
proof -
  let ?first = "case kv_find cmd 0 (pairs ns) of Some i \<Rightarrow> i | None \<Rightarrow> 0"
  have hdr: "replicate 4 0 = rds_image []" by (simp add: rds_image_def numeral_eq_Suc)
  have len: "length (rds_image []) = 4" by (simp add: rds_image_def)
  obtain ok s0 where al: "alloc s = (ok, s0)" by (metis prod.exhaust)
  have kl: "unat (kl (kvc_cdw11 cmd)) \<le> 16" and ok using eq al by (auto simp: kv_list_def split: if_splits)
  obtain rds n s2 where loop: "kv_list_loop (unat (kvc_hbs cmd)) (drop ?first (pairs ns)) (rds_image []) 4 s0 = (Some (rds, n), s2)"
    and c: "c2h dma cmd rds n s2 = (0, s')"
    using eq al kl \<open>ok\<close>
    by (auto simp: kv_list_def kv_invD(8) [OF inv] hdr Let_def split: prod.splits option.splits if_splits)
  have "list_all pair_wf (drop ?first (pairs ns))"
    using kv_invD(2) [OF inv] by (auto simp: list_all_iff dest: in_set_dropD)
  note img = kv_list_loop_image [OF this refl, of "unat (kvc_hbs cmd)" "[]" s0 rds n s2, unfolded len, OF loop(1)]
  then have "c2h dma cmd rds n s2 =
      c2h dma cmd (rds_image (listed cmd ns)) (length (rds_image (listed cmd ns))) s2"
    using c2h_prefix [of n rds cmd s2] by (metis append_Nil length_take listed_def min.absorb2)
  moreover have "heap.more s2 = heap.more s"
    using kv_list_loop_frame [of "unat (kvc_hbs cmd)" "drop ?first (pairs ns)" "rds_image []" 4 s0] alloc_frame(2) [of s] loop al
    by simp
  ultimately show ?thesis using that kl c by simp
qed

end

lemma kv_list_no_memory:
  assumes "kv_list dma cmd ns s = (st, s')" and "unat (kl (kvc_cdw11 cmd)) \<le> 16" and "\<not> allocs s 0"
  shows "st = NVME_CAP_EXCEEDED" and "heap.more s' = heap.more s"
  using assms alloc_frame(2) [of s] by (auto simp: kv_list_def alloc_def)

end
