(* ===== verification/NvmeDma.thy ===== *)
theory NvmeDma
  imports KvList
begin

text \<open>
  The data movement of \<^verbatim>\<open>src/nvme.c\<close>: \<open>nvme_sgl_copy\<close>, \<open>nvme_gpa_xfer\<close>, \<open>nvme_prp_xfer\<close> and
  the \<open>kv_dma\<close> callbacks over them. Guest memory is a byte store at host virtual addresses,
  where libvfio-user maps it. The library itself is not part of the repository: the context
  record \<open>vfu_ctx\<close> holds the two calls the code makes as functions, and \<open>vfu_ok\<close> states what
  their documentation promises. The lemmas give the effect of a transfer on guest memory and
  on the local buffer byte by byte, and that the callbacks meet the contract of the KV handlers.
\<close>

section \<open>Host memory and the vfio-user context\<close>

record host = heap +
  hmem :: "nat \<Rightarrow> u8"
  irqs :: "u32 list"

type_synonym host_more = "unit host_ext"

text \<open>
  \<open>vfu_addr_to_sgl ctx addr len max_sg write\<close> is \<open>Some sgs\<close> when the call returns
  \<open>length sgs\<close>, and \<open>None\<close> when it returns a negative number. \<open>vfu_sgl_get ctx sgs\<close> is the
  array of \<open>struct iovec\<close> it fills (base and length), or \<open>None\<close> on failure. \<open>vfu_sgl_put\<close>
  has no effect on memory.
\<close>

record 'sg vfu_ctx =
  vfu_addr_to_sgl :: "u64 \<Rightarrow> nat \<Rightarrow> nat \<Rightarrow> bool \<Rightarrow> 'sg list option"
  vfu_sgl_get :: "'sg list \<Rightarrow> (nat \<times> nat) list option"

definition mem_writes :: "(nat \<Rightarrow> u8) \<Rightarrow> nat list \<Rightarrow> bytes \<Rightarrow> nat \<Rightarrow> u8" where
  "mem_writes m as bs = fold (\<lambda>(a, b) f. f(a := b)) (zip as bs) m"

section \<open>Transfers\<close>

abbreviation (input) NVME_MAX_SG :: nat where "NVME_MAX_SG \<equiv> 16"

text \<open>The loop over the I/O vector; the result is \<open>done\<close>, the buffer and the host.\<close>

primrec nvme_sgl_copy_loop ::
    "(nat \<times> nat) list \<Rightarrow> nat \<Rightarrow> nat \<Rightarrow> bool \<Rightarrow> bytes \<Rightarrow> host \<Rightarrow> nat \<times> bytes \<times> host" where
  "nvme_sgl_copy_loop [] dn len to_host buf h = (dn, buf, h)"
| "nvme_sgl_copy_loop (v # iov) dn len to_host buf h =
     (if dn < len then
        let c = (if dn + snd v > len then len - dn else snd v) in
        if to_host then
          nvme_sgl_copy_loop iov (dn + c) len to_host buf
            (h\<lparr>hmem := mem_writes (hmem h) [fst v..<fst v + c] (take c (drop dn buf))\<rparr>)
        else
          nvme_sgl_copy_loop iov (dn + c) len to_host
            (overwrite dn (map (hmem h) [fst v..<fst v + c]) buf) h
      else (dn, buf, h))"

definition nvme_sgl_copy ::
    "'sg vfu_ctx \<Rightarrow> 'sg list \<Rightarrow> bytes \<Rightarrow> nat \<Rightarrow> bool \<Rightarrow> host \<Rightarrow> int \<times> bytes \<times> host" where
  "nvme_sgl_copy vfu sgl buf len to_host h =
     (if length sgl = 0 \<or> length sgl > NVME_MAX_SG then (-1, buf, h)
      else
        (case vfu_sgl_get vfu sgl of
          None \<Rightarrow> (-1, buf, h)
        | Some iov \<Rightarrow>
            (let (dn, buf', h') = nvme_sgl_copy_loop iov 0 len to_host buf h
             in (if dn = len then 0 else -1, buf', h'))))"

definition nvme_gpa_xfer ::
    "'sg vfu_ctx \<Rightarrow> u64 \<Rightarrow> bytes \<Rightarrow> nat \<Rightarrow> bool \<Rightarrow> host \<Rightarrow> int \<times> bytes \<times> host" where
  "nvme_gpa_xfer vfu gpa buf len to_host h =
     (if len = 0 then (0, buf, h)
      else
        let (ok, h1) = alloc h in
        if \<not> ok then (-1, buf, h1)
        else
          (case vfu_addr_to_sgl vfu gpa len 8 to_host of
            None \<Rightarrow> (-1, buf, h1)
          | Some sgl \<Rightarrow>
              (if sgl = [] then (-1, buf, h1) else nvme_sgl_copy vfu sgl buf len to_host h1)))"

text \<open>\<open>off\<close> and \<open>first\<close>: the bytes up to the end of the first page.\<close>

definition prp_first :: "u64 \<Rightarrow> nat \<Rightarrow> nat" where
  "prp_first prp1 len = min len (KVSSD_PAGE_SIZE - unat (prp1 AND 4095))"

definition nvme_prp_xfer ::
    "'sg vfu_ctx \<Rightarrow> u64 \<Rightarrow> u64 \<Rightarrow> bytes \<Rightarrow> nat \<Rightarrow> bool \<Rightarrow> host \<Rightarrow> int \<times> bytes \<times> host" where
  "nvme_prp_xfer vfu prp1 prp2 buf len to_host h =
     (if len = 0 then (0, buf, h)
      else
        let (ok, h1) = alloc h in
        if \<not> ok then (-1, buf, h1)
        else
          let first = prp_first prp1 len in
          (case vfu_addr_to_sgl vfu prp1 first 16 to_host of
            None \<Rightarrow> (-1, buf, h1)
          | Some sg1 \<Rightarrow>
              (if sg1 = [] then (-1, buf, h1)
               else if len - first = 0 then nvme_sgl_copy vfu sg1 buf len to_host h1
               else if len - first > KVSSD_PAGE_SIZE then (-1, buf, h1)
               else
                 (case vfu_addr_to_sgl vfu prp2 (len - first) (16 - length sg1) to_host of
                   None \<Rightarrow> (-1, buf, h1)
                 | Some sg2 \<Rightarrow>
                     (if sg2 = [] then (-1, buf, h1)
                      else nvme_sgl_copy vfu (sg1 @ sg2) buf len to_host h1)))))"

definition kvdma_h2c ::
    "'sg vfu_ctx \<Rightarrow> NvmeKVCmd \<Rightarrow> bytes \<Rightarrow> nat \<Rightarrow> host \<Rightarrow> int \<times> bytes \<times> host" where
  "kvdma_h2c vfu cmd dst len h = nvme_prp_xfer vfu (kvc_prp1 cmd) (kvc_prp2 cmd) dst len False h"

definition kvdma_c2h :: "'sg vfu_ctx \<Rightarrow> NvmeKVCmd \<Rightarrow> bytes \<Rightarrow> nat \<Rightarrow> host \<Rightarrow> int \<times> host" where
  "kvdma_c2h vfu cmd src len h =
     (let (rc, _, h') = nvme_prp_xfer vfu (kvc_prp1 cmd) (kvc_prp2 cmd) src len True h in (rc, h'))"

text \<open>The \<open>struct kv_dma\<close> that \<open>nvme_io_kv\<close> builds.\<close>

definition kvdma :: "'sg vfu_ctx \<Rightarrow> host_more kv_dma" where
  "kvdma vfu = \<lparr>h2c = kvdma_h2c vfu, c2h = kvdma_c2h vfu\<rparr>"

section \<open>What libvfio-user promises\<close>

text \<open>
  \<open>tr\<close> is the address map of the DMA regions. A scatter/gather list for \<open>[a, a + n)\<close> has at
  most the number of entries that was asked for, and its entries, in order, cover exactly the
  addresses of that range.
\<close>

definition vfu_ok :: "'sg vfu_ctx \<Rightarrow> (nat \<Rightarrow> nat) \<Rightarrow> bool" where
  "vfu_ok vfu tr \<longleftrightarrow>
     (\<exists>seg :: 'sg \<Rightarrow> nat \<times> nat.
        (\<forall>sgs iov. vfu_sgl_get vfu sgs = Some iov \<longrightarrow> iov = map seg sgs) \<and>
        (\<forall>a n m w sgs. vfu_addr_to_sgl vfu a n m w = Some sgs \<longrightarrow>
           length sgs \<le> m \<and>
           concat (map (\<lambda>g. [fst (seg g)..<fst (seg g) + snd (seg g)]) sgs) =
             map tr [unat a..<unat a + n]))"

text \<open>The guest addresses of the bytes of a PRP transfer, in order.\<close>

definition prp_addrs :: "u64 \<Rightarrow> u64 \<Rightarrow> nat \<Rightarrow> nat list" where
  "prp_addrs prp1 prp2 len =
     [unat prp1..<unat prp1 + prp_first prp1 len] @ [unat prp2..<unat prp2 + (len - prp_first prp1 len)]"

definition iov_addrs :: "(nat \<times> nat) list \<Rightarrow> nat list" where
  "iov_addrs iov = concat (map (\<lambda>v. [fst v..<fst v + snd v]) iov)"

section \<open>Memory\<close>

lemma mem_writes_Nil [simp]: "mem_writes m [] bs = m"
  by (simp add: mem_writes_def)

lemma mem_writes_append:
  "length as = length bs \<Longrightarrow>
   mem_writes m (as @ as') (bs @ bs') = mem_writes (mem_writes m as bs) as' bs'"
  by (simp add: mem_writes_def)

lemma mem_writes_split:
  "mem_writes m (as @ as') bs =
     mem_writes (mem_writes m as (take (length as) bs)) as' (drop (length as) bs)"
  by (simp add: mem_writes_def zip_append1)

lemma mem_writes_take: "mem_writes m as bs = mem_writes m as (take (length as) bs)"
  using mem_writes_split [of m as "[]" bs] by simp

lemma mem_writes_other: "a \<notin> set as \<Longrightarrow> mem_writes m as bs a = m a"
proof (induction as arbitrary: m bs)
  case (Cons x as)
  then show ?case by (cases bs) (simp_all add: mem_writes_def)
qed simp

text \<open>Reading back distinct addresses gives what was written.\<close>

lemma mem_writes_read:
  "distinct as \<Longrightarrow> length as = length bs \<Longrightarrow> map (mem_writes m as bs) as = bs"
proof (induction as arbitrary: m bs)
  case (Cons a as)
  then obtain b bs' where bs: "bs = b # bs'" by (cases bs) auto
  have step: "mem_writes m (a # as) (b # bs') = mem_writes (m(a := b)) as bs'"
    by (simp add: mem_writes_def)
  have "mem_writes (m(a := b)) as bs' a = b"
    using Cons.prems by (subst mem_writes_other) auto
  moreover have "map (mem_writes (m(a := b)) as bs') as = bs'"
    using Cons.prems bs by (intro Cons.IH) auto
  ultimately show ?case using bs by (simp add: step)
qed simp

lemma mem_writes_read_map:
  "distinct (map tr as) \<Longrightarrow> length as = length bs \<Longrightarrow>
   map (\<lambda>a. mem_writes m (map tr as) bs (tr a)) as = bs"
  using mem_writes_read [of "map tr as" bs m] by (simp add: comp_def)

section \<open>The copy loop\<close>

lemma iov_addrs_simps [simp]:
  "iov_addrs [] = []" "iov_addrs (v # iov) = [fst v..<fst v + snd v] @ iov_addrs iov"
  "iov_addrs (iov1 @ iov2) = iov_addrs iov1 @ iov_addrs iov2"
  by (simp_all add: iov_addrs_def)

lemma upt_take: "c \<le> n \<Longrightarrow> take c [b..<b + n] = [b..<b + c]"
  by (simp add: take_upt)

lemma nvme_sgl_copy_loop_done:
  "dn \<le> len \<Longrightarrow>
   fst (nvme_sgl_copy_loop iov dn len w buf h) = min len (dn + length (iov_addrs iov))"
  by (induction iov arbitrary: dn buf h) (auto simp: Let_def)

lemma nvme_sgl_copy_loop_to_host:
  "dn \<le> len \<Longrightarrow> len \<le> length buf \<Longrightarrow>
   snd (nvme_sgl_copy_loop iov dn len True buf h) =
     (buf, h\<lparr>hmem := mem_writes (hmem h) (take (len - dn) (iov_addrs iov)) (drop dn buf)\<rparr>)"
proof (induction iov arbitrary: dn h)
  case (Cons v iov)
  show ?case
  proof (cases "dn + snd v > len")
    case True
    then have "take (len - dn) [fst v..<fst v + snd v] = [fst v..<fst v + (len - dn)]"
      by (intro upt_take) simp
    with True Cons show ?thesis
      by (auto simp: Let_def mem_writes_take [of _ _ "drop dn buf"] min_def)
  next
    case False
    then have "mem_writes (hmem h) (take (len - dn) (iov_addrs (v # iov))) (drop dn buf) =
        mem_writes (mem_writes (hmem h) [fst v..<fst v + snd v] (take (snd v) (drop dn buf)))
          (take (len - (dn + snd v)) (iov_addrs iov)) (drop (dn + snd v) buf)"
      by (simp add: mem_writes_split add.commute)
    with False Cons show ?thesis by (auto simp: Let_def)
  qed
qed simp

lemma nvme_sgl_copy_loop_from_host:
  "dn \<le> len \<Longrightarrow> len \<le> length buf \<Longrightarrow>
   snd (nvme_sgl_copy_loop iov dn len False buf h) =
     (overwrite dn (map (hmem h) (take (len - dn) (iov_addrs iov))) buf, h)"
proof (induction iov arbitrary: dn buf)
  case (Cons v iov)
  show ?case
  proof (cases "dn + snd v > len")
    case True
    then have "take (len - dn) [fst v..<fst v + snd v] = [fst v..<fst v + (len - dn)]"
      by (intro upt_take) simp
    with True Cons show ?thesis by (auto simp: Let_def)
  next
    case False
    let ?b = "overwrite dn (map (hmem h) [fst v..<fst v + snd v]) buf"
    have "overwrite (dn + snd v) (map (hmem h) (take (len - (dn + snd v)) (iov_addrs iov))) ?b =
        overwrite dn (map (hmem h) (take (len - dn) (iov_addrs (v # iov)))) buf"
      using overwrite_overwrite_adj [of dn "map (hmem h) [fst v..<fst v + snd v]"
          "map (hmem h) (take (len - (dn + snd v)) (iov_addrs iov))" buf] False Cons.prems
      by simp
    with False Cons show ?thesis by (auto simp: Let_def)
  qed
qed simp

section \<open>Transfers through a scatter/gather list\<close>

definition sgl_covers :: "'sg vfu_ctx \<Rightarrow> 'sg list \<Rightarrow> nat list \<Rightarrow> bool" where
  "sgl_covers vfu sgs as \<longleftrightarrow> (\<forall>iov. vfu_sgl_get vfu sgs = Some iov \<longrightarrow> iov_addrs iov = as)"

lemma vfu_ok_covers:
  assumes "vfu_ok vfu tr" and "vfu_addr_to_sgl vfu a n m w = Some sg1"
  shows "sgl_covers vfu sg1 (map tr [unat a..<unat a + n])" and "length sg1 \<le> m"
    and "vfu_addr_to_sgl vfu a' n' m' w' = Some sg2 \<Longrightarrow>
      sgl_covers vfu (sg1 @ sg2) (map tr ([unat a..<unat a + n] @ [unat a'..<unat a' + n']))"
proof -
  from assms(1) obtain seg :: "'a \<Rightarrow> nat \<times> nat" where
      get: "\<And>sgs iov. vfu_sgl_get vfu sgs = Some iov \<Longrightarrow> iov = map seg sgs"
    and cover: "\<And>a n m w sgs. vfu_addr_to_sgl vfu a n m w = Some sgs \<Longrightarrow>
      length sgs \<le> m \<and> iov_addrs (map seg sgs) = map tr [unat a..<unat a + n]"
    unfolding vfu_ok_def iov_addrs_def map_map comp_def by blast
  show "sgl_covers vfu sg1 (map tr [unat a..<unat a + n])" "length sg1 \<le> m"
    using cover [OF assms(2)] by (auto simp: sgl_covers_def dest: get)
  show "sgl_covers vfu (sg1 @ sg2) (map tr ([unat a..<unat a + n] @ [unat a'..<unat a' + n']))"
    if "vfu_addr_to_sgl vfu a' n' m' w' = Some sg2"
    using cover [OF assms(2)] cover [OF that] get [of "sg1 @ sg2"]
    by (auto simp: sgl_covers_def)
qed

lemma nvme_sgl_copy_to_host:
  assumes "sgl_covers vfu sgs as" and "length as = len" and "len \<le> length buf"
    and "nvme_sgl_copy vfu sgs buf len True h = (rc, b, h')"
  shows "b = buf \<and> h' = h\<lparr>hmem := if rc = 0 then mem_writes (hmem h) as buf else hmem h\<rparr>"
proof (cases "length sgs = 0 \<or> length sgs > 16 \<or> vfu_sgl_get vfu sgs = None")
  case True
  with assms(4) show ?thesis by (auto simp: nvme_sgl_copy_def split: if_splits option.splits)
next
  case False
  then obtain iov where iov: "vfu_sgl_get vfu sgs = Some iov" by auto
  then have addrs: "iov_addrs iov = as" using assms(1) by (simp add: sgl_covers_def)
  obtain dn b1 h1 where l: "nvme_sgl_copy_loop iov 0 len True buf h = (dn, b1, h1)" by (metis prod.exhaust)
  with nvme_sgl_copy_loop_done [of 0 len iov True buf h] nvme_sgl_copy_loop_to_host [of 0 len buf iov h]
  have "dn = len" "b1 = buf" "h1 = h\<lparr>hmem := mem_writes (hmem h) as buf\<rparr>"
    using assms(2,3) addrs by simp_all
  with False iov l assms(4) show ?thesis by (auto simp: nvme_sgl_copy_def)
qed

lemma nvme_sgl_copy_from_host:
  assumes "sgl_covers vfu sgs as" and "length as = len" and "len \<le> length buf"
    and "nvme_sgl_copy vfu sgs buf len False h = (rc, b, h')"
  shows "h' = h \<and> b = (if rc = 0 then map (hmem h) as @ drop len buf else buf)"
proof (cases "length sgs = 0 \<or> length sgs > 16 \<or> vfu_sgl_get vfu sgs = None")
  case True
  with assms(4) show ?thesis by (auto simp: nvme_sgl_copy_def split: if_splits option.splits)
next
  case False
  then obtain iov where iov: "vfu_sgl_get vfu sgs = Some iov" by auto
  then have addrs: "iov_addrs iov = as" using assms(1) by (simp add: sgl_covers_def)
  obtain dn b1 h1 where l: "nvme_sgl_copy_loop iov 0 len False buf h = (dn, b1, h1)" by (metis prod.exhaust)
  with nvme_sgl_copy_loop_done [of 0 len iov False buf h] nvme_sgl_copy_loop_from_host [of 0 len buf iov h]
  have "dn = len" "h1 = h" "b1 = map (hmem h) as @ drop len buf"
    using assms(2,3) addrs by (simp_all add: overwrite_def)
  with False iov l assms(4) show ?thesis by (auto simp: nvme_sgl_copy_def)
qed

section \<open>PRP transfers\<close>

lemma prp_first_le [simp]: "prp_first prp1 len \<le> len"
  by (simp add: prp_first_def)

lemma length_prp_addrs [simp]: "length (prp_addrs prp1 prp2 len) = len"
  by (simp add: prp_addrs_def)

text \<open>
  A PRP transfer either fails before it touches memory or is one scatter/gather copy whose
  list covers the addresses of the two PRP entries.
\<close>

lemma nvme_prp_xfer_cases:
  assumes ok: "vfu_ok vfu tr" and len: "0 < len"
    and eq: "nvme_prp_xfer vfu prp1 prp2 buf len w h = r"
  obtains (fail) "r = (-1, buf, snd (alloc h))"
    | (copy) sgs where "sgl_covers vfu sgs (map tr (prp_addrs prp1 prp2 len))"
        "r = nvme_sgl_copy vfu sgs buf len w (snd (alloc h))"
proof (cases "\<exists>sgs. sgl_covers vfu sgs (map tr (prp_addrs prp1 prp2 len)) \<and>
    r = nvme_sgl_copy vfu sgs buf len w (snd (alloc h))")
  case True
  then show ?thesis using copy by blast
next
  case False
  let ?f = "prp_first prp1 len"
  obtain ok1 h1 where al: "alloc h = (ok1, h1)" by (metis prod.exhaust)
  have one: "vfu_addr_to_sgl vfu prp1 ?f 16 w = Some sg1 \<Longrightarrow> len - ?f = 0 \<Longrightarrow>
      sgl_covers vfu sg1 (map tr (prp_addrs prp1 prp2 len))" for sg1
    using vfu_ok_covers(1) [OF ok] by (simp add: prp_addrs_def)
  have two: "vfu_addr_to_sgl vfu prp1 ?f 16 w = Some sg1 \<Longrightarrow>
      vfu_addr_to_sgl vfu prp2 (len - ?f) (16 - length sg1) w = Some sg2 \<Longrightarrow>
      sgl_covers vfu (sg1 @ sg2) (map tr (prp_addrs prp1 prp2 len))" for sg1 sg2
    unfolding prp_addrs_def by (rule vfu_ok_covers(3) [OF ok])
  have "r = (-1, buf, h1)"
    using eq False len al one two
    by (auto simp: nvme_prp_xfer_def Let_def split: option.splits if_splits)
  then show ?thesis using fail al by simp
qed

lemma nvme_prp_xfer_to_host:
  assumes ok: "vfu_ok vfu tr" and len: "len \<le> length buf"
    and eq: "nvme_prp_xfer vfu prp1 prp2 buf len True h = (rc, b, h')"
  shows "b = buf" and "irqs h' = irqs h"
    and "hmem h' = (if rc = 0 then mem_writes (hmem h) (map tr (prp_addrs prp1 prp2 len)) buf else hmem h)"
proof -
  have fr: "hmem (snd (alloc h)) = hmem h" "irqs (snd (alloc h)) = irqs h" by (simp_all add: alloc_def)
  have "b = buf \<and> irqs h' = irqs h \<and>
    hmem h' = (if rc = 0 then mem_writes (hmem h) (map tr (prp_addrs prp1 prp2 len)) buf else hmem h)"
  proof (cases "len = 0")
    case True
    with eq show ?thesis by (auto simp: nvme_prp_xfer_def prp_addrs_def prp_first_def)
  next
    case False
    then have "0 < len" by simp
    from ok this eq show ?thesis
    proof (cases rule: nvme_prp_xfer_cases)
      case fail
      then show ?thesis by (simp add: fr)
    next
      case (copy sgs)
      from nvme_sgl_copy_to_host [OF copy(1) _ len copy(2) [symmetric]] show ?thesis by (simp add: fr)
    qed
  qed
  then show "b = buf" "irqs h' = irqs h"
    "hmem h' = (if rc = 0 then mem_writes (hmem h) (map tr (prp_addrs prp1 prp2 len)) buf else hmem h)"
    by simp_all
qed

lemma nvme_prp_xfer_from_host:
  assumes ok: "vfu_ok vfu tr" and len: "len \<le> length buf"
    and eq: "nvme_prp_xfer vfu prp1 prp2 buf len False h = (rc, b, h')"
  shows "hmem h' = hmem h" and "irqs h' = irqs h"
    and "b = (if rc = 0 then map (\<lambda>a. hmem h (tr a)) (prp_addrs prp1 prp2 len) @ drop len buf else buf)"
proof -
  have fr: "hmem (snd (alloc h)) = hmem h" "irqs (snd (alloc h)) = irqs h" by (simp_all add: alloc_def)
  have "hmem h' = hmem h \<and> irqs h' = irqs h \<and>
    b = (if rc = 0 then map (\<lambda>a. hmem h (tr a)) (prp_addrs prp1 prp2 len) @ drop len buf else buf)"
  proof (cases "len = 0")
    case True
    with eq show ?thesis by (auto simp: nvme_prp_xfer_def prp_addrs_def prp_first_def)
  next
    case False
    then have "0 < len" by simp
    from ok this eq show ?thesis
    proof (cases rule: nvme_prp_xfer_cases)
      case fail
      then show ?thesis by (simp add: fr)
    next
      case (copy sgs)
      from nvme_sgl_copy_from_host [OF copy(1) _ len copy(2) [symmetric]] show ?thesis
        by (simp add: fr comp_def)
    qed
  qed
  then show "hmem h' = hmem h" "irqs h' = irqs h"
    "b = (if rc = 0 then map (\<lambda>a. hmem h (tr a)) (prp_addrs prp1 prp2 len) @ drop len buf else buf)"
    by simp_all
qed

section \<open>Transfers of one contiguous range\<close>

lemma nvme_gpa_xfer_cases:
  assumes ok: "vfu_ok vfu tr" and len: "0 < len"
    and eq: "nvme_gpa_xfer vfu gpa buf len w h = r"
  obtains (fail) "r = (-1, buf, snd (alloc h))"
    | (copy) sgs where "sgl_covers vfu sgs (map tr [unat gpa..<unat gpa + len])"
        "r = nvme_sgl_copy vfu sgs buf len w (snd (alloc h))"
proof (cases "vfu_addr_to_sgl vfu gpa len 8 w")
  case None
  then show ?thesis
    using eq len by (intro fail) (auto simp: nvme_gpa_xfer_def split: prod.splits if_splits)
next
  case (Some sgs)
  show ?thesis
  proof (cases "fst (alloc h) \<and> sgs \<noteq> []")
    case True
    with Some eq len have "r = nvme_sgl_copy vfu sgs buf len w (snd (alloc h))"
      by (auto simp: nvme_gpa_xfer_def split: prod.splits)
    then show ?thesis by (rule copy [OF vfu_ok_covers(1) [OF ok Some]])
  next
    case False
    with Some eq len show ?thesis
      by (intro fail) (auto simp: nvme_gpa_xfer_def split: prod.splits if_splits)
  qed
qed

lemma nvme_gpa_xfer_to_host:
  assumes ok: "vfu_ok vfu tr" and len: "0 < len" "len \<le> length buf"
    and eq: "nvme_gpa_xfer vfu gpa buf len True h = (rc, b, h')"
  shows "hmem h' = (if rc = 0 then mem_writes (hmem h) (map tr [unat gpa..<unat gpa + len]) buf else hmem h)"
  using ok len(1) eq
proof (cases rule: nvme_gpa_xfer_cases)
  case (copy sgs)
  from nvme_sgl_copy_to_host [OF copy(1) _ len(2) copy(2) [symmetric]] show ?thesis
    by (simp add: alloc_def)
qed (simp add: alloc_def)

lemma nvme_gpa_xfer_from_host:
  assumes ok: "vfu_ok vfu tr" and len: "0 < len" "len \<le> length buf"
    and eq: "nvme_gpa_xfer vfu gpa buf len False h = (rc, b, h')"
  shows "b = (if rc = 0 then map (\<lambda>a. hmem h (tr a)) [unat gpa..<unat gpa + len] @ drop len buf else buf)"
  using ok len(1) eq
proof (cases rule: nvme_gpa_xfer_cases)
  case (copy sgs)
  from nvme_sgl_copy_from_host [OF copy(1) _ len(2) copy(2) [symmetric]] show ?thesis
    by (simp add: alloc_def comp_def)
qed (simp add: alloc_def)

section \<open>Frame\<close>

text \<open>
  Without any assumption on libvfio-user: a transfer changes at most \<open>len\<close> bytes of a local
  buffer, raises no interrupt, and writes guest memory only towards the host.
\<close>

lemma nvme_sgl_copy_rc:
  assumes "sgs \<noteq> []" and "length sgs \<le> 16" and "vfu_sgl_get vfu sgs = Some iov"
    and "len \<le> length (iov_addrs iov)"
  shows "fst (nvme_sgl_copy vfu sgs buf len w h) = 0"
proof -
  have "fst (nvme_sgl_copy_loop iov 0 len w buf h) = len"
    using nvme_sgl_copy_loop_done [of 0 len iov w buf h] assms(4) by simp
  then show ?thesis
    using assms by (auto simp: nvme_sgl_copy_def split: prod.splits)
qed

lemma nvme_sgl_copy_frame:
  assumes "nvme_sgl_copy vfu sgs buf len w h = (rc, b, h')" and "len \<le> length buf"
  shows "length b = length buf" "drop len b = drop len buf" "irqs h' = irqs h"
    "w \<Longrightarrow> b = buf" "\<not> w \<Longrightarrow> h' = h"
  using assms nvme_sgl_copy_loop_to_host [of 0 len buf _ h] nvme_sgl_copy_loop_from_host [of 0 len buf _ h]
  by (cases w; auto simp: nvme_sgl_copy_def overwrite_0 drop_append prod_eq_iff
      split: if_splits option.splits prod.splits)+

lemma nvme_xfer_shape:
  "nvme_prp_xfer vfu prp1 prp2 buf len w h \<in>
     {(0, buf, h), (-1, buf, snd (alloc h))} \<union> range (\<lambda>sgs. nvme_sgl_copy vfu sgs buf len w (snd (alloc h)))"
  "nvme_gpa_xfer vfu gpa buf len w h \<in>
     {(0, buf, h), (-1, buf, snd (alloc h))} \<union> range (\<lambda>sgs. nvme_sgl_copy vfu sgs buf len w (snd (alloc h)))"
  by (auto simp: nvme_prp_xfer_def nvme_gpa_xfer_def Let_def split: option.splits prod.splits)

lemma nvme_xfer_shape_frame:
  assumes "(rc, b, h') \<in>
      {(0, buf, h), (-1, buf, snd (alloc h))} \<union> range (\<lambda>sgs. nvme_sgl_copy vfu sgs buf len w (snd (alloc h)))"
    and "len \<le> length buf"
  shows "length b = length buf" "drop len b = drop len buf" "irqs h' = irqs h"
    "w \<Longrightarrow> b = buf" "\<not> w \<Longrightarrow> hmem h' = hmem h"
proof -
  have fr: "hmem (snd (alloc h)) = hmem h" "irqs (snd (alloc h)) = irqs h" by (simp_all add: alloc_def)
  consider "b = buf" "h' = h" | "b = buf" "h' = snd (alloc h)"
    | sgs where "nvme_sgl_copy vfu sgs buf len w (snd (alloc h)) = (rc, b, h')"
    using assms(1) by (auto simp: image_iff)
  then have "length b = length buf \<and> drop len b = drop len buf \<and> irqs h' = irqs h \<and>
    (w \<longrightarrow> b = buf) \<and> (\<not> w \<longrightarrow> hmem h' = hmem h)"
  proof cases
    case 3
    from nvme_sgl_copy_frame [OF 3 assms(2)] fr show ?thesis by auto
  qed (simp_all add: fr)
  then show "length b = length buf" "drop len b = drop len buf" "irqs h' = irqs h"
    "w \<Longrightarrow> b = buf" "\<not> w \<Longrightarrow> hmem h' = hmem h"
    by simp_all
qed

lemma nvme_prp_xfer_frame:
  assumes "nvme_prp_xfer vfu prp1 prp2 buf len w h = (rc, b, h')" and "len \<le> length buf"
  shows "length b = length buf" "drop len b = drop len buf" "irqs h' = irqs h"
    "w \<Longrightarrow> b = buf" "\<not> w \<Longrightarrow> hmem h' = hmem h"
  using nvme_xfer_shape_frame nvme_xfer_shape(1) [of vfu prp1 prp2 buf len w h] assms by metis+

lemma nvme_gpa_xfer_frame:
  assumes "nvme_gpa_xfer vfu gpa buf len w h = (rc, b, h')" and "len \<le> length buf"
  shows "length b = length buf" "irqs h' = irqs h" "\<not> w \<Longrightarrow> hmem h' = hmem h"
  using nvme_xfer_shape_frame nvme_xfer_shape(2) [of vfu gpa buf len w h] assms by metis+

text \<open>A transfer to the host does not look beyond \<open>len\<close>.\<close>

lemma nvme_sgl_copy_prefix:
  assumes "len \<le> length buf"
  shows "fst (nvme_sgl_copy vfu sgs (take len buf) len True h) = fst (nvme_sgl_copy vfu sgs buf len True h)"
    and "snd (snd (nvme_sgl_copy vfu sgs (take len buf) len True h)) =
      snd (snd (nvme_sgl_copy vfu sgs buf len True h))"
proof -
  have l: "nvme_sgl_copy_loop iov 0 len True buf' h = (min len (length (iov_addrs iov)), buf',
      h\<lparr>hmem := mem_writes (hmem h) (take len (iov_addrs iov)) buf'\<rparr>)"
    if "len \<le> length buf'" for iov buf'
    using nvme_sgl_copy_loop_done [of 0 len iov True buf' h] nvme_sgl_copy_loop_to_host [OF _ that, of 0 iov h]
    by (simp add: prod_eq_iff)
  have m: "mem_writes m (take len as) (take len buf) = mem_writes m (take len as) buf" for m as
    using mem_writes_take [of m "take len as" buf] mem_writes_take [of m "take len as" "take len buf"]
    by (simp add: min.commute min.left_commute)
  show "fst (nvme_sgl_copy vfu sgs (take len buf) len True h) = fst (nvme_sgl_copy vfu sgs buf len True h)"
    and "snd (snd (nvme_sgl_copy vfu sgs (take len buf) len True h)) =
      snd (snd (nvme_sgl_copy vfu sgs buf len True h))"
    using assms by (auto simp: nvme_sgl_copy_def l m split: option.splits)
qed

lemma kvdma_c2h_prefix:
  assumes "len \<le> length src"
  shows "kvdma_c2h vfu cmd src len h = kvdma_c2h vfu cmd (take len src) len h"
proof -
  have pr: "(fst x, snd (snd x)) = (fst y, snd (snd y)) \<Longrightarrow>
      (let (rc, _, h') = x in (rc, h')) = (let (rc, _, h') = y in (rc, h'))"
    for x y :: "int \<times> bytes \<times> host"
    by (simp add: split_def)
  show ?thesis
    unfolding kvdma_c2h_def
    by (rule pr) (simp add: nvme_prp_xfer_def Let_def nvme_sgl_copy_prefix [OF assms]
        split: option.split prod.split)
qed

text \<open>The controller's callbacks meet the transport contract, whatever the library does.\<close>

interpretation kvdma: kv_transport "kvdma vfu" for vfu :: "'sg vfu_ctx"
proof
  show "length dst' = length dst \<and> drop len dst' = drop len dst"
    if "h2c (kvdma vfu) cmd dst len s = (rc, dst', s')" "len \<le> length dst" for cmd dst len s rc dst' s'
    using that nvme_prp_xfer_frame(1,2) by (simp add: kvdma_def kvdma_h2c_def) blast
  show "c2h (kvdma vfu) cmd src len s = c2h (kvdma vfu) cmd (take len src) len s"
    if "len \<le> length src" for cmd src len s
    using kvdma_c2h_prefix [OF that] by (simp add: kvdma_def)
qed

end
