(* ===== verification/NvmeCtrl.thy ===== *)
theory NvmeCtrl
  imports NvmeDma
begin

text \<open>
  The controller of \<^verbatim>\<open>src/nvme.h\<close> and the parts of \<^verbatim>\<open>src/nvme.c\<close> that set its state up and take
  it down: \<open>nvme_ctrl_init\<close>, \<open>nvme_ctrl_teardown\<close>, \<open>nvme_enable\<close>, \<open>nvme_queues_down\<close>,
  \<open>nvme_disable\<close> and \<open>nvme_ctrl_reset\<close>. The invariant \<open>ctrl_inv\<close> collects what every
  operation of the controller keeps; the lemmas here show it for these operations.
\<close>

section \<open>State\<close>

abbreviation (input) NVME_MAX_QUEUES :: nat where "NVME_MAX_QUEUES \<equiv> 64"
abbreviation (input) NVME_MSIX_BAR_SIZE :: nat where "NVME_MSIX_BAR_SIZE \<equiv> 4096"

record nvme_cq =
  cq_dma :: u64
  cq_size :: u32
  cq_qid :: u16
  cq_head :: u16
  cq_tail :: u16
  cq_phase :: u8
  cq_irq :: int
  cq_enabled :: bool

record nvme_sq =
  sq_dma :: u64
  sq_size :: u32
  sq_qid :: u16
  sq_cqid :: u16
  sq_head :: u16
  sq_tail :: u16
  sq_enabled :: bool

text \<open>\<open>struct nvme_ctrl\<close>; the \<open>vfu\<close> pointer is an argument of the operations that use it.\<close>

record nvme_ctrl =
  n_cap :: u64
  n_vs :: u32
  n_intms :: u32
  n_intmc :: u32
  n_cc :: u32
  n_csts :: u32
  n_aqa :: u32
  n_asq :: u64
  n_acq :: u64
  n_sq :: "nvme_sq list"
  n_cq :: "nvme_cq list"
  n_msix_region :: bytes
  n_ns :: kv_ns

definition zero_cq :: nvme_cq where
  "zero_cq = \<lparr>cq_dma = 0, cq_size = 0, cq_qid = 0, cq_head = 0, cq_tail = 0, cq_phase = 0,
     cq_irq = 0, cq_enabled = False\<rparr>"

definition zero_sq :: nvme_sq where
  "zero_sq = \<lparr>sq_dma = 0, sq_size = 0, sq_qid = 0, sq_cqid = 0, sq_head = 0, sq_tail = 0,
     sq_enabled = False\<rparr>"

definition zero_ns :: kv_ns where
  "zero_ns = \<lparr>pairs = [], entries_allocated = 0, max_num_keys = 0, id_ns_kv = None, ednek = 0\<rparr>"

definition zero_ctrl :: nvme_ctrl where
  "zero_ctrl = \<lparr>n_cap = 0, n_vs = 0, n_intms = 0, n_intmc = 0, n_cc = 0, n_csts = 0, n_aqa = 0,
     n_asq = 0, n_acq = 0, n_sq = replicate NVME_MAX_QUEUES zero_sq,
     n_cq = replicate NVME_MAX_QUEUES zero_cq, n_msix_region = replicate NVME_MSIX_BAR_SIZE 0,
     n_ns = zero_ns\<rparr>"

section \<open>Register bits\<close>

abbreviation (input) NVME_CC_EN :: u32 where "NVME_CC_EN \<equiv> 0x1"
abbreviation (input) NVME_CC_SHN_MASK :: u32 where "NVME_CC_SHN_MASK \<equiv> 0xc000"
abbreviation (input) NVME_CSTS_RDY :: u32 where "NVME_CSTS_RDY \<equiv> 0x1"
abbreviation (input) NVME_CSTS_SHST_MASK :: u32 where "NVME_CSTS_SHST_MASK \<equiv> 0xc"
abbreviation (input) NVME_CSTS_SHST_COMPLETE :: u32 where "NVME_CSTS_SHST_COMPLETE \<equiv> 0x8"

section \<open>Operations\<close>

definition nvme_ctrl_init :: "u32 \<Rightarrow> 's heap_scheme \<Rightarrow> int \<times> nvme_ctrl \<times> 's heap_scheme" where
  "nvme_ctrl_init mx s =
     (let cap = (0x3ff :: u64);
          cap = cap OR push_bit 16 1;
          cap = cap OR push_bit 24 0xf;
          cap = cap OR push_bit 37 1;
          cap = cap OR push_bit 43 1;
          n = zero_ctrl\<lparr>n_cap := cap, n_vs := 0x00020000\<rparr>;
          (rc, ns', s') = kv_ns_init (n_ns n) mx s
      in (rc, n\<lparr>n_ns := ns'\<rparr>, s'))"

definition nvme_ctrl_teardown :: "nvme_ctrl \<Rightarrow> nvme_ctrl" where
  "nvme_ctrl_teardown n = n\<lparr>n_ns := kv_ns_teardown (n_ns n)\<rparr>"

definition nvme_enable :: "nvme_ctrl \<Rightarrow> nvme_ctrl" where
  "nvme_enable n =
     n\<lparr>n_sq := (n_sq n)[0 := zero_sq\<lparr>
          sq_dma := n_asq n, sq_size := (n_aqa n AND 0xfff) + 1, sq_qid := 0, sq_cqid := 0,
          sq_enabled := True\<rparr>],
       n_cq := (n_cq n)[0 := zero_cq\<lparr>
          cq_dma := n_acq n, cq_size := (drop_bit 16 (n_aqa n) AND 0xfff) + 1, cq_qid := 0,
          cq_phase := 1, cq_irq := 0, cq_enabled := True\<rparr>],
       n_csts := NVME_CSTS_RDY\<rparr>"

definition nvme_queues_down :: "nvme_ctrl \<Rightarrow> nvme_ctrl" where
  "nvme_queues_down n =
     n\<lparr>n_sq := map (\<lambda>q. q\<lparr>sq_enabled := False\<rparr>) (n_sq n),
       n_cq := map (\<lambda>q. q\<lparr>cq_enabled := False\<rparr>) (n_cq n)\<rparr>"

definition nvme_disable :: "nvme_ctrl \<Rightarrow> nvme_ctrl" where
  "nvme_disable n =
     (let n1 = nvme_queues_down n
      in n1\<lparr>n_csts := n_csts n1 AND NOT (NVME_CSTS_RDY OR NVME_CSTS_SHST_MASK)\<rparr>)"

definition nvme_ctrl_reset :: "nvme_ctrl \<Rightarrow> nvme_ctrl" where
  "nvme_ctrl_reset n =
     (nvme_disable n)\<lparr>n_cc := 0, n_csts := 0, n_aqa := 0, n_asq := 0, n_acq := 0,
        n_intms := 0, n_intmc := 0\<rparr>"

section \<open>Invariant\<close>

text \<open>
  A submission queue that is enabled has at least one and at most 65536 entries, a head inside
  the ring and a completion queue that exists. A completion queue that is enabled has a
  non-empty ring with the tail inside it and a one-bit phase.
\<close>

definition sq_wf :: "nvme_sq \<Rightarrow> bool" where
  "sq_wf q \<longleftrightarrow> unat (sq_cqid q) < NVME_MAX_QUEUES \<and>
     (sq_enabled q \<longrightarrow> 0 < unat (sq_size q) \<and> unat (sq_size q) \<le> 65536 \<and> unat (sq_head q) < unat (sq_size q))"

definition cq_wf :: "nvme_cq \<Rightarrow> bool" where
  "cq_wf q \<longleftrightarrow> (cq_enabled q \<longrightarrow>
     0 < unat (cq_size q) \<and> unat (cq_size q) \<le> 65536 \<and> unat (cq_tail q) < unat (cq_size q) \<and>
     (cq_phase q = 0 \<or> cq_phase q = 1))"

definition queues_off :: "nvme_ctrl \<Rightarrow> bool" where
  "queues_off n \<longleftrightarrow> list_all (\<lambda>q. \<not> sq_enabled q) (n_sq n) \<and> list_all (\<lambda>q. \<not> cq_enabled q) (n_cq n)"

text \<open>
  The register file: \<open>CSTS.RDY\<close> follows \<open>CC.EN\<close>, no other bit than \<open>RDY\<close> and \<open>SHST = 10b\<close>
  is ever set, a completed shutdown is reported only while \<open>CC.SHN\<close> asks for one, and queues are
  enabled only while the controller is ready and not shut down.
\<close>

definition regs_inv :: "nvme_ctrl \<Rightarrow> bool" where
  "regs_inv n \<longleftrightarrow>
     n_csts n \<in> {0, NVME_CSTS_RDY, NVME_CSTS_SHST_COMPLETE, NVME_CSTS_RDY OR NVME_CSTS_SHST_COMPLETE} \<and>
     (n_csts n AND NVME_CSTS_RDY = n_cc n AND NVME_CC_EN) \<and>
     (n_csts n AND NVME_CSTS_SHST_MASK \<noteq> 0 \<longrightarrow> n_cc n AND NVME_CC_SHN_MASK \<noteq> 0) \<and>
     (n_csts n \<noteq> NVME_CSTS_RDY \<longrightarrow> queues_off n)"

definition ctrl_core :: "nvme_ctrl \<Rightarrow> bool" where
  "ctrl_core n \<longleftrightarrow>
     length (n_sq n) = NVME_MAX_QUEUES \<and> length (n_cq n) = NVME_MAX_QUEUES \<and>
     length (n_msix_region n) = NVME_MSIX_BAR_SIZE \<and>
     list_all sq_wf (n_sq n) \<and> list_all cq_wf (n_cq n) \<and> kv_inv (n_ns n)"

definition ctrl_inv :: "nvme_ctrl \<Rightarrow> bool" where
  "ctrl_inv n \<longleftrightarrow> ctrl_core n \<and> regs_inv n"

lemma ctrl_coreD:
  assumes "ctrl_core n"
  shows "length (n_sq n) = 64" "length (n_cq n) = 64" "length (n_msix_region n) = 4096"
    "list_all sq_wf (n_sq n)" "list_all cq_wf (n_cq n)" "kv_inv (n_ns n)"
  using assms by (simp_all add: ctrl_core_def)

lemma ctrl_invD:
  assumes "ctrl_inv n"
  shows "length (n_sq n) = 64" "length (n_cq n) = 64" "length (n_msix_region n) = 4096"
    "list_all sq_wf (n_sq n)" "list_all cq_wf (n_cq n)" "regs_inv n" "kv_inv (n_ns n)"
    "ctrl_core n"
  using assms by (simp_all add: ctrl_inv_def ctrl_core_def)

lemma ctrl_invI:
  "length (n_sq n) = 64 \<Longrightarrow> length (n_cq n) = 64 \<Longrightarrow> length (n_msix_region n) = 4096 \<Longrightarrow>
   list_all sq_wf (n_sq n) \<Longrightarrow> list_all cq_wf (n_cq n) \<Longrightarrow> regs_inv n \<Longrightarrow> kv_inv (n_ns n) \<Longrightarrow> ctrl_inv n"
  by (simp add: ctrl_inv_def ctrl_core_def)

lemma ctrl_core_upd [simp]:
  "ctrl_core (n\<lparr>n_csts := a\<rparr>) = ctrl_core n" "ctrl_core (n\<lparr>n_cc := b\<rparr>) = ctrl_core n"
  "ctrl_core (n\<lparr>n_intms := c\<rparr>) = ctrl_core n" "ctrl_core (n\<lparr>n_intmc := d\<rparr>) = ctrl_core n"
  "ctrl_core (n\<lparr>n_aqa := e\<rparr>) = ctrl_core n" "ctrl_core (n\<lparr>n_asq := f\<rparr>) = ctrl_core n"
  "ctrl_core (n\<lparr>n_acq := g\<rparr>) = ctrl_core n"
  by (simp_all add: ctrl_core_def)

text \<open>An enabled queue means that the controller is ready and not shut down.\<close>

lemma enabled_ready:
  assumes "regs_inv n" and "q < length (n_sq n)" and "sq_enabled (n_sq n ! q)"
  shows "n_csts n = NVME_CSTS_RDY"
  using assms list_all_nthD [of "\<lambda>q. \<not> sq_enabled q" "n_sq n" q] by (auto simp: regs_inv_def queues_off_def)

lemma sq_wf_disable [simp]: "sq_wf q \<Longrightarrow> sq_wf (q\<lparr>sq_enabled := False\<rparr>)"
  by (simp add: sq_wf_def)

lemma cq_wf_disable [simp]: "cq_wf (q\<lparr>cq_enabled := False\<rparr>)"
  by (simp add: cq_wf_def)

lemma zero_sq_wf [simp]: "sq_wf zero_sq" "\<not> sq_enabled zero_sq"
  by (simp_all add: sq_wf_def zero_sq_def)

lemma zero_cq_wf [simp]: "cq_wf zero_cq" "\<not> cq_enabled zero_cq"
  by (simp_all add: cq_wf_def zero_cq_def)

lemma queues_down_off: "queues_off (nvme_queues_down n)"
  by (simp add: queues_off_def nvme_queues_down_def list_all_iff)

lemma nvme_queues_down_simps [simp]:
  "n_csts (nvme_queues_down n) = n_csts n" "n_cc (nvme_queues_down n) = n_cc n"
  "n_ns (nvme_queues_down n) = n_ns n" "n_msix_region (nvme_queues_down n) = n_msix_region n"
  "length (n_sq (nvme_queues_down n)) = length (n_sq n)"
  "length (n_cq (nvme_queues_down n)) = length (n_cq n)"
  "list_all sq_wf (n_sq n) \<Longrightarrow> list_all sq_wf (n_sq (nvme_queues_down n))"
  "list_all cq_wf (n_cq (nvme_queues_down n))"
  by (simp_all add: nvme_queues_down_def list_all_iff)

lemma queues_off_upd [simp]:
  "queues_off (n\<lparr>n_csts := a\<rparr>) = queues_off n" "queues_off (n\<lparr>n_cc := b\<rparr>) = queues_off n"
  by (simp_all add: queues_off_def)

lemma nvme_queues_down_core [inv_intros]: "ctrl_core n \<Longrightarrow> ctrl_core (nvme_queues_down n)"
  by (simp add: ctrl_core_def)

lemma nvme_disable_core [inv_intros]: "ctrl_core n \<Longrightarrow> ctrl_core (nvme_disable n)"
  by (simp add: nvme_disable_def Let_def nvme_queues_down_core)

lemma nvme_disable_simps [simp]:
  "n_cc (nvme_disable n) = n_cc n" "queues_off (nvme_disable n)"
  "n_csts (nvme_disable n) = n_csts n AND NOT (NVME_CSTS_RDY OR NVME_CSTS_SHST_MASK)"
  by (simp_all add: nvme_disable_def Let_def queues_down_off)

text \<open>The 0-based 12-bit sizes of AQA.\<close>

lemma aqa_size: "unat ((x AND 0xfff) + 1 :: u32) = unat (x AND 0xfff) + 1" "unat (x AND 0xfff :: u32) < 4096"
proof -
  have "x AND 0xfff \<le> 0xfff" by (rule word_and_le1)
  then show lt: "unat (x AND 0xfff :: u32) < 4096" by (simp add: word_le_nat_alt)
  show "unat ((x AND 0xfff) + 1 :: u32) = unat (x AND 0xfff) + 1"
    using lt by (simp add: unat_word_ariths)
qed

lemma nvme_enable_core [inv_intros]: "ctrl_core n \<Longrightarrow> ctrl_core (nvme_enable n)"
proof -
  assume c: "ctrl_core n"
  note D = ctrl_coreD [OF c]
  have "unat ((n_aqa n AND 0xfff) + 1) \<le> 4096" "0 < unat ((n_aqa n AND 0xfff) + 1)"
    and "unat ((drop_bit 16 (n_aqa n) AND 0xfff) + 1) \<le> 4096" "0 < unat ((drop_bit 16 (n_aqa n) AND 0xfff) + 1)"
    using aqa_size [of "n_aqa n"] aqa_size [of "drop_bit 16 (n_aqa n)"] by simp_all
  then show ?thesis
    using D by (auto simp: ctrl_core_def nvme_enable_def zero_sq_def zero_cq_def sq_wf_def cq_wf_def
        intro!: list_all_update)
qed

lemma nvme_enable_simps [simp]: "n_cc (nvme_enable n) = n_cc n" "n_csts (nvme_enable n) = NVME_CSTS_RDY"
  by (simp_all add: nvme_enable_def)

section \<open>Initial state and reset\<close>

lemma nvme_ctrl_init_inv:
  assumes "nvme_ctrl_init mx s = (0, n, s')" and "unat mx \<le> 2 ^ 31"
  shows "ctrl_inv n" and "kv_abs (n_ns n) = Map.empty"
proof -
  obtain ns where ns: "kv_ns_init zero_ns mx s = (0, ns, s')" "n_ns n = ns"
    and n: "n_sq n = replicate 64 zero_sq" "n_cq n = replicate 64 zero_cq"
      "n_msix_region n = replicate 4096 0" "n_csts n = 0" "n_cc n = 0"
    using assms(1) by (auto simp: nvme_ctrl_init_def zero_ctrl_def Let_def split: prod.splits)
  note kv = kv_ns_init_inv [OF ns(1) assms(2)]
  have "queues_off n" by (simp add: queues_off_def n list_all_iff)
  then have "regs_inv n" by (simp add: regs_inv_def n)
  then show "ctrl_inv n" using kv(1) by (intro ctrl_invI) (simp_all add: n ns list_all_iff)
  show "kv_abs (n_ns n) = Map.empty" using kv(2) by (simp add: ns)
qed

lemma nvme_ctrl_reset_inv [inv_intros]:
  assumes "ctrl_inv n"
  shows "ctrl_inv (nvme_ctrl_reset n)"
proof -
  have "queues_off (nvme_ctrl_reset n)"
    using queues_down_off [of n] by (simp add: nvme_ctrl_reset_def nvme_disable_def Let_def queues_off_def)
  then have "regs_inv (nvme_ctrl_reset n)" by (simp add: regs_inv_def nvme_ctrl_reset_def)
  then show ?thesis
    using ctrl_invD [OF assms]
    by (intro ctrl_invI) (simp_all add: nvme_ctrl_reset_def nvme_disable_def Let_def)
qed

end
