(* ===== verification/NvmeAdmin.thy ===== *)
theory NvmeAdmin
  imports NvmeCtrl
begin

text \<open>
  The admin commands of \<^verbatim>\<open>src/nvme.c\<close>: Identify with its data pages, Set and Get Features,
  creation and deletion of I/O queues, and the dispatcher \<open>nvme_admin_cmd\<close>. The lemmas give
  the content of the identify pages, the effect of every command on the queue tables, and that
  every command keeps the controller invariant and leaves the stored pairs alone.
\<close>

section \<open>Constants\<close>

abbreviation (input) NVME_ADM_DELETE_SQ :: u8 where "NVME_ADM_DELETE_SQ \<equiv> 0x00"
abbreviation (input) NVME_ADM_CREATE_SQ :: u8 where "NVME_ADM_CREATE_SQ \<equiv> 0x01"
abbreviation (input) NVME_ADM_GET_LOG_PAGE :: u8 where "NVME_ADM_GET_LOG_PAGE \<equiv> 0x02"
abbreviation (input) NVME_ADM_DELETE_CQ :: u8 where "NVME_ADM_DELETE_CQ \<equiv> 0x04"
abbreviation (input) NVME_ADM_CREATE_CQ :: u8 where "NVME_ADM_CREATE_CQ \<equiv> 0x05"
abbreviation (input) NVME_ADM_IDENTIFY :: u8 where "NVME_ADM_IDENTIFY \<equiv> 0x06"
abbreviation (input) NVME_ADM_SET_FEATURES :: u8 where "NVME_ADM_SET_FEATURES \<equiv> 0x09"
abbreviation (input) NVME_ADM_GET_FEATURES :: u8 where "NVME_ADM_GET_FEATURES \<equiv> 0x0a"
abbreviation (input) NVME_ADM_ASYNC_EVENT :: u8 where "NVME_ADM_ASYNC_EVENT \<equiv> 0x0c"

abbreviation (input) NVME_FEAT_NUM_QUEUES :: u8 where "NVME_FEAT_NUM_QUEUES \<equiv> 0x07"
abbreviation (input) NVME_FEAT_KV_EDNEK :: u8 where "NVME_FEAT_KV_EDNEK \<equiv> 0x20"

abbreviation (input) NVME_ID_CNS_NS :: u8 where "NVME_ID_CNS_NS \<equiv> 0x00"
abbreviation (input) NVME_ID_CNS_CTRL :: u8 where "NVME_ID_CNS_CTRL \<equiv> 0x01"
abbreviation (input) NVME_ID_CNS_NS_ACTIVE_LIST :: u8 where "NVME_ID_CNS_NS_ACTIVE_LIST \<equiv> 0x02"
abbreviation (input) NVME_ID_CNS_NS_DESC_LIST :: u8 where "NVME_ID_CNS_NS_DESC_LIST \<equiv> 0x03"
abbreviation (input) NVME_ID_CNS_CS_NS :: u8 where "NVME_ID_CNS_CS_NS \<equiv> 0x05"
abbreviation (input) NVME_ID_CNS_CS_CTRL :: u8 where "NVME_ID_CNS_CS_CTRL \<equiv> 0x06"
abbreviation (input) NVME_ID_CNS_NS_INDEPENDENT :: u8 where "NVME_ID_CNS_NS_INDEPENDENT \<equiv> 0x08"
abbreviation (input) NVME_ID_CNS_IO_CMD_SET :: u8 where "NVME_ID_CNS_IO_CMD_SET \<equiv> 0x1c"

abbreviation (input) NVME_NO_COMPLETE :: u16 where "NVME_NO_COMPLETE \<equiv> 0xffff"
abbreviation (input) NVME_STATUS_INVALID_QID :: u16 where "NVME_STATUS_INVALID_QID \<equiv> 0x0101"

section \<open>Identify\<close>

text \<open>The \<open>width\<close> bytes that \<open>nvme_fill_ascii\<close> writes at \<open>dst\<close>: both loops of the function.\<close>

fun nvme_fill_ascii :: "string \<Rightarrow> nat \<Rightarrow> bytes" where
  "nvme_fill_ascii s 0 = []"
| "nvme_fill_ascii [] (Suc width) = 0x20 # nvme_fill_ascii [] width"
| "nvme_fill_ascii (c # s) (Suc width) = of_char c # nvme_fill_ascii s width"

definition nvme_fill_id_ctrl :: bytes where
  "nvme_fill_id_ctrl =
     (let buf = replicate KVSSD_PAGE_SIZE (0 :: u8);
          buf = buf[0x00 := 0x36, 0x01 := 0x1b, 0x02 := 0x36, 0x03 := 0x1b];
          buf = overwrite 0x04 (nvme_fill_ascii ''VFUKVSSD0000000000000001'' 20) buf;
          buf = overwrite 0x18 (nvme_fill_ascii ''vfio-user-kvssd'' 40) buf;
          buf = overwrite 0x40 (nvme_fill_ascii ''0.1.3'' 8) buf;
          buf = buf[0x48 := 0x00, 0x4c := 0x00, 0x4d := 0x01, 0x4e := 0x01, 0x4f := 0x00,
                    0x50 := 0x00, 0x51 := 0x00, 0x52 := 0x02, 0x53 := 0x00, 0x6f := 0x01];
          buf = buf[0x100 := 0x00, 0x101 := 0x00, 0x102 := 0x03, 0x103 := 0x03, 0x104 := 0x00,
                    0x105 := 0x00, 0x106 := 0x00, 0x107 := 0x00, 0x108 := 0x00, 0x109 := 0x00];
          buf = buf[0x200 := 0x66, 0x201 := 0x44, 0x204 := 0x01, 0x205 := 0x00, 0x206 := 0x00,
                    0x207 := 0x00]
      in overwrite 0x300 (take 256 (map of_char ''nqn.2025-11.dk.safl:vfu_kvssd'')) buf)"

text \<open>
  The buffer the \<open>switch\<close> of \<open>nvme_admin_identify\<close> leaves; \<open>Inr None\<close> is the \<open>default\<close> case.
\<close>

definition nvme_identify_data :: "nvme_ctrl \<Rightarrow> u8 \<Rightarrow> u8 \<Rightarrow> ub + bytes option" where
  "nvme_identify_data n cns csi =
     (let buf = replicate KVSSD_PAGE_SIZE (0 :: u8) in
      if cns = NVME_ID_CNS_CTRL then Inr (Some nvme_fill_id_ctrl)
      else if cns = NVME_ID_CNS_NS then
        (let sz = (case id_ns_kv (n_ns n) of Some d \<Rightarrow> nsze d | None \<Rightarrow> 0);
             us = (case id_ns_kv (n_ns n) of Some d \<Rightarrow> nuse d | None \<Rightarrow> 0)
         in Inr (Some (overwrite 0x30 (le_enc 8 sz) (overwrite 0x10 (le_enc 8 us)
              (overwrite 0x08 (le_enc 8 sz) (overwrite 0x00 (le_enc 8 sz) buf))))))
      else if cns = NVME_ID_CNS_NS_ACTIVE_LIST then Inr (Some (overwrite 0 (le_enc 4 (1 :: u32)) buf))
      else if cns = NVME_ID_CNS_NS_DESC_LIST then Inr (Some (buf[0 := 0x04, 1 := 0x01, 4 := NVME_CSI_KV]))
      else if cns = NVME_ID_CNS_CS_NS then
        (if csi = NVME_CSI_KV then
           (case id_ns_kv (n_ns n) of
             None \<Rightarrow> Inl UB_null
           | Some d \<Rightarrow> Inr (Some (overwrite 0 (encode_id_ns_kv d) buf)))
         else Inr (Some buf))
      else if cns = NVME_ID_CNS_CS_CTRL then Inr (Some buf)
      else if cns = NVME_ID_CNS_NS_INDEPENDENT then Inr (Some (buf[14 := 0x01]))
      else if cns = NVME_ID_CNS_IO_CMD_SET then Inr (Some (buf[0 := push_bit (unat NVME_CSI_NVM) 1]))
      else Inr None)"

definition nvme_admin_identify ::
    "'sg vfu_ctx \<Rightarrow> nvme_ctrl \<Rightarrow> NvmeSqe \<Rightarrow> host \<Rightarrow> ub + (u16 \<times> host)" where
  "nvme_admin_identify vfu n sqe h =
     (let cns = ucast (sqe_cdw10 sqe AND 0xff);
          csi = ucast (drop_bit 24 (sqe_cdw11 sqe) AND 0xff)
      in
      case nvme_identify_data n cns csi of
        Inl u \<Rightarrow> Inl u
      | Inr None \<Rightarrow> Inr (NVME_INVALID_FIELD OR NVME_DNR, h)
      | Inr (Some buf) \<Rightarrow>
          (let (rc, _, h') = nvme_prp_xfer vfu (sqe_prp1 sqe) (sqe_prp2 sqe) buf KVSSD_PAGE_SIZE True h
           in Inr (if rc \<noteq> 0 then NVME_INVALID_FIELD OR NVME_DNR else NVME_SUCCESS, h')))"

section \<open>Features\<close>

text \<open>Both return the status and \<open>*cdw0\<close>.\<close>

definition nvme_admin_set_features :: "nvme_ctrl \<Rightarrow> NvmeSqe \<Rightarrow> u32 \<Rightarrow> u16 \<times> u32 \<times> nvme_ctrl" where
  "nvme_admin_set_features n sqe cdw0 =
     (let fid = (ucast (sqe_cdw10 sqe AND 0xff) :: u8) in
      if fid = NVME_FEAT_NUM_QUEUES then
        (let nsqr = (ucast (sqe_cdw11 sqe AND 0xffff) :: u16);
             ncqr = (ucast (drop_bit 16 (sqe_cdw11 sqe) AND 0xffff) :: u16);
             max0 = of_nat (NVME_MAX_QUEUES - 2);
             gs = min nsqr max0;
             gc = min ncqr max0
         in (NVME_SUCCESS, push_bit 16 (ucast gc) OR ucast gs, n))
      else if fid = NVME_FEAT_KV_EDNEK then
        (NVME_SUCCESS, cdw0, n\<lparr>n_ns := (n_ns n)\<lparr>ednek := sqe_cdw11 sqe\<rparr>\<rparr>)
      else (NVME_SUCCESS, cdw0, n))"

definition nvme_admin_get_features :: "nvme_ctrl \<Rightarrow> NvmeSqe \<Rightarrow> u16 \<times> u32" where
  "nvme_admin_get_features n sqe =
     (let fid = (ucast (sqe_cdw10 sqe AND 0xff) :: u8) in
      if fid = NVME_FEAT_NUM_QUEUES then
        (let max0 = (of_nat (NVME_MAX_QUEUES - 2) :: u16)
         in (NVME_SUCCESS, push_bit 16 (ucast max0) OR ucast max0))
      else if fid = NVME_FEAT_KV_EDNEK then (NVME_SUCCESS, ednek (n_ns n))
      else (NVME_SUCCESS, 0))"

section \<open>Queue management\<close>

definition nvme_admin_create_cq :: "nvme_ctrl \<Rightarrow> NvmeSqe \<Rightarrow> u16 \<times> nvme_ctrl" where
  "nvme_admin_create_cq n sqe =
     (let qid = (ucast (sqe_cdw10 sqe AND 0xffff) :: u16);
          qsize = (ucast (drop_bit 16 (sqe_cdw10 sqe) AND 0xffff) :: u16);
          iv = (ucast (drop_bit 16 (sqe_cdw11 sqe) AND 0xffff) :: u16)
      in
      if qid = 0 \<or> unat qid \<ge> NVME_MAX_QUEUES then (NVME_STATUS_INVALID_QID OR NVME_DNR, n)
      else
        (NVME_SUCCESS,
         n\<lparr>n_cq := (n_cq n)[unat qid := zero_cq\<lparr>
             cq_dma := sqe_prp1 sqe, cq_size := ucast qsize + 1, cq_qid := qid, cq_phase := 1,
             cq_irq := uint iv, cq_enabled := True\<rparr>]\<rparr>))"

definition nvme_admin_create_sq :: "nvme_ctrl \<Rightarrow> NvmeSqe \<Rightarrow> u16 \<times> nvme_ctrl" where
  "nvme_admin_create_sq n sqe =
     (let qid = (ucast (sqe_cdw10 sqe AND 0xffff) :: u16);
          qsize = (ucast (drop_bit 16 (sqe_cdw10 sqe) AND 0xffff) :: u16);
          cqid = (ucast (drop_bit 16 (sqe_cdw11 sqe) AND 0xffff) :: u16)
      in
      if qid = 0 \<or> unat qid \<ge> NVME_MAX_QUEUES \<or> unat cqid \<ge> NVME_MAX_QUEUES \<or>
         \<not> cq_enabled (n_cq n ! unat cqid)
      then (NVME_STATUS_INVALID_QID OR NVME_DNR, n)
      else
        (NVME_SUCCESS,
         n\<lparr>n_sq := (n_sq n)[unat qid := zero_sq\<lparr>
             sq_dma := sqe_prp1 sqe, sq_size := ucast qsize + 1, sq_qid := qid, sq_cqid := cqid,
             sq_enabled := True\<rparr>]\<rparr>))"

definition nvme_admin_delete_cq :: "nvme_ctrl \<Rightarrow> NvmeSqe \<Rightarrow> u16 \<times> nvme_ctrl" where
  "nvme_admin_delete_cq n sqe =
     (let qid = (ucast (sqe_cdw10 sqe AND 0xffff) :: u16) in
      if qid = 0 \<or> unat qid \<ge> NVME_MAX_QUEUES then (NVME_STATUS_INVALID_QID OR NVME_DNR, n)
      else (NVME_SUCCESS,
            n\<lparr>n_cq := (n_cq n)[unat qid := (n_cq n ! unat qid)\<lparr>cq_enabled := False\<rparr>]\<rparr>))"

definition nvme_admin_delete_sq :: "nvme_ctrl \<Rightarrow> NvmeSqe \<Rightarrow> u16 \<times> nvme_ctrl" where
  "nvme_admin_delete_sq n sqe =
     (let qid = (ucast (sqe_cdw10 sqe AND 0xffff) :: u16) in
      if qid = 0 \<or> unat qid \<ge> NVME_MAX_QUEUES then (NVME_STATUS_INVALID_QID OR NVME_DNR, n)
      else (NVME_SUCCESS,
            n\<lparr>n_sq := (n_sq n)[unat qid := (n_sq n ! unat qid)\<lparr>sq_enabled := False\<rparr>]\<rparr>))"

text \<open>The dispatcher: status, \<open>*cdw0\<close>, controller and host.\<close>

definition nvme_admin_cmd ::
    "'sg vfu_ctx \<Rightarrow> nvme_ctrl \<Rightarrow> NvmeSqe \<Rightarrow> host \<Rightarrow> ub + (u16 \<times> u32 \<times> nvme_ctrl \<times> host)" where
  "nvme_admin_cmd vfu n sqe h =
     (let opc = sqe_opcode sqe; cdw0 = 0 in
      if opc = NVME_ADM_IDENTIFY then
        (case nvme_admin_identify vfu n sqe h of
          Inl u \<Rightarrow> Inl u
        | Inr (st, h') \<Rightarrow> Inr (st, cdw0, n, h'))
      else if opc = NVME_ADM_SET_FEATURES then
        (let (st, c, n') = nvme_admin_set_features n sqe cdw0 in Inr (st, c, n', h))
      else if opc = NVME_ADM_GET_FEATURES then
        (let (st, c) = nvme_admin_get_features n sqe in Inr (st, c, n, h))
      else if opc = NVME_ADM_CREATE_CQ then
        (let (st, n') = nvme_admin_create_cq n sqe in Inr (st, cdw0, n', h))
      else if opc = NVME_ADM_CREATE_SQ then
        (let (st, n') = nvme_admin_create_sq n sqe in Inr (st, cdw0, n', h))
      else if opc = NVME_ADM_DELETE_CQ then
        (let (st, n') = nvme_admin_delete_cq n sqe in Inr (st, cdw0, n', h))
      else if opc = NVME_ADM_DELETE_SQ then
        (let (st, n') = nvme_admin_delete_sq n sqe in Inr (st, cdw0, n', h))
      else if opc = NVME_ADM_GET_LOG_PAGE then Inr (NVME_SUCCESS, cdw0, n, h)
      else if opc = NVME_ADM_ASYNC_EVENT then Inr (NVME_NO_COMPLETE, cdw0, n, h)
      else Inr (NVME_INVALID_OPCODE OR NVME_DNR, cdw0, n, h))"

section \<open>Identify data\<close>

lemma length_fill_ascii [simp, byte_simps]: "length (nvme_fill_ascii s w) = w"
  by (induction s w rule: nvme_fill_ascii.induct) auto

text \<open>The field is the string, cut to the width or padded with spaces.\<close>

lemma nvme_fill_ascii_eq:
  "nvme_fill_ascii s w = take w (map of_char s) @ replicate (w - length s) 0x20"
  by (induction s w rule: nvme_fill_ascii.induct) auto

lemma length_fill_id_ctrl [simp, byte_simps]: "length nvme_fill_id_ctrl = 4096"
  by (simp add: nvme_fill_id_ctrl_def Let_def)

text \<open>Every page is one memory page long, and the namespace descriptor is always there.\<close>

lemma nvme_identify_data_page:
  assumes "kv_inv (n_ns n)"
  shows "\<exists>r. nvme_identify_data n cns csi = Inr r \<and> (\<forall>buf. r = Some buf \<longrightarrow> length buf = 4096)"
  using assms
  by (auto simp: nvme_identify_data_def Let_def kv_inv_def length_encode_id_ns_kv)

section \<open>Invariant\<close>

lemma kv_inv_ednek [simp]: "kv_inv (ns\<lparr>ednek := e\<rparr>) = kv_inv ns" "kv_abs (ns\<lparr>ednek := e\<rparr>) = kv_abs ns"
  by (simp_all add: kv_inv_def kv_abs_def)

text \<open>A 0-based 16-bit queue size plus one, at 32 bits.\<close>

lemma qsize_bounds: "0 < unat (ucast (q :: u16) + 1 :: u32)" "unat (ucast (q :: u16) + 1 :: u32) \<le> 65536"
proof -
  have "unat (ucast q + 1 :: u32) = unat q + 1"
    using unsigned_less [of q, where 'a = nat] by (simp add: unat_word_ariths unat_ucast_up)
  then show "0 < unat (ucast q + 1 :: u32)" "unat (ucast q + 1 :: u32) \<le> 65536"
    using unsigned_less [of q, where 'a = nat] by simp_all
qed

text \<open>
  What every admin command keeps: all registers, the admin queues, the MSI-X region and the stored
  pairs. Only the other entries of the queue tables and \<open>ednek\<close> change.
\<close>

definition admin_frame :: "nvme_ctrl \<Rightarrow> nvme_ctrl \<Rightarrow> bool" where
  "admin_frame n n' \<longleftrightarrow> n_cap n' = n_cap n \<and> n_vs n' = n_vs n \<and> n_intms n' = n_intms n \<and>
     n_intmc n' = n_intmc n \<and> n_cc n' = n_cc n \<and> n_csts n' = n_csts n \<and> n_aqa n' = n_aqa n \<and>
     n_asq n' = n_asq n \<and> n_acq n' = n_acq n \<and>
     n_sq n' ! 0 = n_sq n ! 0 \<and> n_cq n' ! 0 = n_cq n ! 0 \<and>
     n_msix_region n' = n_msix_region n \<and> kv_abs (n_ns n') = kv_abs (n_ns n) \<and>
     max_num_keys (n_ns n') = max_num_keys (n_ns n)"

lemma admin_frame_refl [simp]: "admin_frame n n"
  by (simp add: admin_frame_def)

lemma regs_inv_ready: "n_csts n = 1 \<Longrightarrow> n_cc n AND 1 = 1 \<Longrightarrow> regs_inv n"
  by (simp add: regs_inv_def)

lemma regs_inv_readyD: "regs_inv n \<Longrightarrow> n_csts n = 1 \<Longrightarrow> n_cc n AND 1 = 1"
  by (simp add: regs_inv_def)

lemma nvme_admin_create_cq_inv:
  assumes "ctrl_inv n" and "n_csts n = 1" and "nvme_admin_create_cq n sqe = (st, n')"
  shows "ctrl_inv n'" and "admin_frame n n'"
  using assms ctrl_invD [OF assms(1)] regs_inv_readyD [of n]
  by (auto simp: nvme_admin_create_cq_def Let_def admin_frame_def zero_cq_def cq_wf_def qsize_bounds
      split: if_splits intro!: ctrl_invI list_all_update regs_inv_ready)

lemma nvme_admin_create_sq_inv:
  assumes "ctrl_inv n" and "n_csts n = 1" and "nvme_admin_create_sq n sqe = (st, n')"
  shows "ctrl_inv n'" and "admin_frame n n'"
  using assms ctrl_invD [OF assms(1)] regs_inv_readyD [of n]
  by (auto simp: nvme_admin_create_sq_def Let_def admin_frame_def zero_sq_def sq_wf_def qsize_bounds
      split: if_splits intro!: ctrl_invI list_all_update regs_inv_ready)

lemma nvme_admin_delete_cq_inv:
  assumes "ctrl_inv n" and "n_csts n = 1" and "nvme_admin_delete_cq n sqe = (st, n')"
  shows "ctrl_inv n'" and "admin_frame n n'"
  using assms ctrl_invD [OF assms(1)] regs_inv_readyD [of n]
  by (auto simp: nvme_admin_delete_cq_def Let_def admin_frame_def
      split: if_splits intro!: ctrl_invI list_all_update regs_inv_ready)

lemma nvme_admin_delete_sq_inv:
  assumes "ctrl_inv n" and "n_csts n = 1" and "nvme_admin_delete_sq n sqe = (st, n')"
  shows "ctrl_inv n'" and "admin_frame n n'"
  using assms ctrl_invD [OF assms(1)] regs_inv_readyD [of n]
  by (auto simp: nvme_admin_delete_sq_def Let_def admin_frame_def
      split: if_splits intro!: ctrl_invI list_all_update regs_inv_ready sq_wf_disable list_all_nthD [of sq_wf])

lemma nvme_admin_set_features_inv:
  assumes "ctrl_inv n" and "n_csts n = 1" and "nvme_admin_set_features n sqe c = (st, c', n')"
  shows "ctrl_inv n'" and "admin_frame n n'"
  using assms ctrl_invD [OF assms(1)] regs_inv_readyD [of n]
  by (auto simp: nvme_admin_set_features_def Let_def admin_frame_def
      split: if_splits intro!: ctrl_invI regs_inv_ready)

lemma nvme_admin_identify_total:
  assumes "ctrl_inv n"
  shows "\<exists>st h'. nvme_admin_identify vfu n sqe h = Inr (st, h') \<and> irqs h' = irqs h \<and> st \<noteq> NVME_NO_COMPLETE"
proof -
  obtain r where r: "nvme_identify_data n (ucast (sqe_cdw10 sqe AND 0xff)) (ucast (drop_bit 24 (sqe_cdw11 sqe) AND 0xff)) = Inr r"
      "\<forall>buf. r = Some buf \<longrightarrow> length buf = 4096"
    using nvme_identify_data_page ctrl_invD(7) [OF assms] by blast
  show ?thesis
  proof (cases r)
    case None
    with r show ?thesis by (simp add: nvme_admin_identify_def Let_def)
  next
    case (Some buf)
    obtain rc b h' where x: "nvme_prp_xfer vfu (sqe_prp1 sqe) (sqe_prp2 sqe) buf 4096 True h = (rc, b, h')"
      by (metis prod.exhaust)
    then show ?thesis
      using r Some nvme_prp_xfer_frame(3) [OF x] by (simp add: nvme_admin_identify_def Let_def)
  qed
qed

text \<open>Every admin command terminates without undefined behaviour and keeps the invariant.\<close>

lemma nvme_admin_cmd_inv:
  assumes "ctrl_inv n" and "n_csts n = 1"
  obtains st c n' h' where "nvme_admin_cmd vfu n sqe h = Inr (st, c, n', h')"
    "ctrl_inv n'" "admin_frame n n'" "irqs h' = irqs h"
    "st = NVME_NO_COMPLETE \<longleftrightarrow> sqe_opcode sqe = NVME_ADM_ASYNC_EVENT"
proof -
  have st: "fst (nvme_admin_create_cq n sqe) \<noteq> 0xffff" "fst (nvme_admin_create_sq n sqe) \<noteq> 0xffff"
    "fst (nvme_admin_delete_cq n sqe) \<noteq> 0xffff" "fst (nvme_admin_delete_sq n sqe) \<noteq> 0xffff"
    "fst (nvme_admin_set_features n sqe 0) \<noteq> 0xffff" "fst (nvme_admin_get_features n sqe) \<noteq> 0xffff"
    by (simp_all add: nvme_admin_create_cq_def nvme_admin_create_sq_def nvme_admin_delete_cq_def
        nvme_admin_delete_sq_def nvme_admin_set_features_def nvme_admin_get_features_def Let_def)
  note inv = nvme_admin_create_cq_inv nvme_admin_create_sq_inv nvme_admin_delete_cq_inv
    nvme_admin_delete_sq_inv nvme_admin_set_features_inv
  have "\<exists>st c n' h'. nvme_admin_cmd vfu n sqe h = Inr (st, c, n', h') \<and>
    ctrl_inv n' \<and> admin_frame n n' \<and> irqs h' = irqs h \<and>
    (st = NVME_NO_COMPLETE \<longleftrightarrow> sqe_opcode sqe = NVME_ADM_ASYNC_EVENT)"
    using nvme_admin_identify_total [OF assms(1), of vfu sqe h] inv [OF assms] assms(1) st
    by (auto simp: nvme_admin_cmd_def Let_def split: prod.splits)
  then show ?thesis using that by blast
qed

end
