(* ===== verification/NvmeQueue.thy ===== *)
theory NvmeQueue
  imports NvmeAdmin
begin

text \<open>
  The queue engine of \<^verbatim>\<open>src/nvme.c\<close>: posting a completion, the KV dispatcher \<open>nvme_io_kv\<close> and
  the loop of \<open>nvme_process_sq\<close> that fetches, executes and completes commands until the head
  of a submission queue has caught up with its tail doorbell. The loop may not end, so it is a
  \<open>partial_function\<close> into \<open>option\<close>. The lemmas show how the two rings advance, that the loop
  ends after exactly the number of commands between head and tail when the doorbell value is
  inside the ring, and that it keeps the controller invariant.
\<close>

section \<open>Completions\<close>

text \<open>Lines 259 to 263: the tail moves on, and the phase flips when it wraps.\<close>

definition cq_advance :: "nvme_cq \<Rightarrow> nvme_cq" where
  "cq_advance cq =
     (let cq1 = cq\<lparr>cq_tail := cq_tail cq + 1\<rparr> in
      if ucast (cq_tail cq1) = cq_size cq1
      then cq1\<lparr>cq_tail := 0, cq_phase := cq_phase cq1 XOR 1\<rparr>
      else cq1)"

definition nvme_post_cqe ::
    "'sg vfu_ctx \<Rightarrow> nvme_ctrl \<Rightarrow> u16 \<Rightarrow> u16 \<Rightarrow> u16 \<Rightarrow> u16 \<Rightarrow> u32 \<Rightarrow> u16 \<Rightarrow> host \<Rightarrow> ub + (nvme_ctrl \<times> host)" where
  "nvme_post_cqe vfu n cqid sqid head cid cdw0 status h =
     (if unat cqid \<ge> NVME_MAX_QUEUES then Inl UB_index
      else
        let cq = n_cq n ! unat cqid in
        if \<not> cq_enabled cq then Inr (n, h)
        else
          let cqe = \<lparr>cqe_cdw0 = cdw0, cqe_cdw1 = 0, cqe_sq_head = head, cqe_sq_id = sqid,
                cqe_cid = cid, cqe_status = push_bit 1 status OR ucast (cq_phase cq AND 1)\<rparr>;
              (_, _, h1) = nvme_gpa_xfer vfu (cq_dma cq + ucast (cq_tail cq) * 16) (encode_cqe cqe) 16 True h;
              cq' = cq_advance cq;
              h2 = (if cq_irq cq' \<ge> 0 then h1\<lparr>irqs := irqs h1 @ [word_of_int (cq_irq cq')]\<rparr> else h1)
          in Inr (n\<lparr>n_cq := (n_cq n)[unat cqid := cq']\<rparr>, h2))"

section \<open>KV dispatch\<close>

definition nvme_io_kv ::
    "'sg vfu_ctx \<Rightarrow> nvme_ctrl \<Rightarrow> NvmeSqe \<Rightarrow> host \<Rightarrow> ub + (u16 \<times> nvme_ctrl \<times> host)" where
  "nvme_io_kv vfu n sqe h =
     (let cmd = kvcmd_of_sqe sqe; dma = kvdma vfu; opc = kvc_opcode cmd in
      if opc = NVME_CMD_KV_STORE then
        (case kv_store dma cmd (n_ns n) h of
          Inl u \<Rightarrow> Inl u
        | Inr (st, ns', h') \<Rightarrow> Inr (st, n\<lparr>n_ns := ns'\<rparr>, h'))
      else if opc = NVME_CMD_KV_RETRIEVE then
        (let (st, h') = kv_retrieve dma cmd (n_ns n) h in Inr (st, n, h'))
      else if opc = NVME_CMD_KV_DELETE then
        (case kv_delete cmd (n_ns n) of
          Inl u \<Rightarrow> Inl u
        | Inr (st, ns') \<Rightarrow> Inr (st, n\<lparr>n_ns := ns'\<rparr>, h))
      else if opc = NVME_CMD_KV_EXIST then Inr (kv_exist cmd (n_ns n), n, h)
      else if opc = NVME_CMD_KV_LIST then
        (let (st, h') = kv_list dma cmd (n_ns n) h in Inr (st, n, h'))
      else Inr (NVME_INVALID_OPCODE OR NVME_DNR, n, h))"

section \<open>The loop\<close>

text \<open>The conditional of line 663: the admin queue runs admin commands, the others KV commands.\<close>

definition nvme_exec ::
    "'sg vfu_ctx \<Rightarrow> u16 \<Rightarrow> nvme_ctrl \<Rightarrow> NvmeSqe \<Rightarrow> host \<Rightarrow> ub + (u16 \<times> u32 \<times> nvme_ctrl \<times> host)" where
  "nvme_exec vfu qid n sqe h =
     (if qid = 0 then nvme_admin_cmd vfu n sqe h
      else
        (case nvme_io_kv vfu n sqe h of
          Inl u \<Rightarrow> Inl u
        | Inr (st, n', h') \<Rightarrow> Inr (st, 0, n', h')))"

text \<open>
  One iteration. The boolean tells whether the loop goes on; it stops when the command cannot
  be fetched. The local \<open>NvmeSqe sqe\<close> starts uninitialised.
\<close>

definition nvme_process_one ::
    "'sg vfu_ctx \<Rightarrow> u16 \<Rightarrow> nvme_ctrl \<times> host \<Rightarrow> ub + (bool \<times> nvme_ctrl \<times> host)" where
  "nvme_process_one vfu qid = (\<lambda>(n, h).
     let q = unat qid;
         sq = n_sq n ! q;
         (rc, b, h1) = nvme_gpa_xfer vfu (sq_dma sq + ucast (sq_head sq) * 64) (map (junk h) [0..<64]) 64 False h
     in
     if rc \<noteq> 0 then Inr (False, n, h1)
     else if sq_size sq = 0 then Inl UB_div
     else
       let sqe = decode_sqe b;
           n1 = n\<lparr>n_sq := (n_sq n)[q := sq\<lparr>sq_head := ucast ((ucast (sq_head sq) + 1 :: u32) mod sq_size sq)\<rparr>]\<rparr>
       in
       case nvme_exec vfu qid n1 sqe h1 of
         Inl u \<Rightarrow> Inl u
       | Inr (status, cdw0, n2, h2) \<Rightarrow>
           (if status = NVME_NO_COMPLETE then Inr (True, n2, h2)
            else
              let sq2 = n_sq n2 ! q in
              case nvme_post_cqe vfu n2 (sq_cqid sq2) qid (sq_head sq2) (sqe_cid sqe) cdw0 status h2 of
                Inl u \<Rightarrow> Inl u
              | Inr (n3, h3) \<Rightarrow> Inr (True, n3, h3)))"

partial_function (option) nvme_process_sq_loop ::
    "'sg vfu_ctx \<Rightarrow> u16 \<Rightarrow> nvme_ctrl \<times> host \<Rightarrow> (ub + nvme_ctrl \<times> host) option" where
  "nvme_process_sq_loop vfu qid s =
     (if sq_head (n_sq (fst s) ! unat qid) = sq_tail (n_sq (fst s) ! unat qid) then Some (Inr s)
      else
        (case nvme_process_one vfu qid s of
          Inl u \<Rightarrow> Some (Inl u)
        | Inr (go, s') \<Rightarrow> (if go then nvme_process_sq_loop vfu qid s' else Some (Inr s'))))"

definition nvme_process_sq ::
    "'sg vfu_ctx \<Rightarrow> u16 \<Rightarrow> nvme_ctrl \<Rightarrow> host \<Rightarrow> (ub + nvme_ctrl \<times> host) option" where
  "nvme_process_sq vfu qid n h =
     (if unat qid \<ge> NVME_MAX_QUEUES then Some (Inl UB_index)
      else if \<not> sq_enabled (n_sq n ! unat qid) then Some (Inr (n, h))
      else nvme_process_sq_loop vfu qid (n, h))"

section \<open>Draining a ring\<close>

text \<open>
  The interface between the loop and the commands it runs: a consumer whose step either stops
  or moves the head of a ring by one position, keeping an invariant, the ring size and the
  tail. The loop is known only by its unfolding equation. Under these laws it performs exactly
  as many steps as the tail is ahead of the head.
\<close>

primrec run_steps :: "('s \<Rightarrow> 'e + (bool \<times> 's)) \<Rightarrow> nat \<Rightarrow> 's \<Rightarrow> 'e + 's" where
  "run_steps step 0 s = Inr s"
| "run_steps step (Suc k) s =
     (case step s of
       Inl e \<Rightarrow> Inl e
     | Inr (go, s') \<Rightarrow> (if go then run_steps step k s' else Inr s'))"

definition ring_dist :: "nat \<Rightarrow> nat \<Rightarrow> nat \<Rightarrow> nat" where
  "ring_dist sz a b = (b + sz - a) mod sz"

lemma ring_dist_0: "a < sz \<Longrightarrow> b < sz \<Longrightarrow> ring_dist sz a b = 0 \<longleftrightarrow> a = b"
  by (auto simp: ring_dist_def mod_if)

lemma ring_dist_Suc:
  "a < sz \<Longrightarrow> b < sz \<Longrightarrow> a \<noteq> b \<Longrightarrow> ring_dist sz a b = Suc (ring_dist sz (Suc a mod sz) b)"
  by (auto simp: ring_dist_def mod_if)

locale ring_consumer =
  fixes step :: "'s \<Rightarrow> 'e + (bool \<times> 's)"
    and loop :: "'s \<Rightarrow> ('e + 's) option"
    and I :: "'s \<Rightarrow> bool"
    and head tail cap :: "'s \<Rightarrow> nat"
  assumes loop_unfold:
      "I s \<Longrightarrow> loop s =
         (if head s = tail s then Some (Inr s)
          else (case step s of
              Inl e \<Rightarrow> Some (Inl e)
            | Inr (go, s') \<Rightarrow> (if go then loop s' else Some (Inr s'))))"
    and step_total: "I s \<Longrightarrow> \<exists>go s'. step s = Inr (go, s')"
    and step_inv: "I s \<Longrightarrow> step s = Inr (go, s') \<Longrightarrow> I s'"
    and step_ring: "I s \<Longrightarrow> step s = Inr (True, s') \<Longrightarrow>
      head s' = Suc (head s) mod cap s \<and> tail s' = tail s \<and> cap s' = cap s"
    and head_in_ring: "I s \<Longrightarrow> head s < cap s"
begin

lemma loop_runs:
  assumes "I s" and "tail s < cap s"
  shows "loop s = Some (run_steps step (ring_dist (cap s) (head s) (tail s)) s)"
  using assms
proof (induction "ring_dist (cap s) (head s) (tail s)" arbitrary: s)
  case 0
  then have "head s = tail s" using ring_dist_0 head_in_ring by metis
  then show ?case using loop_unfold [OF 0(2)] 0(1) by simp
next
  case (Suc k)
  have ne: "head s \<noteq> tail s"
    using Suc(2) ring_dist_0 [OF head_in_ring [OF Suc(3)] Suc(4)] by simp
  obtain go s' where st: "step s = Inr (go, s')" using step_total [OF Suc(3)] by blast
  show ?case
  proof (cases go)
    case False
    then show ?thesis using loop_unfold [OF Suc(3)] ne st Suc(2) by (simp flip: Suc(2))
  next
    case True
    note ring = step_ring [OF Suc(3), of s'] and inv' = step_inv [OF Suc(3) st]
    have "k = ring_dist (cap s') (head s') (tail s')"
      using ring_dist_Suc [OF head_in_ring [OF Suc(3)] Suc(4) ne] Suc(2) ring st True by simp
    from Suc(1) [OF this inv'] show ?thesis
      using ring st True Suc(4) loop_unfold [OF Suc(3)] ne \<open>k = _\<close> by (simp flip: Suc(2))
  qed
qed

lemma run_steps_inv:
  assumes "I s"
  shows "\<exists>s'. run_steps step k s = Inr s' \<and> I s'"
  using assms
proof (induction k arbitrary: s)
  case (Suc k)
  obtain go s' where "step s = Inr (go, s')" using step_total [OF Suc.prems] by blast
  with step_inv [OF Suc.prems this] Suc.IH [of s'] show ?case by simp
qed simp

lemma loop_returns:
  assumes "I s" and "tail s < cap s"
  shows "\<exists>s'. loop s = Some (Inr s') \<and> I s'"
  using loop_runs [OF assms] run_steps_inv [OF assms(1)] by metis

end

section \<open>The completion ring\<close>

lemma unat_succ_u16: "unat (w + 1 :: u16) = (if unat w = 65535 then 0 else unat w + 1)"
  using unsigned_less [of w, where 'a = nat] by (simp add: unat_word_ariths)

lemma cq_advance_simps [simp]:
  "cq_enabled (cq_advance cq) = cq_enabled cq" "cq_size (cq_advance cq) = cq_size cq"
  "cq_dma (cq_advance cq) = cq_dma cq" "cq_irq (cq_advance cq) = cq_irq cq"
  "cq_head (cq_advance cq) = cq_head cq" "cq_qid (cq_advance cq) = cq_qid cq"
  by (simp_all add: cq_advance_def Let_def)

text \<open>The test \<open>cq->tail == cq->size\<close> compares a 16-bit with a 32-bit number.\<close>

lemma cq_wrap_test: "ucast (t :: u16) = (z :: u32) \<longleftrightarrow> unat t = unat z"
  by (simp add: word_unat_eq_iff unat_ucast_up)

lemma cq_advance_ring:
  assumes "unat (cq_tail cq) < unat (cq_size cq)" and "unat (cq_size cq) < 65536"
  shows "unat (cq_tail (cq_advance cq)) = Suc (unat (cq_tail cq)) mod unat (cq_size cq)"
    and "cq_phase (cq_advance cq) =
      (if Suc (unat (cq_tail cq)) = unat (cq_size cq) then cq_phase cq XOR 1 else cq_phase cq)"
  using assms by (auto simp: cq_advance_def Let_def cq_wrap_test unat_succ_u16 mod_if)

lemma cq_advance_wf: "cq_wf cq \<Longrightarrow> cq_wf (cq_advance cq)"
  using unsigned_less [of "cq_tail cq", where 'a = nat]
  by (auto simp: cq_wf_def cq_advance_def Let_def cq_wrap_test unat_succ_u16)

text \<open>\<open>k\<close> completions later: position and phase of the ring.\<close>

lemma cq_advance_funpow:
  assumes t: "unat (cq_tail cq) < unat (cq_size cq)" and z: "unat (cq_size cq) < 65536"
  shows "cq_size ((cq_advance ^^ k) cq) = cq_size cq"
    and "unat (cq_tail ((cq_advance ^^ k) cq)) = (unat (cq_tail cq) + k) mod unat (cq_size cq)"
    and "cq_phase ((cq_advance ^^ k) cq) =
      (if even ((unat (cq_tail cq) + k) div unat (cq_size cq)) then cq_phase cq else cq_phase cq XOR 1)"
proof -
  let ?z = "unat (cq_size cq)" and ?t = "unat (cq_tail cq)"
  have "cq_size ((cq_advance ^^ k) cq) = cq_size cq \<and>
    unat (cq_tail ((cq_advance ^^ k) cq)) = (?t + k) mod ?z \<and>
    cq_phase ((cq_advance ^^ k) cq) = (if even ((?t + k) div ?z) then cq_phase cq else cq_phase cq XOR 1)"
  proof (induction k)
    case 0
    then show ?case using t by simp
  next
    case (Suc k)
    let ?c = "(cq_advance ^^ k) cq"
    have lt: "unat (cq_tail ?c) < unat (cq_size ?c)" "unat (cq_size ?c) < 65536"
      using Suc t z by simp_all
    note adv = cq_advance_ring [OF lt]
    have dv: "Suc (?t + k) div ?z = (if Suc ((?t + k) mod ?z) = ?z then Suc ((?t + k) div ?z) else (?t + k) div ?z)"
      by (simp add: div_Suc mod_Suc)
    show ?case
      using Suc adv by (auto simp: dv mod_Suc_eq xor.assoc)
  qed
  then show "cq_size ((cq_advance ^^ k) cq) = cq_size cq"
    and "unat (cq_tail ((cq_advance ^^ k) cq)) = (?t + k) mod ?z"
    and "cq_phase ((cq_advance ^^ k) cq) = (if even ((?t + k) div ?z) then cq_phase cq else cq_phase cq XOR 1)"
    by simp_all
qed

lemma nvme_post_cqe_inv:
  assumes "ctrl_inv n" and "n_csts n = 1" and "unat cqid < 64"
  obtains n' h' where "nvme_post_cqe vfu n cqid sqid hd0 cid cdw0 status h = Inr (n', h')"
    "ctrl_inv n'" "n_csts n' = n_csts n" "n_sq n' = n_sq n" "n_ns n' = n_ns n"
proof -
  have "cq_wf (n_cq n ! unat cqid)"
    using assms ctrl_invD [OF assms(1)] by (simp add: list_all_nthD)
  then have "\<exists>n' h'. nvme_post_cqe vfu n cqid sqid hd0 cid cdw0 status h = Inr (n', h') \<and>
    ctrl_inv n' \<and> n_csts n' = n_csts n \<and> n_sq n' = n_sq n \<and> n_ns n' = n_ns n"
    using assms ctrl_invD [OF assms(1)] regs_inv_readyD [of n]
    by (auto simp: nvme_post_cqe_def Let_def cq_advance_wf split: prod.splits
        intro!: ctrl_invI list_all_update regs_inv_ready)
  then show ?thesis using that by blast
qed

text \<open>A completion whose transfer succeeds, in guest memory.\<close>

lemma nvme_gpa_xfer_rc:
  assumes "vfu_ok vfu tr" and "fst (alloc h)" and "0 < len" and "vfu_addr_to_sgl vfu a len 8 w = Some sgs"
    and "sgs \<noteq> []" and "vfu_sgl_get vfu sgs = Some iov"
  shows "fst (nvme_gpa_xfer vfu a buf len w h) = 0"
proof -
  have cov: "length sgs \<le> 16" "length (iov_addrs iov) = len"
    using vfu_ok_covers(1,2) [OF assms(1,4)] assms(6) by (simp_all add: sgl_covers_def)
  then show ?thesis
    using assms nvme_sgl_copy_rc [OF assms(5) cov(1) assms(6), of len buf w "snd (alloc h)"]
    by (simp add: nvme_gpa_xfer_def split_def)
qed

lemma nvme_post_cqe_hmem:
  assumes ok: "vfu_ok vfu tr" and cq: "unat cqid < 64" "cq = n_cq n ! unat cqid" "cq_enabled cq"
    and slot: "slot = cq_dma cq + ucast (cq_tail cq) * 16"
    and cqe: "cqe = \<lparr>cqe_cdw0 = cdw0, cqe_cdw1 = 0, cqe_sq_head = hd0, cqe_sq_id = sqid, cqe_cid = cid,
       cqe_status = push_bit 1 status OR ucast (cq_phase cq AND 1)\<rparr>"
    and post: "nvme_post_cqe vfu n cqid sqid hd0 cid cdw0 status h = Inr (n', h')"
  shows "hmem h' = (if fst (nvme_gpa_xfer vfu slot (encode_cqe cqe) 16 True h) = 0
    then mem_writes (hmem h) (map tr [unat slot..<unat slot + 16]) (encode_cqe cqe) else hmem h)"
proof -
  obtain rc b h1 where x: "nvme_gpa_xfer vfu slot (encode_cqe cqe) 16 True h = (rc, b, h1)"
    by (metis prod.exhaust)
  have "hmem h' = hmem h1"
    using post cq x unfolding nvme_post_cqe_def Let_def cqe slot by (auto split: if_splits)
  then show ?thesis using nvme_gpa_xfer_to_host [OF ok _ _ x] by (simp add: x)
qed

lemma nvme_post_cqe_memory:
  assumes ok: "vfu_ok vfu tr" and cq: "unat cqid < 64" "cq = n_cq n ! unat cqid" "cq_enabled cq" "0 \<le> cq_irq cq"
    and slot: "slot = cq_dma cq + ucast (cq_tail cq) * 16"
    and rc: "\<And>buf. fst (nvme_gpa_xfer vfu slot buf 16 True h) = 0"
    and post: "nvme_post_cqe vfu n cqid sqid hd0 cid cdw0 status h = Inr (n', h')"
  shows "hmem h' = mem_writes (hmem h) (map tr [unat slot..<unat slot + 16])
      (encode_cqe \<lparr>cqe_cdw0 = cdw0, cqe_cdw1 = 0, cqe_sq_head = hd0, cqe_sq_id = sqid, cqe_cid = cid,
       cqe_status = push_bit 1 status OR ucast (cq_phase cq AND 1)\<rparr>)"
    and "n' = n\<lparr>n_cq := (n_cq n)[unat cqid := cq_advance cq]\<rparr>"
    and "irqs h' = irqs h @ [word_of_int (cq_irq cq)]"
proof -
  let ?cqe = "\<lparr>cqe_cdw0 = cdw0, cqe_cdw1 = 0, cqe_sq_head = hd0, cqe_sq_id = sqid, cqe_cid = cid,
       cqe_status = push_bit 1 status OR ucast (cq_phase cq AND 1)\<rparr>"
  obtain b h1 where x: "nvme_gpa_xfer vfu slot (encode_cqe ?cqe) 16 True h = (0, b, h1)"
    using rc [of "encode_cqe ?cqe"] by (metis prod.collapse)
  have "hmem h1 = mem_writes (hmem h) (map tr [unat slot..<unat slot + 16]) (encode_cqe ?cqe)"
    using nvme_gpa_xfer_to_host [OF ok _ _ x] by simp
  moreover have "irqs h1 = irqs h" using nvme_gpa_xfer_frame(2) [OF x] by simp
  moreover have "n' = n\<lparr>n_cq := (n_cq n)[unat cqid := cq_advance cq]\<rparr>"
    "h' = h1\<lparr>irqs := irqs h1 @ [word_of_int (cq_irq cq)]\<rparr>"
    using post cq x by (simp_all add: nvme_post_cqe_def Let_def slot)
  ultimately show "hmem h' = mem_writes (hmem h) (map tr [unat slot..<unat slot + 16]) (encode_cqe ?cqe)"
    "n' = n\<lparr>n_cq := (n_cq n)[unat cqid := cq_advance cq]\<rparr>"
    "irqs h' = irqs h @ [word_of_int (cq_irq cq)]"
    by simp_all
qed

section \<open>Commands\<close>

lemma ctrl_inv_ns: "ctrl_inv n \<Longrightarrow> kv_inv ns \<Longrightarrow> ctrl_inv (n\<lparr>n_ns := ns\<rparr>)"
  by (simp add: ctrl_inv_def ctrl_core_def regs_inv_def queues_off_def)

text \<open>A KV command returns without undefined behaviour and changes only the namespace.\<close>

lemma nvme_io_kv_inv:
  assumes inv: "ctrl_inv n"
  obtains st ns' h' where "nvme_io_kv vfu n sqe h = Inr (st, n\<lparr>n_ns := ns'\<rparr>, h')"
    "kv_inv ns'" "max_num_keys ns' = max_num_keys (n_ns n)" "ednek ns' = ednek (n_ns n)"
proof -
  note kv = ctrl_invD(7) [OF inv]
  let ?cmd = "kvcmd_of_sqe sqe"
  obtain s1 ns1 h1 where st1: "kv_store (kvdma vfu) ?cmd (n_ns n) h = Inr (s1, ns1, h1)"
      "kv_inv ns1" "max_num_keys ns1 = max_num_keys (n_ns n)" "ednek ns1 = ednek (n_ns n)"
    using kvdma.kv_store_refines [OF kv, of vfu ?cmd h] by (auto simp: refines_def)
  obtain s2 ns2 where st2: "kv_delete ?cmd (n_ns n) = Inr (s2, ns2)"
      "kv_inv ns2" "max_num_keys ns2 = max_num_keys (n_ns n)" "ednek ns2 = ednek (n_ns n)"
    using kv_delete_refines [OF kv] by metis
  consider (store) "sqe_opcode sqe = NVME_CMD_KV_STORE" | (del) "sqe_opcode sqe = NVME_CMD_KV_DELETE"
    | (rest) "sqe_opcode sqe \<noteq> NVME_CMD_KV_STORE" "sqe_opcode sqe \<noteq> NVME_CMD_KV_DELETE"
    by blast
  then show ?thesis
  proof cases
    case store
    then have "kvc_opcode ?cmd = 1" by (simp add: kvcmd_of_sqe_fields)
    with st1 show ?thesis by (intro that [of s1 ns1 h1]) (simp_all add: nvme_io_kv_def Let_def)
  next
    case del
    then have "kvc_opcode ?cmd = 0x10" by (simp add: kvcmd_of_sqe_fields)
    with st2 show ?thesis by (intro that [of s2 ns2 h]) (simp_all add: nvme_io_kv_def Let_def)
  next
    case rest
    have "n\<lparr>n_ns := n_ns n\<rparr> = n" by simp
    moreover have "\<exists>st h'. nvme_io_kv vfu n sqe h = Inr (st, n, h')"
    proof -
      have "kvc_opcode ?cmd \<noteq> 1" "kvc_opcode ?cmd \<noteq> 0x10" using rest by (simp_all add: kvcmd_of_sqe_fields)
      then show ?thesis by (simp add: nvme_io_kv_def Let_def split: prod.splits)
    qed
    ultimately show ?thesis using that kv by metis
  qed
qed

lemma nvme_exec_inv:
  assumes inv: "ctrl_inv n" and rdy: "n_csts n = 1"
  obtains st c n' h' where "nvme_exec vfu qid n sqe h = Inr (st, c, n', h')" "ctrl_inv n'"
    "n_csts n' = n_csts n" "n_sq n' ! unat qid = n_sq n ! unat qid"
proof (cases "qid = 0")
  case True
  obtain st c n' h' where "nvme_admin_cmd vfu n sqe h = Inr (st, c, n', h')" "ctrl_inv n'" "admin_frame n n'"
    by (rule nvme_admin_cmd_inv [OF inv rdy])
  then show ?thesis using that True by (simp add: nvme_exec_def admin_frame_def)
next
  case False
  obtain st ns' h' where "nvme_io_kv vfu n sqe h = Inr (st, n\<lparr>n_ns := ns'\<rparr>, h')" "kv_inv ns'"
    by (rule nvme_io_kv_inv [OF inv])
  then show ?thesis using that False ctrl_inv_ns [OF inv] by (simp add: nvme_exec_def)
qed

section \<open>What commands do to the host\<close>

text \<open>
  Every transfer and every command changes the host only by allocations and by writes to guest
  memory. A predicate that these two keep is kept by every command; the lemmas are proved
  once for such a predicate and used for two: that allocations succeed, and the interrupts
  raised so far.
\<close>

locale host_predicate =
  fixes P :: "host \<Rightarrow> bool"
  assumes P_alloc: "P h \<Longrightarrow> P (snd (alloc h))"
    and P_hmem: "P h \<Longrightarrow> P (h\<lparr>hmem := m\<rparr>)"
begin

lemma sgl_copy_loop: "P h \<Longrightarrow> P (snd (snd (nvme_sgl_copy_loop iov dn len w buf h)))"
  by (induction iov arbitrary: dn buf h) (auto simp: Let_def P_hmem)

lemma sgl_copy: "P h \<Longrightarrow> P (snd (snd (nvme_sgl_copy vfu sgs buf len w h)))"
  using sgl_copy_loop [of h _ 0 len w buf]
  by (auto simp: nvme_sgl_copy_def split_def Let_def split: option.splits)

lemma xfer_shape:
  assumes "r \<in> {(0, buf, h), (-1, buf, snd (alloc h))} \<union> range (\<lambda>sgs. nvme_sgl_copy vfu sgs buf len w (snd (alloc h)))"
    and "P h"
  shows "P (snd (snd r))"
proof -
  consider "r = (0, buf, h)" | "r = (-1, buf, snd (alloc h))"
    | sgs where "r = nvme_sgl_copy vfu sgs buf len w (snd (alloc h))"
    using assms(1) by blast
  then show ?thesis by cases (simp_all add: assms(2) P_alloc sgl_copy)
qed

lemma xfer:
  assumes "P h"
  shows "P (snd (snd (nvme_prp_xfer vfu prp1 prp2 buf len w h)))"
    and "P (snd (snd (nvme_gpa_xfer vfu gpa buf len w h)))"
  by (rule xfer_shape [OF _ assms], rule nvme_xfer_shape)+

lemma dma:
  assumes "P h"
  shows "P (snd (snd (h2c (kvdma vfu) cmd v n h)))" and "P (snd (c2h (kvdma vfu) cmd v n h))"
  using xfer(1) [OF assms] by (simp_all add: kvdma_def kvdma_h2c_def kvdma_c2h_def split_def Let_def)

lemma store:
  assumes "P h"
  shows "P (snd (snd (spec_store (kvdma vfu) cmd mx full m h)))"
  using dma(1) [OF assms] dma(1) [OF P_alloc [OF assms]] P_alloc [OF assms] assms
  by (auto simp: spec_store_def Let_def split_def split: option.splits)

lemma retrieve: "P h \<Longrightarrow> P (snd (kv_retrieve (kvdma vfu) cmd ns h))"
  using dma(2) [of h] by (auto simp: kv_retrieve_def Let_def split_def split: option.splits)

lemma list_loop: "P h \<Longrightarrow> P (snd (kv_list_loop hbs ps rds n h))"
proof (induction ps arbitrary: rds n h)
  case (Cons p ps)
  then show ?case using P_alloc [OF Cons.prems] by (cases "alloc h") (simp add: Let_def)
qed simp

lemma list_cmd:
  assumes "P h"
  shows "P (snd (kv_list (kvdma vfu) cmd ns h))"
proof -
  have l: "P (snd (kv_list_loop hbs ps rds n (snd (alloc h))))" for hbs ps rds n
    by (rule list_loop [OF P_alloc [OF assms]])
  then have "P (snd (c2h (kvdma vfu) cmd rds' n' (snd (kv_list_loop hbs ps rds n (snd (alloc h))))))"
    for hbs ps rds n rds' n'
    by (rule dma(2))
  with l P_alloc [OF assms] show ?thesis
    by (simp add: kv_list_def Let_def split_def split: option.splits)
qed

lemma io_kv:
  assumes ok: "P h" and inv: "ctrl_inv n" and io: "nvme_io_kv vfu n sqe h = Inr (st, n', h')"
  shows "P h'"
proof -
  have put: "P h1" if "kv_store (kvdma vfu) (kvcmd_of_sqe sqe) (n_ns n) h = Inr (s1, ns1, h1)" for s1 ns1 h1
    using kvdma.kv_store_refines [OF ctrl_invD(7) [OF inv], of vfu "kvcmd_of_sqe sqe" h] that
      store [OF ok] by (auto simp: refines_def)
  show ?thesis
    using io ok retrieve [OF ok] list_cmd [OF ok]
    by (auto simp: nvme_io_kv_def Let_def split_def split: if_splits sum.splits dest: put)
qed

lemma exec:
  assumes ok: "P h" and inv: "ctrl_inv n" and ex: "nvme_exec vfu qid n sqe h = Inr (st, c, n', h')"
  shows "P h'"
proof (cases "qid = 0")
  case True
  then have "nvme_admin_cmd vfu n sqe h = Inr (st, c, n', h')" using ex by (simp add: nvme_exec_def)
  then show ?thesis
    using ok xfer(1) [OF ok]
    by (auto simp: nvme_admin_cmd_def nvme_admin_identify_def Let_def split_def
        split: if_splits sum.splits option.splits)
next
  case False
  then have "nvme_io_kv vfu n sqe h = Inr (st, n', h')"
    using ex by (auto simp: nvme_exec_def split: sum.splits)
  then show ?thesis by (rule io_kv [OF ok inv])
qed

end

definition heap_ok :: "'s heap_scheme \<Rightarrow> bool" where
  "heap_ok h \<longleftrightarrow> (\<forall>i. allocs h i)"

lemma heap_ok_upd [simp]: "heap_ok (h\<lparr>irqs := x\<rparr>) = heap_ok h" "heap_ok (h\<lparr>hmem := m\<rparr>) = heap_ok h"
  by (simp_all add: heap_ok_def)

lemma heap_ok_alloc_fst: "heap_ok h \<Longrightarrow> fst (alloc h)"
  by (simp add: heap_ok_def alloc_def)

interpretation heap: host_predicate heap_ok
  by unfold_locales (simp_all add: heap_ok_def alloc_def)

interpretation irq: host_predicate "\<lambda>h. irqs h = xs" for xs
  by unfold_locales (simp_all add: alloc_def)

lemma heap_ok_post_cqe:
  "heap_ok h \<Longrightarrow> nvme_post_cqe vfu n cqid sqid hd0 cid cdw0 st h = Inr (n', h') \<Longrightarrow> heap_ok h'"
  using heap.xfer(2) [of h]
  by (auto simp: nvme_post_cqe_def Let_def split_def split: if_splits)

section \<open>One iteration\<close>

text \<open>The head of the submission ring: 16-bit head, 32-bit size.\<close>

lemma sq_head_next:
  assumes "0 < unat (z :: u32)" and "unat z \<le> 65536"
  shows "unat (ucast ((ucast (w :: u16) + 1 :: u32) mod z) :: u16) = Suc (unat w) mod unat z"
proof -
  have "unat (ucast w + 1 :: u32) = Suc (unat w)"
    using unsigned_less [of w, where 'a = nat] by (simp add: unat_word_ariths unat_ucast_up)
  then have "unat ((ucast w + 1 :: u32) mod z) = Suc (unat w) mod unat z"
    by (simp add: unat_mod_distrib)
  moreover have "Suc (unat w) mod unat z < 65536"
    using assms mod_less_divisor [of "unat z" "Suc (unat w)"] by linarith
  ultimately show ?thesis by (simp add: unsigned_ucast_eq take_bit_eq_mod)
qed

definition sq_live :: "u16 \<Rightarrow> nvme_ctrl \<Rightarrow> bool" where
  "sq_live qid n \<longleftrightarrow> ctrl_inv n \<and> unat qid < NVME_MAX_QUEUES \<and> sq_enabled (n_sq n ! unat qid)"

lemma sq_liveD:
  assumes "sq_live qid n"
  shows "ctrl_inv n" "unat qid < 64" "n_csts n = 1" "sq_wf (n_sq n ! unat qid)"
    "sq_enabled (n_sq n ! unat qid)"
  using assms ctrl_invD [of n] enabled_ready [of n "unat qid"]
  by (auto simp: sq_live_def intro: list_all_nthD)

text \<open>
  One iteration of the loop, for a live queue: the fetch fails and the controller is unchanged,
  or the head moves on and every other field of the queue stays.
\<close>

lemma nvme_process_one_live:
  assumes live: "sq_live qid n"
  obtains (fault) h' where "nvme_process_one vfu qid (n, h) = Inr (False, n, h')"
    | (ran) n' h' where "nvme_process_one vfu qid (n, h) = Inr (True, n', h')" "sq_live qid n'"
        "n_sq n' ! unat qid = (n_sq n ! unat qid)\<lparr>sq_head :=
           ucast ((ucast (sq_head (n_sq n ! unat qid)) + 1 :: u32) mod sq_size (n_sq n ! unat qid))\<rparr>"
        "heap_ok h \<longrightarrow> heap_ok h'"
proof -
  note D = sq_liveD [OF live]
  let ?q = "unat qid" and ?sq = "n_sq n ! unat qid"
  let ?sq1 = "?sq\<lparr>sq_head := ucast ((ucast (sq_head ?sq) + 1 :: u32) mod sq_size ?sq)\<rparr>"
  let ?n1 = "n\<lparr>n_sq := (n_sq n)[?q := ?sq1]\<rparr>"
  obtain rc b h1 where f: "nvme_gpa_xfer vfu (sq_dma ?sq + ucast (sq_head ?sq) * 64)
      (map (junk h) [0..<64]) 64 False h = (rc, b, h1)" by (metis prod.exhaust)
  show ?thesis
  proof (cases "rc = 0")
    case False
    with f show ?thesis by (intro fault) (simp add: nvme_process_one_def Let_def)
  next
    case True
    have sz: "0 < unat (sq_size ?sq)" "unat (sq_size ?sq) \<le> 65536" "unat (sq_cqid ?sq) < 64"
      using D(4,5) by (simp_all add: sq_wf_def)
    then have sz0: "sq_size ?sq \<noteq> 0" by auto
    have "sq_wf ?sq1" using D(4,5) sz by (simp add: sq_wf_def sq_head_next)
    then have inv1: "ctrl_inv ?n1" "n_csts ?n1 = 1" "n_sq ?n1 ! ?q = ?sq1"
      using D ctrl_invD [OF D(1)] regs_inv_readyD [of n]
      by (auto intro!: ctrl_invI list_all_update regs_inv_ready)
    obtain st c n2 h2 where ex: "nvme_exec vfu qid ?n1 (decode_sqe b) h1 = Inr (st, c, n2, h2)"
        "ctrl_inv n2" "n_csts n2 = n_csts ?n1" "n_sq n2 ! ?q = n_sq ?n1 ! ?q"
      by (rule nvme_exec_inv [OF inv1(1,2)])
    have cq: "unat (sq_cqid (n_sq n2 ! ?q)) < 64" "n_csts n2 = 1"
      using ex inv1 sz by simp_all
    obtain n3 h3 where po: "nvme_post_cqe vfu n2 (sq_cqid (n_sq n2 ! ?q)) qid (sq_head (n_sq n2 ! ?q))
        (sqe_cid (decode_sqe b)) c st h2 = Inr (n3, h3)" "ctrl_inv n3" "n_sq n3 = n_sq n2"
      by (rule nvme_post_cqe_inv [OF ex(2) cq(2,1)])
    have l: "sq_live qid n2" "sq_live qid n3" "n_sq n2 ! ?q = ?sq1" "n_sq n3 ! ?q = ?sq1"
      using ex po inv1 D by (simp_all add: sq_live_def)
    have "heap_ok h \<Longrightarrow> heap_ok h1" using heap.xfer(2) f by (metis snd_conv)
    then have ok: "heap_ok h \<longrightarrow> heap_ok h2 \<and> heap_ok h3"
      using heap.exec [OF _ inv1(1) ex(1)] heap_ok_post_cqe [OF _ po(1)] by blast
    show ?thesis
    proof (cases "st = 0xffff")
      case True
      with f ex(1) \<open>rc = 0\<close> sz0 l ok show ?thesis
        by (intro ran [of n2 h2]) (simp_all add: nvme_process_one_def Let_def)
    next
      case False
      with f ex(1) \<open>rc = 0\<close> sz0 l po(1) ok show ?thesis
        by (intro ran [of n3 h3]) (simp_all add: nvme_process_one_def Let_def)
    qed
  qed
qed

interpretation sq: ring_consumer "nvme_process_one vfu qid" "nvme_process_sq_loop vfu qid"
    "\<lambda>s. sq_live qid (fst s)" "\<lambda>s. unat (sq_head (n_sq (fst s) ! unat qid))"
    "\<lambda>s. unat (sq_tail (n_sq (fst s) ! unat qid))" "\<lambda>s. unat (sq_size (n_sq (fst s) ! unat qid))"
  for vfu :: "'sg vfu_ctx" and qid :: u16
proof
  fix s :: "nvme_ctrl \<times> host"
  assume live: "sq_live qid (fst s)"
  obtain n h where s: "s = (n, h)" by fastforce
  with live have "sq_live qid n" by simp
  note one = nvme_process_one_live [OF this, of vfu h]
  show "nvme_process_sq_loop vfu qid s =
     (if unat (sq_head (n_sq (fst s) ! unat qid)) = unat (sq_tail (n_sq (fst s) ! unat qid)) then Some (Inr s)
      else case nvme_process_one vfu qid s of
          Inl e \<Rightarrow> Some (Inl e)
        | Inr (go, s') \<Rightarrow> if go then nvme_process_sq_loop vfu qid s' else Some (Inr s'))"
    by (subst nvme_process_sq_loop.simps) (simp add: word_unat_eq_iff)
  show "\<exists>go s'. nvme_process_one vfu qid s = Inr (go, s')"
    by (rule one) (auto simp: s)
  show "unat (sq_head (n_sq (fst s) ! unat qid)) < unat (sq_size (n_sq (fst s) ! unat qid))"
    using sq_liveD [OF live] by (simp add: sq_wf_def)
  fix go s'
  show "sq_live qid (fst s')" if "nvme_process_one vfu qid s = Inr (go, s')"
    by (rule one) (use that s \<open>sq_live qid n\<close> in auto)
  show "unat (sq_head (n_sq (fst s') ! unat qid)) =
        Suc (unat (sq_head (n_sq (fst s) ! unat qid))) mod unat (sq_size (n_sq (fst s) ! unat qid)) \<and>
      unat (sq_tail (n_sq (fst s') ! unat qid)) = unat (sq_tail (n_sq (fst s) ! unat qid)) \<and>
      unat (sq_size (n_sq (fst s') ! unat qid)) = unat (sq_size (n_sq (fst s) ! unat qid))"
    if "nvme_process_one vfu qid s = Inr (True, s')"
    by (rule one) (use that s sq_liveD(4,5) [OF live] in \<open>auto simp: sq_wf_def sq_head_next\<close>)
qed

section \<open>The whole call\<close>

text \<open>Induction over the iterations of a loop that returns.\<close>

lemma nvme_process_sq_loop_induct [consumes 1, case_names empty ub fault ran]:
  assumes "nvme_process_sq_loop vfu qid s = Some r"
    and empty: "\<And>s. sq_head (n_sq (fst s) ! unat qid) = sq_tail (n_sq (fst s) ! unat qid) \<Longrightarrow> Q s (Inr s)"
    and ub: "\<And>s u. sq_head (n_sq (fst s) ! unat qid) \<noteq> sq_tail (n_sq (fst s) ! unat qid) \<Longrightarrow>
      nvme_process_one vfu qid s = Inl u \<Longrightarrow> Q s (Inl u)"
    and fault: "\<And>s s'. sq_head (n_sq (fst s) ! unat qid) \<noteq> sq_tail (n_sq (fst s) ! unat qid) \<Longrightarrow>
      nvme_process_one vfu qid s = Inr (False, s') \<Longrightarrow> Q s (Inr s')"
    and ran: "\<And>s s' r. sq_head (n_sq (fst s) ! unat qid) \<noteq> sq_tail (n_sq (fst s) ! unat qid) \<Longrightarrow>
      nvme_process_one vfu qid s = Inr (True, s') \<Longrightarrow> Q s' r \<Longrightarrow> Q s r"
  shows "Q s r"
proof -
  have "vfu = vfu \<longrightarrow> qid = qid \<longrightarrow> Q s r"
  proof (rule nvme_process_sq_loop.raw_induct [OF _ assms(1),
        where P = "\<lambda>v q s r. v = vfu \<longrightarrow> q = qid \<longrightarrow> Q s r"], intro impI)
    fix loop :: "'a vfu_ctx \<Rightarrow> u16 \<Rightarrow> nvme_ctrl \<times> host \<Rightarrow> (ub + nvme_ctrl \<times> host) option" and v q s r
    assume IH: "\<And>v q s r. loop v q s = Some r \<Longrightarrow> v = vfu \<longrightarrow> q = qid \<longrightarrow> Q s r"
      and body: "(if sq_head (n_sq (fst s) ! unat q) = sq_tail (n_sq (fst s) ! unat q) then Some (Inr s)
        else case nvme_process_one v q s of
            Inl u \<Rightarrow> Some (Inl u)
          | Inr (go, s') \<Rightarrow> if go then loop v q s' else Some (Inr s')) = Some r"
      and eq: "v = vfu" "q = qid"
    show "Q s r"
    proof (cases "sq_head (n_sq (fst s) ! unat qid) = sq_tail (n_sq (fst s) ! unat qid)")
      case True
      with empty [OF True] body show ?thesis by (simp add: eq)
    next
      case False
      consider (U) u where "nvme_process_one vfu qid s = Inl u"
        | (F) s' where "nvme_process_one vfu qid s = Inr (False, s')"
        | (R) s' where "nvme_process_one vfu qid s = Inr (True, s')"
        by (metis (full_types) obj_sumE prod.exhaust)
      then show ?thesis
      proof cases
        case U
        with ub [OF False U] body False show ?thesis by (simp add: eq)
      next
        case F
        with fault [OF False F] body False show ?thesis by (simp add: eq)
      next
        case R
        with body False have "loop vfu qid s' = Some r" by (simp add: eq)
        with IH have "Q s' r" by simp
        then show ?thesis by (rule ran [OF False R])
      qed
    qed
  qed
  then show ?thesis by simp
qed

text \<open>
  The rule for a call that returns, whatever the doorbell says: a property that every iteration
  keeps holds of the result, and the loop ended because the ring was empty or a fetch failed.
\<close>

lemma nvme_process_sq_loop_rule:
  assumes "nvme_process_sq_loop vfu qid s = Some r" and "P s"
    and step: "\<And>s. P s \<Longrightarrow> \<exists>go s'. nvme_process_one vfu qid s = Inr (go, s') \<and> P s'"
  shows "\<exists>s'. r = Inr s' \<and> P s' \<and>
    (sq_head (n_sq (fst s') ! unat qid) = sq_tail (n_sq (fst s') ! unat qid) \<or>
     (\<exists>s0. P s0 \<and> nvme_process_one vfu qid s0 = Inr (False, s')))"
  using assms(1,2)
proof (induction rule: nvme_process_sq_loop_induct)
  case (ub s u)
  then show ?case using step [of s] by auto
next
  case (fault s s')
  then show ?case using step [of s] by (auto simp del: split_paired_Ex)
next
  case (ran s s' r)
  then show ?case using step [of s] by auto
qed simp

lemma nvme_process_sq_loop_inv:
  assumes "nvme_process_sq_loop vfu qid s = Some r" and "sq_live qid (fst s)"
  shows "\<exists>s'. r = Inr s' \<and> sq_live qid (fst s')"
  using nvme_process_sq_loop_rule [OF assms(1), of "\<lambda>s. sq_live qid (fst s)"] assms(2)
    sq.step_total sq.step_inv by metis

lemma nvme_process_sq_inv:
  assumes "ctrl_inv n" and "unat qid < 64" and "nvme_process_sq vfu qid n h = Some r"
  shows "\<exists>n' h'. r = Inr (n', h') \<and> ctrl_inv n'"
proof (cases "sq_enabled (n_sq n ! unat qid)")
  case True
  then have "sq_live qid n" using assms(1,2) by (simp add: sq_live_def)
  with nvme_process_sq_loop_inv [of vfu qid "(n, h)" r] assms True show ?thesis
    by (auto simp: nvme_process_sq_def sq_live_def)
qed (use assms in \<open>auto simp: nvme_process_sq_def\<close>)

lemma nvme_process_sq_returns:
  assumes "ctrl_inv n" and "unat qid < 64"
    and "unat (sq_tail (n_sq n ! unat qid)) < unat (sq_size (n_sq n ! unat qid)) \<or>
      \<not> sq_enabled (n_sq n ! unat qid)"
  shows "\<exists>n' h'. nvme_process_sq vfu qid n h = Some (Inr (n', h')) \<and> ctrl_inv n'"
proof (cases "sq_enabled (n_sq n ! unat qid)")
  case True
  then have "sq_live qid n" using assms(1,2) by (simp add: sq_live_def)
  with sq.loop_returns [of qid "(n, h)" vfu] assms True show ?thesis
    by (auto simp: nvme_process_sq_def sq_live_def)
qed (use assms in \<open>auto simp: nvme_process_sq_def\<close>)

section \<open>One KV command\<close>

text \<open>No KV command suppresses its completion.\<close>

lemma spec_store_status: "fst (spec_store dma cmd mx full m s) \<noteq> NVME_NO_COMPLETE"
  by (auto simp: spec_store_def Let_def split_def split: option.splits)

lemma nvme_io_kv_status:
  assumes "ctrl_inv n" and "nvme_io_kv vfu n sqe h = Inr (st, n', h')"
  shows "st \<noteq> NVME_NO_COMPLETE"
proof -
  let ?cmd = "kvcmd_of_sqe sqe"
  have "fst (kv_retrieve (kvdma vfu) ?cmd (n_ns n) h) \<noteq> 0xffff" "kv_exist ?cmd (n_ns n) \<noteq> 0xffff"
    "fst (kv_list (kvdma vfu) ?cmd (n_ns n) h) \<noteq> 0xffff"
    by (auto simp: kv_retrieve_def kv_exist_def kv_list_def Let_def split_def split: option.splits)
  moreover have "s1 \<noteq> 0xffff" if "kv_delete ?cmd (n_ns n) = Inr (s1, ns1)" for s1 ns1
    using that by (auto simp: kv_delete_def split: if_splits option.splits)
  moreover have "s1 \<noteq> 0xffff" if "kv_store (kvdma vfu) ?cmd (n_ns n) h = Inr (s1, ns1, h1)" for s1 ns1 h1
    using kvdma.kv_store_refines [OF ctrl_invD(7) [OF assms(1)], of vfu ?cmd h] that
    by (auto simp: refines_def spec_store_status)
  ultimately show ?thesis
    using assms(2) by (auto simp: nvme_io_kv_def Let_def split_def split: if_splits sum.splits)
qed

lemma ctrl_inv_sq_head:
  assumes live: "sq_live qid n"
  shows "ctrl_inv (n\<lparr>n_sq := (n_sq n)[unat qid := (n_sq n ! unat qid)\<lparr>sq_head :=
    ucast ((ucast (sq_head (n_sq n ! unat qid)) + 1 :: u32) mod sq_size (n_sq n ! unat qid))\<rparr>]\<rparr>)"
proof -
  note D = sq_liveD [OF live]
  have "sq_wf ((n_sq n ! unat qid)\<lparr>sq_head :=
      ucast ((ucast (sq_head (n_sq n ! unat qid)) + 1 :: u32) mod sq_size (n_sq n ! unat qid))\<rparr>)"
    using D(4,5) by (simp add: sq_wf_def sq_head_next)
  then show ?thesis
    using D ctrl_invD [OF D(1)] regs_inv_readyD [of n]
    by (auto intro!: ctrl_invI list_all_update regs_inv_ready)
qed

text \<open>
  One iteration on any live queue: the entry at the head is fetched from guest memory, executed,
  and completed on the completion queue of the submission queue unless the status says not to.
\<close>

lemma nvme_process_one_exec:
  assumes ok: "vfu_ok vfu tr" and live: "sq_live qid n"
    and sq: "sq = n_sq n ! unat qid" and slot: "slot = sq_dma sq + ucast (sq_head sq) * 64"
    and one: "nvme_process_one vfu qid (n, h) = Inr (True, n', h')"
    and sq1: "sq1 = sq\<lparr>sq_head := ucast ((ucast (sq_head sq) + 1 :: u32) mod sq_size sq)\<rparr>"
    and n1: "n1 = n\<lparr>n_sq := (n_sq n)[unat qid := sq1]\<rparr>"
  obtains sqe st c n2 h1 h2 where
    "encode_sqe sqe = map (\<lambda>a. hmem h (tr a)) [unat slot..<unat slot + 64]"
    "hmem h1 = hmem h" "irqs h1 = irqs h" "heap_ok h \<longrightarrow> heap_ok h1"
    "nvme_exec vfu qid n1 sqe h1 = Inr (st, c, n2, h2)" "ctrl_inv n1" "n_sq n2 ! unat qid = sq1"
    "st = NVME_NO_COMPLETE \<and> n' = n2 \<and> h' = h2 \<or> st \<noteq> NVME_NO_COMPLETE \<and>
     nvme_post_cqe vfu n2 (sq_cqid sq) qid (sq_head sq1) (sqe_cid sqe) c st h2 = Inr (n', h')"
    "nvme_gpa_xfer vfu slot (map (junk h) [0..<64]) 64 False h = (0, encode_sqe sqe, h1)"
proof -
  note D = sq_liveD [OF live]
  obtain rc b h1 where f: "nvme_gpa_xfer vfu slot (map (junk h) [0..<64]) 64 False h = (rc, b, h1)"
    by (metis prod.exhaust)
  have rc: "rc = 0" using one f by (auto simp: nvme_process_one_def Let_def sq slot split: if_splits)
  have b: "b = map (\<lambda>a. hmem h (tr a)) [unat slot..<unat slot + 64]"
    using nvme_gpa_xfer_from_host [OF ok _ _ f] rc by simp
  have h1: "hmem h1 = hmem h" "irqs h1 = irqs h"
    using nvme_gpa_xfer_frame [OF f] by simp_all
  have hp: "heap_ok h \<longrightarrow> heap_ok h1" using heap.xfer(2) f by (metis snd_conv)
  have inv1: "ctrl_inv n1" "n_csts n1 = 1"
    using ctrl_inv_sq_head [OF live] D(3) by (simp_all add: n1 sq sq1)
  have sq1': "n_sq n1 ! unat qid = sq1" using D(2) ctrl_invD(1) [OF D(1)] by (simp add: n1)
  obtain st c n2 h2 where ex: "nvme_exec vfu qid n1 (decode_sqe b) h1 = Inr (st, c, n2, h2)"
      "n_sq n2 ! unat qid = n_sq n1 ! unat qid"
    by (rule nvme_exec_inv [OF inv1])
  have "sq_size sq \<noteq> 0" using D(4,5) by (auto simp: sq_wf_def sq)
  then have "st = NVME_NO_COMPLETE \<and> n' = n2 \<and> h' = h2 \<or> st \<noteq> NVME_NO_COMPLETE \<and>
     nvme_post_cqe vfu n2 (sq_cqid sq) qid (sq_head sq1) (sqe_cid (decode_sqe b)) c st h2 = Inr (n', h')"
    using one f rc ex sq1' unfolding nvme_process_one_def slot sq n1 sq1
    by (auto simp: Let_def split: if_splits sum.splits)
  then show ?thesis
    using that [of "decode_sqe b" h1 st c n2 h2] b encode_decode_sqe [of b] h1 hp ex inv1(1) sq1' f rc by simp
qed

text \<open>
  One iteration on an I/O queue: \<open>nvme_io_kv\<close> executes the entry, and the completion is posted
  once.
\<close>

lemma nvme_process_one_io:
  assumes ok: "vfu_ok vfu tr" and live: "sq_live qid n" and io: "qid \<noteq> 0"
    and sq: "sq = n_sq n ! unat qid" and slot: "slot = sq_dma sq + ucast (sq_head sq) * 64"
    and cq: "cq = n_cq n ! unat (sq_cqid sq)" "cq_enabled cq" "0 \<le> cq_irq cq"
    and one: "nvme_process_one vfu qid (n, h) = Inr (True, n', h')"
    and n1: "n1 = n\<lparr>n_sq := (n_sq n)[unat qid := sq\<lparr>sq_head := ucast ((ucast (sq_head sq) + 1 :: u32) mod sq_size sq)\<rparr>]\<rparr>"
  obtains sqe st ns' h1 h2 where
    "encode_sqe sqe = map (\<lambda>a. hmem h (tr a)) [unat slot..<unat slot + 64]" "hmem h1 = hmem h"
    "nvme_io_kv vfu n1 sqe h1 = Inr (st, n1\<lparr>n_ns := ns'\<rparr>, h2)" "kv_inv ns'"
    "n' = n1\<lparr>n_ns := ns', n_cq := (n_cq n)[unat (sq_cqid sq) := cq_advance cq]\<rparr>"
    "irqs h' = irqs h @ [word_of_int (cq_irq cq)]" "heap_ok h \<longrightarrow> heap_ok h1"
    "nvme_post_cqe vfu (n1\<lparr>n_ns := ns'\<rparr>) (sq_cqid sq) qid
       (ucast ((ucast (sq_head sq) + 1 :: u32) mod sq_size sq)) (sqe_cid sqe) 0 st h2 = Inr (n', h')"
    "nvme_gpa_xfer vfu slot (map (junk h) [0..<64]) 64 False h = (0, encode_sqe sqe, h1)"
proof -
  note D = sq_liveD [OF live]
  obtain sqe st c n2 h1 h2 where e:
    "encode_sqe sqe = map (\<lambda>a. hmem h (tr a)) [unat slot..<unat slot + 64]"
    "hmem h1 = hmem h" "irqs h1 = irqs h" "heap_ok h \<longrightarrow> heap_ok h1"
    "nvme_exec vfu qid n1 sqe h1 = Inr (st, c, n2, h2)" "ctrl_inv n1"
    "st = NVME_NO_COMPLETE \<and> n' = n2 \<and> h' = h2 \<or> st \<noteq> NVME_NO_COMPLETE \<and>
     nvme_post_cqe vfu n2 (sq_cqid sq) qid
       (sq_head (sq\<lparr>sq_head := ucast ((ucast (sq_head sq) + 1 :: u32) mod sq_size sq)\<rparr>)) (sqe_cid sqe) c st h2 = Inr (n', h')"
    "nvme_gpa_xfer vfu slot (map (junk h) [0..<64]) 64 False h = (0, encode_sqe sqe, h1)"
    by (rule nvme_process_one_exec [OF ok live sq slot one refl n1])
  obtain st' ns' h2' where k: "nvme_io_kv vfu n1 sqe h1 = Inr (st', n1\<lparr>n_ns := ns'\<rparr>, h2')" "kv_inv ns'"
    by (rule nvme_io_kv_inv [OF e(6)])
  then have eq: "st' = st" "c = 0" "n2 = n1\<lparr>n_ns := ns'\<rparr>" "h2' = h2"
    using e(5) io by (simp_all add: nvme_exec_def)
  have st: "st \<noteq> NVME_NO_COMPLETE" using nvme_io_kv_status [OF e(6) k(1)] eq(1) by simp
  have ir: "irqs h2 = irqs h" using irq.io_kv [OF e(3,6) k(1)] eq(4) by simp
  have sz: "unat (sq_cqid sq) < 64" using D(4,5) by (simp add: sq_wf_def sq)
  have post: "nvme_post_cqe vfu (n1\<lparr>n_ns := ns'\<rparr>) (sq_cqid sq) qid
       (ucast ((ucast (sq_head sq) + 1 :: u32) mod sq_size sq)) (sqe_cid sqe) 0 st h2 = Inr (n', h')"
    using e(7) st eq by simp
  then have "n' = n1\<lparr>n_ns := ns', n_cq := (n_cq n)[unat (sq_cqid sq) := cq_advance cq]\<rparr>"
    "irqs h' = irqs h @ [word_of_int (cq_irq cq)]"
    using sz cq ir irq.xfer(2) [OF ir]
    by (auto simp: nvme_post_cqe_def Let_def n1 split_def)
  then show ?thesis using that e(1,2,4,8) k eq post by blast
qed

section \<open>A doorbell outside the ring\<close>

text \<open>Every slot of a submission ring can be fetched.\<close>

definition fetchable :: "'sg vfu_ctx \<Rightarrow> u64 \<Rightarrow> bool" where
  "fetchable vfu a \<longleftrightarrow> (\<exists>sgs iov. vfu_addr_to_sgl vfu a 64 8 False = Some sgs \<and> sgs \<noteq> [] \<and>
     length sgs \<le> 16 \<and> vfu_sgl_get vfu sgs = Some iov \<and> 64 \<le> length (iov_addrs iov))"

definition ring_mapped :: "'sg vfu_ctx \<Rightarrow> nvme_sq \<Rightarrow> bool" where
  "ring_mapped vfu sq \<longleftrightarrow> (\<forall>i. unat i < unat (sq_size sq) \<longrightarrow> fetchable vfu (sq_dma sq + ucast (i :: u16) * 64))"

lemma fetchable_xfer:
  assumes "heap_ok h" and "fetchable vfu a"
  shows "fst (nvme_gpa_xfer vfu a buf 64 False h) = 0"
proof -
  obtain sgs iov where g: "vfu_addr_to_sgl vfu a 64 8 False = Some sgs" "sgs \<noteq> []" "length sgs \<le> 16"
      "vfu_sgl_get vfu sgs = Some iov" "64 \<le> length (iov_addrs iov)"
    using assms(2) by (auto simp: fetchable_def)
  have "fst (alloc h)" by (rule heap_ok_alloc_fst [OF assms(1)])
  then show ?thesis
    using g(1,2) nvme_sgl_copy_rc [OF g(2-5), of buf False "snd (alloc h)"]
    by (simp add: nvme_gpa_xfer_def split_def)
qed

text \<open>A command that can be fetched is executed.\<close>

lemma nvme_process_one_fetched:
  assumes live: "sq_live qid n" and ok: "heap_ok h" and ring: "ring_mapped vfu (n_sq n ! unat qid)"
  obtains n' h' where "nvme_process_one vfu qid (n, h) = Inr (True, n', h')" "sq_live qid n'" "heap_ok h'"
    "n_sq n' ! unat qid = (n_sq n ! unat qid)\<lparr>sq_head :=
       ucast ((ucast (sq_head (n_sq n ! unat qid)) + 1 :: u32) mod sq_size (n_sq n ! unat qid))\<rparr>"
proof -
  let ?sq = "n_sq n ! unat qid"
  have "unat (sq_head ?sq) < unat (sq_size ?sq)" using sq_liveD(4,5) [OF live] by (simp add: sq_wf_def)
  then have rc: "fst (nvme_gpa_xfer vfu (sq_dma ?sq + ucast (sq_head ?sq) * 64) buf 64 False h) = 0" for buf
    using ring by (intro fetchable_xfer [OF ok]) (simp add: ring_mapped_def)
  show ?thesis
    using live
  proof (cases rule: nvme_process_one_live [of qid n vfu h])
    case (fault h')
    then show ?thesis using rc
      by (auto simp: nvme_process_one_def Let_def split_def split: if_splits sum.splits)
  next
    case (ran n' h')
    then show ?thesis using that ok by blast
  qed
qed

definition sq_stuck :: "'sg vfu_ctx \<Rightarrow> u16 \<Rightarrow> nvme_ctrl \<times> host \<Rightarrow> bool" where
  "sq_stuck vfu qid s \<longleftrightarrow>
     (let sq = n_sq (fst s) ! unat qid in
      sq_live qid (fst s) \<and> heap_ok (snd s) \<and> ring_mapped vfu sq \<and> unat (sq_size sq) \<le> unat (sq_tail sq))"

lemma sq_stuck_step:
  assumes "sq_stuck vfu qid s"
  obtains s' where "nvme_process_one vfu qid s = Inr (True, s')" "sq_stuck vfu qid s'"
proof -
  obtain n h where s: "s = (n, h)" by fastforce
  have st: "sq_live qid n" "heap_ok h" "ring_mapped vfu (n_sq n ! unat qid)"
    "unat (sq_size (n_sq n ! unat qid)) \<le> unat (sq_tail (n_sq n ! unat qid))"
    using assms by (simp_all add: sq_stuck_def s Let_def)
  obtain n' h' where ran: "nvme_process_one vfu qid (n, h) = Inr (True, n', h')" "sq_live qid n'" "heap_ok h'"
    "n_sq n' ! unat qid = (n_sq n ! unat qid)\<lparr>sq_head :=
       ucast ((ucast (sq_head (n_sq n ! unat qid)) + 1 :: u32) mod sq_size (n_sq n ! unat qid))\<rparr>"
    by (rule nvme_process_one_fetched [OF st(1-3)])
  then have "sq_stuck vfu qid (n', h')"
    using st by (simp add: sq_stuck_def Let_def ring_mapped_def)
  with ran(1) that show ?thesis by (simp add: s)
qed

text \<open>With the doorbell outside the ring the head never meets it: the loop does not return.\<close>

lemma nvme_process_sq_loop_stuck:
  assumes "sq_stuck vfu qid s"
  shows "nvme_process_sq_loop vfu qid s = None"
proof (rule ccontr)
  assume "nvme_process_sq_loop vfu qid s \<noteq> None"
  then obtain r where "nvme_process_sq_loop vfu qid s = Some r" by blast
  from nvme_process_sq_loop_rule [OF this, of "sq_stuck vfu qid"] obtain s'
    where s': "sq_stuck vfu qid s'"
      "sq_head (n_sq (fst s') ! unat qid) = sq_tail (n_sq (fst s') ! unat qid) \<or>
       (\<exists>s0. sq_stuck vfu qid s0 \<and> nvme_process_one vfu qid s0 = Inr (False, s'))"
    using assms sq_stuck_step by (metis (no_types, lifting))
  have "sq_live qid (fst s')" using s'(1) by (simp add: sq_stuck_def Let_def)
  from sq_liveD(4,5) [OF this] have "sq_head (n_sq (fst s') ! unat qid) \<noteq> sq_tail (n_sq (fst s') ! unat qid)"
    using s'(1) by (auto simp: sq_stuck_def Let_def sq_wf_def)
  with s'(2) sq_stuck_step show False by (metis Inr_inject Pair_inject)
qed

end
