(* ===== verification/NvmeRegs.thy ===== *)
theory NvmeRegs
  imports NvmeQueue
begin

text \<open>
  Register access of \<^verbatim>\<open>src/nvme.c\<close>: \<open>rd_le\<close>, \<open>wr_le\<close>, \<open>nvme_reg_read\<close>, \<open>nvme_reg_write\<close> and the
  two region callbacks \<open>nvme_bar0_access\<close> and \<open>nvme_msix_access\<close>. A region offset is a natural
  number: libvfio-user hands the callback offsets inside the region. The lemmas show what the
  host reads back, how \<open>CC\<close> drives \<open>CSTS\<close>, and that every access that returns keeps the
  controller invariant.
\<close>

section \<open>Byte order\<close>

primrec rd_le_loop :: "bytes \<Rightarrow> nat \<Rightarrow> u64 \<Rightarrow> ub + u64" where
  "rd_le_loop [] i v = Inr v"
| "rd_le_loop (b # bs) i v =
     (if 8 * i \<ge> 64 then Inl UB_shift
      else rd_le_loop bs (Suc i) (v OR push_bit (8 * i) (ucast b)))"

definition rd_le :: "bytes \<Rightarrow> ub + u64" where
  "rd_le b = rd_le_loop b 0 0"

text \<open>The \<open>n\<close> bytes that \<open>wr_le\<close> stores; every call of the program has \<open>n \<le> 8\<close>.\<close>

definition wr_le :: "nat \<Rightarrow> u64 \<Rightarrow> bytes" where
  "wr_le n v = map (\<lambda>i. ucast (drop_bit (8 * i) v AND 0xff)) [0..<n]"

section \<open>Registers\<close>

abbreviation (input) NVME_REG_CAP :: nat where "NVME_REG_CAP \<equiv> 0x00"
abbreviation (input) NVME_REG_VS :: nat where "NVME_REG_VS \<equiv> 0x08"
abbreviation (input) NVME_REG_INTMS :: nat where "NVME_REG_INTMS \<equiv> 0x0c"
abbreviation (input) NVME_REG_INTMC :: nat where "NVME_REG_INTMC \<equiv> 0x10"
abbreviation (input) NVME_REG_CC :: nat where "NVME_REG_CC \<equiv> 0x14"
abbreviation (input) NVME_REG_CSTS :: nat where "NVME_REG_CSTS \<equiv> 0x1c"
abbreviation (input) NVME_REG_AQA :: nat where "NVME_REG_AQA \<equiv> 0x24"
abbreviation (input) NVME_REG_ASQ :: nat where "NVME_REG_ASQ \<equiv> 0x28"
abbreviation (input) NVME_REG_ACQ :: nat where "NVME_REG_ACQ \<equiv> 0x30"
abbreviation (input) NVME_REG_DOORBELL :: nat where "NVME_REG_DOORBELL \<equiv> 0x1000"

text \<open>The local array \<open>regs\<close> of \<open>nvme_reg_read\<close>, and the \<open>count\<close> bytes it returns.\<close>

definition nvme_regs_image :: "nvme_ctrl \<Rightarrow> bytes" where
  "nvme_regs_image n =
     (let regs = replicate 0x40 (0 :: u8);
          regs = overwrite NVME_REG_CAP (wr_le 8 (n_cap n)) regs;
          regs = overwrite NVME_REG_VS (wr_le 4 (ucast (n_vs n))) regs;
          regs = overwrite NVME_REG_INTMS (wr_le 4 (ucast (n_intms n))) regs;
          regs = overwrite NVME_REG_INTMC (wr_le 4 (ucast (n_intmc n))) regs;
          regs = overwrite NVME_REG_CC (wr_le 4 (ucast (n_cc n))) regs;
          regs = overwrite NVME_REG_CSTS (wr_le 4 (ucast (n_csts n))) regs;
          regs = overwrite NVME_REG_AQA (wr_le 4 (ucast (n_aqa n))) regs;
          regs = overwrite NVME_REG_ASQ (wr_le 8 (n_asq n)) regs
      in overwrite NVME_REG_ACQ (wr_le 8 (n_acq n)) regs)"

definition nvme_reg_read :: "nvme_ctrl \<Rightarrow> nat \<Rightarrow> nat \<Rightarrow> bytes" where
  "nvme_reg_read n offset count =
     (if offset + count \<le> 0x40 then take count (drop offset (nvme_regs_image n))
      else replicate count 0)"

text \<open>The case \<open>NVME_REG_CC\<close> of \<open>nvme_reg_write\<close>.\<close>

definition nvme_cc_write :: "nvme_ctrl \<Rightarrow> u32 \<Rightarrow> nvme_ctrl" where
  "nvme_cc_write n v =
     (let old = n_cc n;
          shn = v AND NVME_CC_SHN_MASK;
          old_shn = old AND NVME_CC_SHN_MASK;
          n1 = n\<lparr>n_cc := v\<rparr>;
          n2 = (if n_cc n1 AND NVME_CC_EN \<noteq> 0 \<and> old AND NVME_CC_EN = 0 then nvme_enable n1
                else if n_cc n1 AND NVME_CC_EN = 0 \<and> old AND NVME_CC_EN \<noteq> 0 then nvme_disable n1
                else n1)
      in
      if shn \<noteq> 0 \<and> old_shn = 0 then
        (let n3 = nvme_queues_down n2
         in n3\<lparr>n_csts := (n_csts n3 AND NOT NVME_CSTS_SHST_MASK) OR NVME_CSTS_SHST_COMPLETE\<rparr>)
      else if shn = 0 \<and> old_shn \<noteq> 0 then n2\<lparr>n_csts := n_csts n2 AND NOT NVME_CSTS_SHST_MASK\<rparr>
      else n2)"

text \<open>Writing half of a 64-bit register: the lower and the upper double word.\<close>

definition reg_set_lo :: "u64 \<Rightarrow> u64 \<Rightarrow> u64" where
  "reg_set_lo r v = (r AND NOT 0xffffffff) OR (v AND 0xffffffff)"

definition reg_set_hi :: "u64 \<Rightarrow> u64 \<Rightarrow> u64" where
  "reg_set_hi r v = (r AND 0xffffffff) OR push_bit 32 (v AND 0xffffffff)"

definition nvme_reg_write :: "nvme_ctrl \<Rightarrow> nat \<Rightarrow> bytes \<Rightarrow> ub + nvme_ctrl" where
  "nvme_reg_write n offset buf =
     (case rd_le buf of
       Inl u \<Rightarrow> Inl u
     | Inr v \<Rightarrow> Inr (
         if offset = NVME_REG_INTMS then n\<lparr>n_intms := ucast v\<rparr>
         else if offset = NVME_REG_INTMC then n\<lparr>n_intmc := ucast v\<rparr>
         else if offset = NVME_REG_CC then nvme_cc_write n (ucast v)
         else if offset = NVME_REG_AQA then n\<lparr>n_aqa := ucast v\<rparr>
         else if offset = NVME_REG_ASQ then
           n\<lparr>n_asq := (if length buf = 8 then v else reg_set_lo (n_asq n) v)\<rparr>
         else if offset = NVME_REG_ASQ + 4 then n\<lparr>n_asq := reg_set_hi (n_asq n) v\<rparr>
         else if offset = NVME_REG_ACQ then
           n\<lparr>n_acq := (if length buf = 8 then v else reg_set_lo (n_acq n) v)\<rparr>
         else if offset = NVME_REG_ACQ + 4 then n\<lparr>n_acq := reg_set_hi (n_acq n) v\<rparr>
         else n))"

section \<open>Region callbacks\<close>

text \<open>
  Both return the callback's value and the buffer as they leave it. \<open>None\<close> is an access that
  never returns; \<open>Inl\<close> is undefined behaviour.
\<close>

definition nvme_bar0_access ::
    "'sg vfu_ctx \<Rightarrow> nvme_ctrl \<Rightarrow> bytes \<Rightarrow> nat \<Rightarrow> bool \<Rightarrow> host \<Rightarrow> (ub + (int \<times> bytes \<times> nvme_ctrl \<times> host)) option" where
  "nvme_bar0_access vfu n buf offset is_write h =
     (let count = length buf; ret = int count in
      if offset \<ge> NVME_REG_DOORBELL then
        (if is_write then
           (case rd_le buf of
             Inl u \<Rightarrow> Some (Inl u)
           | Inr v \<Rightarrow>
               (let val = (ucast v :: u32);
                    idx = (offset - NVME_REG_DOORBELL) div 4;
                    qid = (word_of_nat (idx div 2) :: u16);
                    is_cq = odd idx;
                    q = unat qid
                in
                if q < NVME_MAX_QUEUES then
                  (if is_cq then
                     Some (Inr (ret, buf, n\<lparr>n_cq := (n_cq n)[q := (n_cq n ! q)\<lparr>cq_head := ucast val\<rparr>]\<rparr>, h))
                   else
                     (case nvme_process_sq vfu qid
                         (n\<lparr>n_sq := (n_sq n)[q := (n_sq n ! q)\<lparr>sq_tail := ucast val\<rparr>]\<rparr>) h of
                       None \<Rightarrow> None
                     | Some (Inl u) \<Rightarrow> Some (Inl u)
                     | Some (Inr (n', h')) \<Rightarrow> Some (Inr (ret, buf, n', h'))))
                else Some (Inr (ret, buf, n, h))))
         else Some (Inr (ret, replicate count 0, n, h)))
      else if is_write then
        (case nvme_reg_write n offset buf of
          Inl u \<Rightarrow> Some (Inl u)
        | Inr n' \<Rightarrow> Some (Inr (ret, buf, n', h)))
      else Some (Inr (ret, nvme_reg_read n offset count, n, h)))"

definition nvme_msix_access :: "nvme_ctrl \<Rightarrow> bytes \<Rightarrow> nat \<Rightarrow> bool \<Rightarrow> int \<times> bytes \<times> nvme_ctrl" where
  "nvme_msix_access n buf offset is_write =
     (let count = length buf in
      if offset + count > NVME_MSIX_BAR_SIZE then (-1, buf, n)
      else if is_write then (int count, buf, n\<lparr>n_msix_region := overwrite offset buf (n_msix_region n)\<rparr>)
      else (int count, take count (drop offset (n_msix_region n)), n))"

section \<open>Byte order lemmas\<close>

lemma rd_le_loop_eq:
  "i + length b \<le> 8 \<Longrightarrow> rd_le_loop b i v = Inr (v OR push_bit (8 * i) (le_dec b))"
  by (induction b arbitrary: i v) (auto simp: push_bit_or or.assoc push_bit_push_bit algebra_simps)

lemma rd_le_eq: "length b \<le> 8 \<Longrightarrow> rd_le b = Inr (le_dec b)"
  by (simp add: rd_le_def rd_le_loop_eq)

lemma rd_le_loop_long: "i \<le> 8 \<Longrightarrow> i + length b > 8 \<Longrightarrow> rd_le_loop b i v = Inl UB_shift"
proof (induction b arbitrary: i v)
  case (Cons x b)
  then show ?case by (cases "i = 8") auto
qed simp

lemma length_wr_le [simp, byte_simps]: "length (wr_le n v) = n"
  by (simp add: wr_le_def)

lemma wr_le_enc: "wr_le n v = le_enc n v"
proof (rule nth_equalityI)
  fix i assume i: "i < length (wr_le n v)"
  have ff: "(0xff :: u64) = mask 8" by (simp add: mask_eq_exp_minus_1)
  show "wr_le n v ! i = le_enc n v ! i"
    using i unfolding wr_le_def ff by (simp add: le_enc_nth del: mask_numeral) (rule bit_word_eqI, auto simp: bit_simps)
qed simp

section \<open>Reading registers\<close>

lemma length_regs_image [simp, byte_simps]: "length (nvme_regs_image n) = 0x40"
  by (simp add: nvme_regs_image_def Let_def)

lemma length_reg_read [simp, byte_simps]: "length (nvme_reg_read n offset count) = count"
  by (simp add: nvme_reg_read_def)

text \<open>The image as the concatenation of the registers, with the gaps reading as zero.\<close>

lemma nvme_regs_image_eq:
  "nvme_regs_image n =
     le_enc 8 (n_cap n) @ le_enc 4 (n_vs n) @ le_enc 4 (n_intms n) @ le_enc 4 (n_intmc n) @
     le_enc 4 (n_cc n) @ replicate 4 0 @ le_enc 4 (n_csts n) @ replicate 4 0 @ le_enc 4 (n_aqa n) @
     le_enc 8 (n_asq n) @ le_enc 8 (n_acq n) @ replicate 8 0"
proof -
  have up: "le_enc 4 (ucast (x :: u32) :: u64) = le_enc 4 x" for x
    by (rule nth_equalityI) (auto simp: le_enc_nth intro!: bit_word_eqI simp: bit_simps)
  have spl: "overwrite (length xs) src (xs @ ys @ zs) = xs @ src @ zs"
    if "length ys = length src" for xs ys zs src :: bytes
    using that by (simp add: overwrite_def)
  have z: "replicate 64 (0 :: u8) = replicate 8 0 @ replicate 4 0 @ replicate 4 0 @ replicate 4 0 @
      replicate 4 0 @ replicate 4 0 @ replicate 4 0 @ replicate 4 0 @ replicate 4 0 @
      replicate 8 0 @ replicate 8 0 @ replicate 8 0"
    by (simp flip: replicate_add)
  show ?thesis
    unfolding nvme_regs_image_def Let_def wr_le_enc up z by (simp add: overwrite_def)
qed

lemma reg_read_field:
  assumes "nvme_regs_image n = xs @ le_enc w v @ ys" and "length xs = off" and "off + w \<le> 0x40"
  shows "nvme_reg_read n off w = le_enc w v"
  using assms by (simp add: nvme_reg_read_def)

text \<open>Every register reads back at its offset.\<close>

lemma nvme_reg_read_regs:
  "nvme_reg_read n NVME_REG_CAP 8 = le_enc 8 (n_cap n)"
  "nvme_reg_read n NVME_REG_VS 4 = le_enc 4 (n_vs n)"
  "nvme_reg_read n NVME_REG_INTMS 4 = le_enc 4 (n_intms n)"
  "nvme_reg_read n NVME_REG_INTMC 4 = le_enc 4 (n_intmc n)"
  "nvme_reg_read n NVME_REG_CC 4 = le_enc 4 (n_cc n)"
  "nvme_reg_read n NVME_REG_CSTS 4 = le_enc 4 (n_csts n)"
  "nvme_reg_read n NVME_REG_AQA 4 = le_enc 4 (n_aqa n)"
  "nvme_reg_read n NVME_REG_ASQ 8 = le_enc 8 (n_asq n)"
  "nvme_reg_read n NVME_REG_ACQ 8 = le_enc 8 (n_acq n)"
  by (simp_all add: nvme_reg_read_def nvme_regs_image_eq)

section \<open>Writing registers\<close>

lemma and_1_cases: "(x :: u32) AND 1 = 0 \<or> x AND 1 = 1"
  by (simp add: and_one_eq mod2_eq_if)

lemma queues_off_down: "queues_off n \<Longrightarrow> queues_off (nvme_queues_down n)"
  by (simp add: queues_down_off)

lemma nvme_cc_write_cc [simp]: "n_cc (nvme_cc_write n v) = v"
  by (simp add: nvme_cc_write_def Let_def)

lemma nvme_cc_write_core: "ctrl_core n \<Longrightarrow> ctrl_core (nvme_cc_write n v)"
  by (auto simp: nvme_cc_write_def Let_def intro!: inv_intros)

text \<open>The value of \<open>CSTS\<close> after a write of \<open>CC\<close>, from the bits that changed.\<close>

lemma nvme_cc_write_csts:
  assumes "regs_inv n"
  shows "n_csts (nvme_cc_write n v) =
    (v AND NVME_CC_EN) OR
    (if v AND NVME_CC_SHN_MASK = 0 then 0
     else if n_cc n AND NVME_CC_SHN_MASK = 0 then NVME_CSTS_SHST_COMPLETE
     else if v AND NVME_CC_EN = n_cc n AND NVME_CC_EN then n_csts n AND NVME_CSTS_SHST_MASK
     else 0)"
proof -
  have "n_csts n = 0 \<and> n_cc n AND 1 = 0 \<or> n_csts n = 1 \<and> n_cc n AND 1 = 1 \<or>
      n_csts n = 8 \<and> n_cc n AND 1 = 0 \<and> n_cc n AND 0xc000 \<noteq> 0 \<or>
      n_csts n = 9 \<and> n_cc n AND 1 = 1 \<and> n_cc n AND 0xc000 \<noteq> 0"
    using assms by (auto simp: regs_inv_def)
  with and_1_cases [of v] show ?thesis
    by (elim disjE conjE) (simp_all add: nvme_cc_write_def Let_def)
qed

lemma nvme_cc_write_off:
  assumes "regs_inv n" and "n_csts (nvme_cc_write n v) \<noteq> NVME_CSTS_RDY"
  shows "queues_off (nvme_cc_write n v)"
  using assms and_1_cases [of v] and_1_cases [of "n_cc n"]
  by (auto simp: regs_inv_def nvme_cc_write_def Let_def queues_down_off split: if_splits)

lemma nvme_cc_write_inv:
  assumes "ctrl_inv n"
  shows "ctrl_inv (nvme_cc_write n v)"
proof -
  note D = ctrl_invD [OF assms]
  have "regs_inv (nvme_cc_write n v)"
    using nvme_cc_write_csts [OF D(6), of v] nvme_cc_write_off [OF D(6), of v] and_1_cases [of v] D(6)
    by (auto simp: regs_inv_def split: if_splits)
  then show ?thesis using nvme_cc_write_core D by (simp add: ctrl_inv_def)
qed

lemma regs_inv_upd [simp]:
  "regs_inv (n\<lparr>n_intms := c\<rparr>) = regs_inv n" "regs_inv (n\<lparr>n_intmc := d\<rparr>) = regs_inv n"
  "regs_inv (n\<lparr>n_aqa := e\<rparr>) = regs_inv n" "regs_inv (n\<lparr>n_asq := f\<rparr>) = regs_inv n"
  "regs_inv (n\<lparr>n_acq := g\<rparr>) = regs_inv n"
  by (simp_all add: regs_inv_def queues_off_def)

lemma nvme_reg_write_inv:
  assumes "ctrl_inv n" and "nvme_reg_write n offset buf = Inr n'"
  shows "ctrl_inv n'"
  using assms nvme_cc_write_inv [OF assms(1)]
  by (auto simp: nvme_reg_write_def ctrl_inv_def split: sum.splits if_splits)

section \<open>Accesses keep the invariant\<close>

text \<open>Doorbells only move a head or a tail.\<close>

lemma ctrl_inv_doorbell:
  assumes inv: "ctrl_inv n" and q: "q < 64"
  shows "ctrl_inv (n\<lparr>n_cq := (n_cq n)[q := (n_cq n ! q)\<lparr>cq_head := x\<rparr>]\<rparr>)"
    and "ctrl_inv (n\<lparr>n_sq := (n_sq n)[q := (n_sq n ! q)\<lparr>sq_tail := y\<rparr>]\<rparr>)"
proof -
  note D = ctrl_invD [OF inv]
  have wf: "cq_wf ((n_cq n ! q)\<lparr>cq_head := x\<rparr>)" "sq_wf ((n_sq n ! q)\<lparr>sq_tail := y\<rparr>)"
    using list_all_nthD [OF D(5), of q] list_all_nthD [OF D(4), of q] q D(1,2)
    by (simp_all add: cq_wf_def sq_wf_def)
  have off: "queues_off n \<Longrightarrow> queues_off (n\<lparr>n_cq := (n_cq n)[q := (n_cq n ! q)\<lparr>cq_head := x\<rparr>]\<rparr>)"
    "queues_off n \<Longrightarrow> queues_off (n\<lparr>n_sq := (n_sq n)[q := (n_sq n ! q)\<lparr>sq_tail := y\<rparr>]\<rparr>)"
    using q D(1,2) by (auto simp: queues_off_def intro!: list_all_update
        dest: list_all_nthD [of "\<lambda>q. \<not> cq_enabled q" _ q] list_all_nthD [of "\<lambda>q. \<not> sq_enabled q" _ q])
  show "ctrl_inv (n\<lparr>n_cq := (n_cq n)[q := (n_cq n ! q)\<lparr>cq_head := x\<rparr>]\<rparr>)"
    "ctrl_inv (n\<lparr>n_sq := (n_sq n)[q := (n_sq n ! q)\<lparr>sq_tail := y\<rparr>]\<rparr>)"
    using D wf off by (auto simp: regs_inv_def intro!: ctrl_invI list_all_update)
qed

lemma nvme_bar0_access_inv:
  assumes inv: "ctrl_inv n"
    and eq: "nvme_bar0_access vfu n buf offset w h = Some (Inr (ret, buf', n', h'))"
  shows "ctrl_inv n'"
proof -
  have ring: "ctrl_inv n'" if "unat qid < 64"
      "nvme_process_sq vfu qid (n\<lparr>n_sq := (n_sq n)[unat qid := (n_sq n ! unat qid)\<lparr>sq_tail := y\<rparr>]\<rparr>) h = Some (Inr (n', h'))"
    for qid y
    using nvme_process_sq_inv [OF ctrl_inv_doorbell(2) [OF inv that(1)] that] by auto
  show ?thesis
    using eq inv nvme_reg_write_inv [OF inv] ctrl_inv_doorbell [OF inv]
    by (auto simp: nvme_bar0_access_def Let_def split: if_splits sum.splits option.splits dest: ring)
qed

text \<open>
  Accesses of at most eight bytes always return without undefined behaviour, as long as a
  submission queue doorbell that is rung while its queue exists and is enabled names a slot of the ring.
\<close>

definition doorbell_in_ring :: "nvme_ctrl \<Rightarrow> bytes \<Rightarrow> nat \<Rightarrow> bool" where
  "doorbell_in_ring n buf offset \<longleftrightarrow>
     (let idx = (offset - NVME_REG_DOORBELL) div 4; q = unat (word_of_nat (idx div 2) :: u16)
      in odd idx \<or> NVME_MAX_QUEUES \<le> q \<or> \<not> sq_enabled (n_sq n ! q) \<or>
         unat (ucast (le_dec buf :: u64) :: u16) < unat (sq_size (n_sq n ! q)))"

lemma nvme_bar0_access_returns:
  assumes inv: "ctrl_inv n" and len: "length buf \<le> 8"
    and db: "w \<Longrightarrow> offset \<ge> NVME_REG_DOORBELL \<Longrightarrow> doorbell_in_ring n buf offset"
  shows "\<exists>buf' n' h'. nvme_bar0_access vfu n buf offset w h = Some (Inr (int (length buf), buf', n', h'))"
proof (cases "w \<and> offset \<ge> 0x1000")
  case False
  then show ?thesis
    by (auto simp: nvme_bar0_access_def nvme_reg_write_def Let_def rd_le_eq [OF len])
next
  case True
  let ?idx = "(offset - 0x1000) div 4"
  let ?qid = "word_of_nat (?idx div 2) :: u16"
  let ?v = "ucast (ucast (le_dec buf :: u64) :: u32) :: u16"
  let ?n = "n\<lparr>n_sq := (n_sq n)[unat ?qid := (n_sq n ! unat ?qid)\<lparr>sq_tail := ?v\<rparr>]\<rparr>"
  have v: "?v = ucast (le_dec buf :: u64)" by (rule bit_word_eqI) (simp add: bit_simps)
  show ?thesis
  proof (cases "unat ?qid < 64 \<and> even ?idx")
    case False
    then show ?thesis
      using True by (auto simp: nvme_bar0_access_def Let_def rd_le_eq [OF len])
  next
    case q: True
    have "unat (sq_tail (n_sq ?n ! unat ?qid)) < unat (sq_size (n_sq ?n ! unat ?qid)) \<or>
        \<not> sq_enabled (n_sq ?n ! unat ?qid)"
      using db True q ctrl_invD(1) [OF inv] v by (auto simp: doorbell_in_ring_def Let_def)
    from nvme_process_sq_returns [OF ctrl_inv_doorbell(2) [OF inv] _ this, of vfu h] q
    show ?thesis
      using True by (auto simp: nvme_bar0_access_def Let_def rd_le_eq [OF len])
  qed
qed

text \<open>Doorbells of queues that do not exist are accepted and ignored.\<close>

lemma nvme_bar0_access_no_queue:
  assumes "length buf \<le> 8" and "offset \<ge> NVME_REG_DOORBELL"
    and "NVME_MAX_QUEUES \<le> unat (word_of_nat ((offset - NVME_REG_DOORBELL) div 8) :: u16)"
  shows "nvme_bar0_access vfu n buf offset True h = Some (Inr (int (length buf), buf, n, h))"
  using assms by (simp add: nvme_bar0_access_def Let_def rd_le_eq div_mult2_eq [of _ 4 2, simplified])

lemma ctrl_inv_msix: "length r = 4096 \<Longrightarrow> ctrl_inv n \<Longrightarrow> ctrl_inv (n\<lparr>n_msix_region := r\<rparr>)"
  by (simp add: ctrl_inv_def ctrl_core_def regs_inv_def queues_off_def)

lemma nvme_msix_access_inv:
  assumes inv: "ctrl_inv n" and eq: "nvme_msix_access n buf offset w = (ret, buf', n')"
  shows "ctrl_inv n'"
proof (cases "n' = n")
  case False
  then have "n' = n\<lparr>n_msix_region := overwrite offset buf (n_msix_region n)\<rparr>" "offset + length buf \<le> 4096"
    using eq by (auto simp: nvme_msix_access_def Let_def split: if_splits)
  then show ?thesis using ctrl_invD(3) [OF inv] ctrl_inv_msix [OF _ inv] by simp
qed (use inv in simp)

end
