(* ===== verification/CommandLine.thy ===== *)
theory CommandLine
  imports NvmeSpec
begin

text \<open>
  The command line of \<^verbatim>\<open>src/main.c\<close>: the size argument, the options and the capacity, from the
  words of \<open>argv\<close> to the socket path and the number of keys, or to an exit code and the text
  printed. The C library functions that the code uses are modelled as far as they are used:
  \<open>strtoull\<close> in base 0, and \<open>getopt_long\<close> with its permutation of operands, abbreviated long
  options and the two ways of giving an argument. What \<open>getopt_long\<close> itself prints about an
  invalid option is left out. The lemmas show that every spelling of an option is understood
  and which sizes are accepted.
\<close>

section \<open>Sizes\<close>

definition is_space :: "char \<Rightarrow> bool" where
  "is_space c \<longleftrightarrow> c = CHR '' '' \<or> (9 \<le> (of_char c :: nat) \<and> (of_char c :: nat) \<le> 13)"

text \<open>The value of a digit or letter, as \<open>strtoull\<close> reads it.\<close>

definition digit_val :: "char \<Rightarrow> nat" where
  "digit_val c =
     (let k = (of_char c :: nat) in
      if 48 \<le> k \<and> k \<le> 57 then k - 48
      else if 97 \<le> k \<and> k \<le> 122 then k - 87
      else if 65 \<le> k \<and> k \<le> 90 then k - 55
      else 36)"

text \<open>
  \<open>strtoull(s, &end, 0)\<close>: the value, the text from \<open>end\<close> on, whether \<open>errno\<close> was set, and
  whether a conversion was done at all (otherwise \<open>end == s\<close>). White space and a sign are
  skipped, a prefix selects base 16 or 8, a value of \<open>2 ^ 64\<close> or more is a range error, and a
  minus sign negates the unsigned result.
\<close>

definition strtoull_base :: "string \<Rightarrow> nat \<times> string" where
  "strtoull_base s =
     (if s \<noteq> [] \<and> hd s = CHR ''0'' then
        (if 2 < length s \<and> (s ! 1 = CHR ''x'' \<or> s ! 1 = CHR ''X'') \<and> digit_val (s ! 2) < 16
         then (16, drop 2 s) else (8, s))
      else (10, s))"

definition strtoull_sign :: "string \<Rightarrow> bool \<times> string" where
  "strtoull_sign s =
     (if s \<noteq> [] \<and> hd s = CHR ''-'' then (True, tl s)
      else if s \<noteq> [] \<and> hd s = CHR ''+'' then (False, tl s)
      else (False, s))"

definition digits_value :: "nat \<Rightarrow> string \<Rightarrow> nat" where
  "digits_value b ds = foldl (\<lambda>v c. v * b + digit_val c) 0 ds"

definition strtoull :: "string \<Rightarrow> u64 \<times> string \<times> bool \<times> bool" where
  "strtoull s =
     (let (neg, s1) = strtoull_sign (dropWhile is_space s);
          (b, s2) = strtoull_base s1;
          ds = takeWhile (\<lambda>c. digit_val c < b) s2;
          rest = dropWhile (\<lambda>c. digit_val c < b) s2;
          v = digits_value b ds
      in
      if ds = [] then (0, s, False, False)
      else if v \<ge> 2 ^ 64 then (- 1, rest, True, True)
      else (if neg then - of_nat v else of_nat v, rest, False, True))"

definition parse_size :: "string \<Rightarrow> u64 option" where
  "parse_size s =
     (let (n, end, err, conv) = strtoull s in
      if err \<or> \<not> conv then None
      else
        let (n, end) =
          (case end of
            [] \<Rightarrow> (n, end)
          | c # r \<Rightarrow>
              (if c = CHR ''k'' \<or> c = CHR ''K'' then (n * 1024, r)
               else if c = CHR ''m'' \<or> c = CHR ''M'' then (n * (1024 * 1024), r)
               else if c = CHR ''g'' \<or> c = CHR ''G'' then (n * (1024 * 1024 * 1024), r)
               else (n, end)))
        in if end \<noteq> [] then None else Some n)"

section \<open>Options\<close>

text \<open>
  The option string \<open>"s:c:hV"\<close>: whether a letter is an option, and whether it takes an argument;
  and the table of long options.
\<close>

definition short_opts :: "char \<Rightarrow> bool option" where
  "short_opts c = (if c = CHR ''s'' \<or> c = CHR ''c'' then Some True
     else if c = CHR ''h'' \<or> c = CHR ''V'' then Some False else None)"

definition long_opts :: "(string \<times> bool \<times> char) list" where
  "long_opts = [(''socket'', True, CHR ''s''), (''capacity'', True, CHR ''c''), (''help'', False, CHR ''h''),
     (''version'', False, CHR ''V'')]"

text \<open>
  The letters of one word after its dash, and the words after it: the options with their arguments,
  and the words left over. An unknown letter or a missing argument is the option \<open>?\<close>.
\<close>

fun getopt_short :: "string \<Rightarrow> string list \<Rightarrow> (char \<times> string) list \<times> string list" where
  "getopt_short [] ws = ([], ws)"
| "getopt_short (c # cs) ws =
     (case short_opts c of
       Some True \<Rightarrow>
         (if cs \<noteq> [] then ([(c, cs)], ws)
          else case ws of [] \<Rightarrow> ([(CHR ''?'', [])], []) | w # ws \<Rightarrow> ([(c, w)], ws))
     | Some False \<Rightarrow> (let (os, ws) = getopt_short cs ws in ((c, []) # os, ws))
     | None \<Rightarrow> (let (os, ws) = getopt_short cs ws in ((CHR ''?'', []) # os, ws)))"

text \<open>A long option is named in full, or by a prefix that no other option has.\<close>

definition find_long :: "string \<Rightarrow> (bool \<times> char) option" where
  "find_long name =
     (case filter (\<lambda>(l, r). l = name) long_opts of
       (_, r) # _ \<Rightarrow> Some r
     | [] \<Rightarrow>
         (case filter (\<lambda>(l, r). take (length name) l = name) long_opts of
           [(_, r)] \<Rightarrow> Some r
         | _ \<Rightarrow> None))"

definition getopt_word :: "string \<Rightarrow> string list \<Rightarrow> (char \<times> string) \<times> string list" where
  "getopt_word w ws =
     (let name = takeWhile (\<lambda>c. c \<noteq> CHR ''='') w; val = dropWhile (\<lambda>c. c \<noteq> CHR ''='') w in
      case find_long name of
        None \<Rightarrow> ((CHR ''?'', []), ws)
      | Some (True, c) \<Rightarrow>
          (if val \<noteq> [] then ((c, tl val), ws)
           else case ws of [] \<Rightarrow> ((CHR ''?'', []), []) | w # ws \<Rightarrow> ((c, w), ws))
      | Some (False, c) \<Rightarrow> ((if val \<noteq> [] then CHR ''?'' else c, []), ws))"

lemma getopt_short_rest: "length (snd (getopt_short cs ws)) \<le> length ws"
  by (induction cs ws rule: getopt_short.induct)
    (auto simp: split_def Let_def split: option.split bool.split list.split)

lemma getopt_word_rest: "length (snd (getopt_word w ws)) \<le> length ws"
  by (auto simp: getopt_word_def Let_def split: option.split bool.split list.split)

text \<open>The results of all calls of \<open>getopt_long\<close> on the words after the program name.\<close>

function getopt_long :: "string list \<Rightarrow> (char \<times> string) list" where
  "getopt_long [] = []"
| "getopt_long (w # ws) =
     (if w = ''--'' then []
      else if take 2 w = ''--'' then
        (let (opt, ws') = getopt_word (drop 2 w) ws in opt # getopt_long ws')
      else if take 1 w = ''-'' \<and> w \<noteq> ''-'' then
        (let (os, ws') = getopt_short (drop 1 w) ws in os @ getopt_long ws')
      else getopt_long ws)"
  by pat_completeness auto

termination getopt_long
proof (relation "measure length")
  show "(ws', w # ws) \<in> measure length" if "x = getopt_word (drop 2 w) ws" "(opt, ws') = x" for w ws x opt ws'
    using getopt_word_rest [of "drop 2 w" ws] that by (metis in_measure length_Cons less_Suc_eq_le snd_conv)
  show "(ws', w # ws) \<in> measure length" if "x = getopt_short (drop 1 w) ws" "(os, ws') = x" for w ws x os ws'
    using getopt_short_rest [of "drop 1 w" ws] that by (metis in_measure length_Cons less_Suc_eq_le snd_conv)
qed simp_all

section \<open>Options and capacity\<close>

abbreviation (input) VFU_KVSSD_DEFAULT_CAPACITY :: u64 where "VFU_KVSSD_DEFAULT_CAPACITY \<equiv> 2 * 1024 * 1024 * 1024"

text \<open>What the program prints, on which stream.\<close>

datatype stream = Stdout | Stderr

abbreviation (input) newline :: string where "newline \<equiv> [CHR 0x0A]"

definition usage :: "string \<Rightarrow> string" where
  "usage argv0 =
     ''usage: '' @ argv0 @ '' -s <socket-path> [--capacity <bytes>]'' @ newline @
     newline @
     ''Emulate an NVMe Key-Value SSD over vfio-user.'' @ newline @
     newline @
     ''Options:'' @ newline @
     ''  -s, --socket <path>     vfio-user UNIX socket to listen on (required)'' @ newline @
     ''  -c, --capacity <bytes>  advertised namespace size; '' @
     ''accepts K/M/G suffix (default: 2G)'' @ newline @
     ''  -h, --help              show this help and exit'' @ newline @
     ''  -V, --version           print version and exit'' @ newline"

text \<open>
  The loop over the options. \<open>Inl\<close> is an early return with its exit code and what is printed, \<open>Inr\<close>
  the socket and the capacity. The version is a macro of the build.
\<close>

fun main_options ::
    "string \<Rightarrow> string \<Rightarrow> (char \<times> string) list \<Rightarrow> string option \<Rightarrow> u64 \<Rightarrow> (int \<times> stream \<times> string) + (string option \<times> u64)" where
  "main_options version argv0 [] sock capacity = Inr (sock, capacity)"
| "main_options version argv0 ((opt, optarg) # os) sock capacity =
     (if opt = CHR ''s'' then main_options version argv0 os (Some optarg) capacity
      else if opt = CHR ''c'' then
        (case parse_size optarg of
          None \<Rightarrow> Inl (2, Stderr, ''invalid --capacity: '' @ optarg @ newline)
        | Some c \<Rightarrow> main_options version argv0 os sock c)
      else if opt = CHR ''h'' then Inl (0, Stdout, usage argv0)
      else if opt = CHR ''V'' then Inl (0, Stdout, ''vfu_kvssd '' @ version @ newline)
      else Inl (2, Stderr, usage argv0))"

definition capacity_slots :: "u64 \<Rightarrow> u32 option" where
  "capacity_slots capacity =
     (let slot = (16 + 4096 :: u64); slots = capacity div slot in
      if slots = 0 then None
      else Some (ucast (if slots > of_nat NVME_KV_HARD_MAX_NUM_KEYS then of_nat NVME_KV_HARD_MAX_NUM_KEYS else slots)))"

text \<open>From the words of the command line to the socket and the number of keys.\<close>

definition main_args :: "string \<Rightarrow> string list \<Rightarrow> (int \<times> stream \<times> string) + (string \<times> u32)" where
  "main_args version argv =
     (case main_options version (hd argv) (getopt_long (tl argv)) None VFU_KVSSD_DEFAULT_CAPACITY of
       Inl e \<Rightarrow> Inl e
     | Inr (None, _) \<Rightarrow> Inl (2, Stderr, usage (hd argv))
     | Inr (Some sock, capacity) \<Rightarrow>
         (case capacity_slots capacity of
           None \<Rightarrow> Inl (2, Stderr, ''--capacity must hold at least one 4112-byte slot'' @ newline)
         | Some max_num_keys \<Rightarrow> Inr (sock, max_num_keys)))"

section \<open>Decimal numbers\<close>

fun dec :: "nat \<Rightarrow> string" where
  "dec n = (if n < 10 then [char_of (48 + n)] else dec (n div 10) @ [char_of (48 + n mod 10)])"

declare dec.simps [simp del]

lemma digit_val_char [simp]: "d < 10 \<Longrightarrow> digit_val (char_of (48 + d)) = d"
  by (simp add: digit_val_def of_char_of)

lemma dec_digits: "\<forall>c \<in> set (dec n). digit_val c < 10"
  by (induction n rule: dec.induct) (subst dec.simps, auto)

lemma digits_value_append: "digits_value b (ds @ [c]) = digits_value b ds * b + digit_val c"
  by (simp add: digits_value_def)

lemma digits_value_dec: "digits_value 10 (dec n) = n"
proof (induction n rule: dec.induct)
  case (1 n)
  show ?case
  proof (cases "n < 10")
    case True
    then show ?thesis by (subst dec.simps) (simp add: digits_value_def)
  next
    case False
    with 1 show ?thesis by (subst dec.simps) (simp add: digits_value_append)
  qed
qed

lemma dec_first: "0 < n \<Longrightarrow> \<exists>(d :: nat) r. dec n = char_of (48 + d) # r \<and> 0 < d \<and> d < 10"
proof (induction n rule: dec.induct)
  case (1 n)
  show ?case
  proof (cases "n < 10")
    case True
    then show ?thesis using 1(2) by (subst dec.simps) (auto intro!: exI [of _ n])
  next
    case False
    then have "0 < n div 10" by simp
    from 1(1) [OF False this] False show ?thesis by (subst dec.simps) force
  qed
qed

lemma digit_char_neq:
  "0 < (d :: nat) \<Longrightarrow> d < 10 \<Longrightarrow> \<not> is_space (char_of (48 + d)) \<and> char_of (48 + d) \<noteq> CHR ''0'' \<and>
     char_of (48 + d) \<noteq> CHR ''-'' \<and> char_of (48 + d) \<noteq> CHR ''+''"
proof -
  assume d: "0 < d" "d < 10"
  then have k: "(of_char (char_of (48 + d)) :: nat) = 48 + d" by (simp add: of_char_of)
  have "(of_char c :: nat) \<noteq> of_char (char_of (48 + d)) \<Longrightarrow> char_of (48 + d) \<noteq> c" for c by auto
  then show ?thesis using k d by (auto simp: is_space_def)
qed

lemma takeWhile_dec:
  assumes "suf = [] \<or> 10 \<le> digit_val (hd suf)"
  shows "takeWhile (\<lambda>c. digit_val c < 10) (dec n @ suf) = dec n"
    and "dropWhile (\<lambda>c. digit_val c < 10) (dec n @ suf) = suf"
  using dec_digits [of n] assms
  by (cases suf; simp add: takeWhile_append2 dropWhile_append2)+

lemma strtoull_dec:
  assumes "0 < n" and "n < 2 ^ 64" and "suf = [] \<or> 10 \<le> digit_val (hd suf)"
  shows "strtoull (dec n @ suf) = (of_nat n, suf, False, True)"
proof -
  obtain d :: nat and r where d: "dec n = char_of (48 + d) # r" "0 < d" "d < 10"
    using dec_first [OF assms(1)] by blast
  have "dropWhile is_space (dec n @ suf) = dec n @ suf"
    "strtoull_sign (dec n @ suf) = (False, dec n @ suf)" "strtoull_base (dec n @ suf) = (10, dec n @ suf)"
    "dec n \<noteq> []"
    using digit_char_neq [OF d(2,3)] by (simp_all add: d(1) strtoull_sign_def strtoull_base_def)
  then show ?thesis
    using assms takeWhile_dec [OF assms(3), of n]
    by (simp add: strtoull_def Let_def digits_value_dec)
qed

section \<open>Spellings\<close>

text \<open>The four ways to give an option with an argument, and the words that are not options.\<close>

datatype spelling = Short_separate | Short_joined | Long_separate | Long_equals

definition opt_name :: "char \<Rightarrow> string" where
  "opt_name c = (if c = CHR ''s'' then ''socket'' else ''capacity'')"

fun spell :: "spelling \<times> char \<times> string \<Rightarrow> string list" where
  "spell (Short_separate, c, arg) = [[CHR ''-'', c], arg]"
| "spell (Short_joined, c, arg) = [CHR ''-'' # c # arg]"
| "spell (Long_separate, c, arg) = [''--'' @ opt_name c, arg]"
| "spell (Long_equals, c, arg) = [''--'' @ opt_name c @ ''='' @ arg]"

fun spellable :: "spelling \<times> char \<times> string \<Rightarrow> bool" where
  "spellable (sp, c, arg) \<longleftrightarrow> (c = CHR ''s'' \<or> c = CHR ''c'') \<and> (sp = Short_joined \<longrightarrow> arg \<noteq> [])"

lemma getopt_spell:
  assumes "spellable (sp, c, arg)"
  shows "getopt_long (spell (sp, c, arg) @ ws) = (c, arg) # getopt_long ws"
proof -
  have c: "find_long (opt_name c) = Some (True, c)" "\<forall>x \<in> set (opt_name c). x \<noteq> CHR ''=''" "short_opts c = Some True"
    "c \<noteq> CHR ''-''" "opt_name c \<noteq> []"
    using assms by (auto simp: find_long_def long_opts_def opt_name_def short_opts_def)
  have "getopt_word (opt_name c @ CHR ''='' # arg) ws = ((c, arg), ws)" "getopt_word (opt_name c) (arg # ws) = ((c, arg), ws)"
    using c(1,2) by (simp_all add: getopt_word_def takeWhile_append2 dropWhile_append2 takeWhile_eq_all_conv [THEN iffD2]
        dropWhile_eq_Nil_conv [THEN iffD2])
  then show ?thesis
    using c(3-5) assms by (cases sp) simp_all
qed

lemma getopt_spelled:
  "list_all spellable os \<Longrightarrow> getopt_long (concat (map spell os) @ ws) = map snd os @ getopt_long ws"
proof (induction os)
  case (Cons x os)
  obtain sp c arg where x: "x = (sp, c, arg)" by (cases x)
  show ?case using getopt_spell [of sp c arg] Cons by (simp add: x)
qed simp

text \<open>A decimal number and a suffix of the size.\<close>

definition size_suffixes :: "(string \<times> nat) set" where
  "size_suffixes = {([], 0), (''k'', 10), (''K'', 10), (''m'', 20), (''M'', 20), (''g'', 30), (''G'', 30)}"

lemma parse_size_dec:
  assumes "0 < n" and "n < 2 ^ 64" and "(suf, k) \<in> size_suffixes"
  shows "parse_size (dec n @ suf) = Some (of_nat n * 2 ^ k)"
proof -
  have "suf = [] \<or> 10 \<le> digit_val (hd suf)"
    using assms(3) by (auto simp: digit_val_def size_suffixes_def)
  from strtoull_dec [OF assms(1,2) this] show ?thesis
    using assms(3) by (auto simp: parse_size_def size_suffixes_def)
qed

lemma capacity_slots_eq:
  "capacity_slots c = (if unat c < 4112 then None else Some (of_nat (min (unat c div 4112) 4294967295)))"
proof -
  let ?s = "c div 4112"
  have s: "unat ?s = unat c div 4112" by (simp add: unat_div_distrib)
  have z: "?s = 0 \<longleftrightarrow> unat c < 4112"
    using s by (simp add: word_unat_eq_iff div_eq_0_iff)
  have big: "?s > 0xffffffff \<longleftrightarrow> 4294967295 < unat c div 4112"
    using s by (simp add: word_less_nat_alt)
  have "(ucast ?s :: u32) = of_nat (unat c div 4112)" by (simp flip: s)
  then show ?thesis
    using z big by (auto simp: capacity_slots_def Let_def min_def)
qed

text \<open>Without a size the device has as many keys as 2 gigabytes hold.\<close>

lemma main_args_default: "main_args version [argv0, ''-s'', path] = Inr (path, 522247)"
  by (simp add: main_args_def short_opts_def capacity_slots_eq)

end
