(* ===== verification/MainProgram.thy ===== *)
theory MainProgram
  imports NvmeRegs CommandLine
begin

text \<open>
  The program entry of \<^verbatim>\<open>src/main.c\<close>: from the command line to the set-up of the vfio-user device
  and the serving loop. The libvfio-user calls of \<open>main\<close> are modelled by their outcomes, which are
  arguments, and by the order in which they are made. The lemmas are about the order of set-up and
  clean-up and about the end of the program after a signal.
\<close>

section \<open>Configuration space and MSI-X\<close>

text \<open>The class code bytes that \<open>main\<close> writes into the PCI configuration space.\<close>

definition pci_class_init :: "bytes \<Rightarrow> bytes" where
  "pci_class_init cfg = cfg[0x08 := 0x00, 0x09 := 0x02, 0x0a := 0x08, 0x0b := 0x01]"

text \<open>
  The fields of \<open>struct msixcap\<close> that \<open>main\<close> sets: capability identifier, next pointer, table
  size (zero-based), and BAR and offset (in units of eight bytes) of table and pending bits.
\<close>

record msixcap =
  hdr_id :: nat
  hdr_next :: nat
  mxc_ts :: nat
  mtab_tbir :: nat
  mtab_to :: nat
  mpba_pbir :: nat
  mpba_pbao :: nat

abbreviation (input) PCI_CAP_ID_MSIX :: nat where "PCI_CAP_ID_MSIX \<equiv> 0x11"
abbreviation (input) NVME_NUM_IRQS :: nat where "NVME_NUM_IRQS \<equiv> NVME_MAX_QUEUES"
abbreviation (input) NVME_MSIX_BAR :: nat where "NVME_MSIX_BAR \<equiv> 4"
abbreviation (input) NVME_MSIX_TABLE_OFFSET :: nat where "NVME_MSIX_TABLE_OFFSET \<equiv> 0"
abbreviation (input) NVME_MSIX_PBA_OFFSET :: nat where "NVME_MSIX_PBA_OFFSET \<equiv> 1024"

definition main_msixcap :: msixcap where
  "main_msixcap = \<lparr>hdr_id = PCI_CAP_ID_MSIX, hdr_next = 0, mxc_ts = NVME_NUM_IRQS - 1,
     mtab_tbir = NVME_MSIX_BAR, mtab_to = drop_bit 3 NVME_MSIX_TABLE_OFFSET,
     mpba_pbir = NVME_MSIX_BAR, mpba_pbao = drop_bit 3 NVME_MSIX_PBA_OFFSET\<rparr>"

section \<open>Set-up, serving, clean-up\<close>

datatype main_call =
    Create_ctx | Setup_log | Pci_init | Pci_set_id | Pci_class | Setup_bar0 | Setup_bar4 | Add_msix_cap
  | Setup_dma | Setup_reset_cb | Setup_irqs | Ctrl_init | Realize_ctx | Serve | Ctrl_teardown | Destroy_ctx

text \<open>
  The calls between \<open>vfu_setup_log\<close> and \<open>nvme_ctrl_init\<close>, in order: the first one that
  fails ends the list. Each is made with the outcome \<open>ok\<close> gives; logging and the writes to the
  configuration space cannot fail.
\<close>

definition setup_calls :: "main_call list" where
  "setup_calls = [Pci_init, Pci_set_id, Pci_class, Setup_bar0, Setup_bar4, Add_msix_cap, Setup_dma,
     Setup_reset_cb, Setup_irqs]"

fun main_setup :: "(main_call \<Rightarrow> bool) \<Rightarrow> main_call list \<Rightarrow> main_call list \<times> bool" where
  "main_setup ok [] = ([], True)"
| "main_setup ok (c # cs) =
     (if c = Pci_set_id \<or> c = Pci_class \<or> ok c
      then (let (tr, r) = main_setup ok cs in (c # tr, r))
      else ([c], False))"

text \<open>
  The serving loop. A session is what one round of the outer loop meets: whether a signal arrives
  before the test of \<open>g_stop\<close>, the outcome of \<open>vfu_attach_ctx\<close>, and for each call of
  \<open>vfu_run_ctx\<close> its outcome and whether a signal arrives during it. \<open>on_signal\<close> is the signal
  handler. \<open>None\<close> means that the list of events ends while the program is still serving.
\<close>

datatype attach_ret = Attach_ok | Attach_again | Attach_error
datatype run_ret = Run_ok | Run_notconn | Run_intr | Run_error

record session =
  sig_before :: bool
  attach :: attach_ret
  runs :: "(run_ret \<times> bool) list"

definition on_signal :: "bool \<Rightarrow> bool" where
  "on_signal g_stop = True"

fun run_inner :: "bool \<Rightarrow> (run_ret \<times> bool) list \<Rightarrow> (run_ret \<times> bool) option" where
  "run_inner g_stop [] = None"
| "run_inner g_stop ((r, sig) # rs) =
     (let g_stop = (if sig then on_signal g_stop else g_stop) in
      if r = Run_ok \<and> \<not> g_stop then run_inner g_stop rs else Some (r, g_stop))"

fun main_loop :: "bool \<Rightarrow> session list \<Rightarrow> unit option" where
  "main_loop g_stop [] = None"
| "main_loop g_stop (s # ss) =
     (let g_stop = (if sig_before s then on_signal g_stop else g_stop) in
      if g_stop then Some ()
      else
        (case attach s of
          Attach_again \<Rightarrow> main_loop g_stop ss
        | Attach_error \<Rightarrow> Some ()
        | Attach_ok \<Rightarrow>
            (case run_inner g_stop (runs s) of
              None \<Rightarrow> None
            | Some (ret, g_stop) \<Rightarrow>
                (if ret = Run_notconn then main_loop g_stop ss
                 else if ret = Run_error then Some ()
                 else main_loop g_stop ss))))"

text \<open>
  The whole program: exit code (\<open>None\<close> while it is serving) and the calls it made. The outcome
  of \<open>nvme_ctrl_init\<close> is that of the controller on the heap \<open>h\<close>.
\<close>

definition main_program ::
    "string \<Rightarrow> string list \<Rightarrow> (main_call \<Rightarrow> bool) \<Rightarrow> 's heap_scheme \<Rightarrow> session list \<Rightarrow> int option \<times> main_call list" where
  "main_program version argv ok h ss =
     (case main_args version argv of
       Inl (e, _) \<Rightarrow> (Some e, [])
     | Inr (sock, mx) \<Rightarrow>
         (if \<not> ok Create_ctx then (Some 1, [Create_ctx])
          else
            let (tr, good) = main_setup ok setup_calls; tr = [Create_ctx, Setup_log] @ tr in
            if \<not> good then (Some 1, tr @ [Destroy_ctx])
            else if fst (nvme_ctrl_init mx h) < 0 then (Some 1, tr @ [Ctrl_init, Destroy_ctx])
            else if \<not> ok Realize_ctx then
              (Some 1, tr @ [Ctrl_init, Realize_ctx, Ctrl_teardown, Destroy_ctx])
            else
              (case main_loop False ss of
                None \<Rightarrow> (None, tr @ [Ctrl_init, Realize_ctx, Serve])
              | Some _ \<Rightarrow> (Some 0, tr @ [Ctrl_init, Realize_ctx, Serve, Ctrl_teardown, Destroy_ctx]))))"

text \<open>\<open>nvme_reset_cb\<close>: the reset callback resets the controller and reports success.\<close>

definition nvme_reset_cb :: "nvme_ctrl \<Rightarrow> int \<times> nvme_ctrl" where
  "nvme_reset_cb n = (0, nvme_ctrl_reset n)"

section \<open>Traces\<close>

lemma main_setup_calls: "set (fst (main_setup ok cs)) \<subseteq> set cs"
  by (induction ok cs rule: main_setup.induct) (auto simp: Let_def split_def)

lemma main_setup_good:
  "snd (main_setup ok cs) \<Longrightarrow> fst (main_setup ok cs) = cs \<and> (\<forall>c \<in> set cs. c = Pci_set_id \<or> c = Pci_class \<or> ok c)"
  by (induction ok cs rule: main_setup.induct) (auto simp: Let_def split_def split: if_splits)

lemma main_setup_count:
  "c \<notin> set setup_calls \<Longrightarrow> count_list (fst (main_setup ok setup_calls)) c = 0"
  using main_setup_calls [of ok setup_calls] by (auto simp: count_list_0_iff)

text \<open>The ways in which \<open>main\<close> ends, or serves.\<close>

lemma main_program_cases:
  assumes "main_program v argv ok h ss = (rc, tr)"
  obtains (early) e where "rc = Some e" "tr = []"
    | (no_ctx) "rc = Some 1" "tr = [Create_ctx]" "\<not> ok Create_ctx"
    | (config) "rc = Some 1" "ok Create_ctx"
        "tr = [Create_ctx, Setup_log] @ fst (main_setup ok setup_calls) @ [Destroy_ctx]"
    | (init) sock mx where "rc = Some 1" "ok Create_ctx" "main_args v argv = Inr (sock, mx)" "fst (nvme_ctrl_init mx h) < 0"
        "tr = [Create_ctx, Setup_log] @ fst (main_setup ok setup_calls) @ [Ctrl_init, Destroy_ctx]"
    | (realize) sock mx where "rc = Some 1" "ok Create_ctx" "main_args v argv = Inr (sock, mx)" "0 \<le> fst (nvme_ctrl_init mx h)"
        "tr = [Create_ctx, Setup_log] @ fst (main_setup ok setup_calls) @
           [Ctrl_init, Realize_ctx, Ctrl_teardown, Destroy_ctx]"
    | (serving) "rc = None" "ok Create_ctx"
        "tr = [Create_ctx, Setup_log] @ fst (main_setup ok setup_calls) @ [Ctrl_init, Realize_ctx, Serve]"
    | (finished) sock mx where "rc = Some 0" "ok Create_ctx" "main_args v argv = Inr (sock, mx)" "0 \<le> fst (nvme_ctrl_init mx h)"
        "tr = [Create_ctx, Setup_log] @ fst (main_setup ok setup_calls) @
           [Ctrl_init, Realize_ctx, Serve, Ctrl_teardown, Destroy_ctx]"
  using assms unfolding main_program_def
  by (auto simp: Let_def split_def split: if_splits sum.splits option.splits)

section \<open>Signals\<close>

text \<open>
  A session is complete when its calls of \<open>vfu_run_ctx\<close> come to an end, that is when the last one
  fails or a signal arrives. After complete sessions of which one saw a signal, the serving loop
  has ended by the next test of \<open>g_stop\<close>.
\<close>

definition session_complete :: "session \<Rightarrow> bool" where
  "session_complete s \<longleftrightarrow> attach s = Attach_ok \<longrightarrow> list_ex (\<lambda>(r, sig). r \<noteq> Run_ok \<or> sig) (runs s)"

lemma run_inner_ends:
  "list_ex (\<lambda>(r, sig). r \<noteq> Run_ok \<or> sig) rs \<Longrightarrow> \<exists>r g'. run_inner g rs = Some (r, g')"
  by (induction g rs rule: run_inner.induct) (auto simp: Let_def on_signal_def)

text \<open>The inner loop ends with a successful call only when a signal has arrived, and keeps it.\<close>

lemma run_inner_ok_stop: "run_inner g rs = Some (Run_ok, g') \<Longrightarrow> g'"
  by (induction g rs rule: run_inner.induct) (auto simp: Let_def on_signal_def split: if_splits)

lemma run_inner_stop: "run_inner True rs = Some (r, g') \<Longrightarrow> g'"
  by (cases rs) (auto simp: Let_def on_signal_def split: if_splits)

lemma main_loop_stopped [simp]: "main_loop True (s # ss) = Some ()"
  by (simp add: on_signal_def)

lemma main_loop_signal:
  assumes "\<forall>s \<in> set ss. session_complete s" and "sig_before t"
  shows "main_loop g (ss @ t # us) = Some ()"
  using assms
proof (induction ss arbitrary: g)
  case (Cons s ss)
  then have "\<exists>r g'. run_inner False (runs s) = Some (r, g')" if "attach s = Attach_ok"
    using that run_inner_ends [of "runs s" False] by (simp add: session_complete_def)
  with Cons show ?case by (auto simp: Let_def on_signal_def split: attach_ret.splits)
qed (simp add: on_signal_def)

section \<open>MSI-X layout\<close>

text \<open>
  The vector table (16 bytes per vector) and the pending bit array (one bit per vector, in units
  of eight bytes) that the capability announces do not overlap and lie inside BAR4, and there is
  a vector for every queue.
\<close>

lemma main_msixcap_layout:
  "let n = mxc_ts main_msixcap + 1; t = 8 * mtab_to main_msixcap; p = 8 * mpba_pbao main_msixcap in
   n = NVME_MAX_QUEUES \<and> t + 16 * n \<le> p \<and> p + 8 * ((n + 63) div 64) \<le> NVME_MSIX_BAR_SIZE"
  by (simp add: main_msixcap_def Let_def drop_bit_eq_div)

end
