(* ===== verification/Scenario.thy ===== *)
theory Scenario
  imports NvmeRegs
begin

text \<open>
  A concrete instance of the environment: a libvfio-user context whose DMA regions map guest
  addresses to themselves in one segment, a host with memory to spare, the controller as
  \<open>nvme_ctrl_init\<close> leaves it and as the host brings it up through the registers, and sample
  commands. The properties are applied to these values to show that their hypotheses hold.
\<close>

section \<open>Environment\<close>

definition id_vfu :: "(nat \<times> nat) vfu_ctx" where
  "id_vfu = \<lparr>vfu_addr_to_sgl = (\<lambda>a n m w. if m = 0 then None else Some [(unat a, n)]),
     vfu_sgl_get = Some\<rparr>"

definition host0 :: host where
  "host0 = \<lparr>allocs = (\<lambda>_. True), junk = (\<lambda>_. 0xcc), hmem = (\<lambda>a. word_of_nat a), irqs = []\<rparr>"

lemma id_vfu_ok: "vfu_ok id_vfu id"
  unfolding vfu_ok_def by (rule exI [of _ id]) (auto simp: id_vfu_def split: if_splits)

text \<open>A context without any DMA region.\<close>

definition unmapped_vfu :: "(nat \<times> nat) vfu_ctx" where
  "unmapped_vfu = \<lparr>vfu_addr_to_sgl = (\<lambda>a n m w. None), vfu_sgl_get = (\<lambda>_. None)\<rparr>"

lemma unmapped_vfu_ok: "vfu_ok unmapped_vfu tr"
  by (simp add: vfu_ok_def unmapped_vfu_def)

lemma host0_simps [simp]:
  "allocs host0 i" "hmem host0 = (\<lambda>a. word_of_nat a)" "irqs host0 = []"
  "alloc host0 = (True, host0)"
  by (simp_all add: host0_def alloc_def)

text \<open>Transfers of at most a page and a bit always succeed in this context.\<close>

lemma id_vfu_prp:
  assumes "allocs h 0" and "len - prp_first p1 len \<le> 4096"
  shows "fst (nvme_prp_xfer id_vfu p1 p2 buf len w h) = 0"
proof -
  have get: "vfu_sgl_get id_vfu = Some" by (simp add: id_vfu_def)
  have "fst (nvme_sgl_copy id_vfu [(a, prp_first p1 len)] buf len w h') = 0" if "len \<le> prp_first p1 len" for a h'
    using that by (intro nvme_sgl_copy_rc [OF _ _ fun_cong [OF get]]) simp_all
  moreover have "fst (nvme_sgl_copy id_vfu [(a, prp_first p1 len), (b, len - prp_first p1 len)] buf len w h') = 0"
    for a b h'
    by (intro nvme_sgl_copy_rc [OF _ _ fun_cong [OF get]]) simp_all
  moreover have "vfu_addr_to_sgl id_vfu = (\<lambda>a n m w. if m = 0 then None else Some [(unat a, n)])"
    by (simp add: id_vfu_def)
  ultimately show ?thesis
    using assms by (auto simp: nvme_prp_xfer_def alloc_def Let_def)
qed

section \<open>Namespace and controller\<close>

definition ns0 :: kv_ns where
  "ns0 = fst (snd (kv_ns_init zero_ns 4 host0))"

definition ctrl0 :: nvme_ctrl where
  "ctrl0 = fst (snd (nvme_ctrl_init 4 host0))"

lemma ns0_init: "kv_ns_init zero_ns 4 host0 = (0, ns0, host0)"
  by (simp add: ns0_def kv_ns_init_def Let_def)

lemma ns0_inv: "kv_inv ns0" "kv_abs ns0 = Map.empty"
  using kv_ns_init_inv [OF ns0_init] by simp_all

lemma ns0_fields [simp]: "max_num_keys ns0 = 4" "ednek ns0 = 0" "entries_allocated ns0 = 16"
  "pairs ns0 = replicate 16 zero_pair"
  by (simp_all add: ns0_def kv_ns_init_def)

lemma ctrl0_init: "nvme_ctrl_init 4 host0 = (0, ctrl0, host0)"
  by (simp add: ctrl0_def nvme_ctrl_init_def kv_ns_init_def Let_def)

lemma ctrl0_inv: "ctrl_inv ctrl0" "kv_abs (n_ns ctrl0) = Map.empty"
  using nvme_ctrl_init_inv [OF ctrl0_init] by simp_all

text \<open>After the writes of AQA (sixteen entries each), ASQ, ACQ and CC.EN.\<close>

definition ctrl1 :: nvme_ctrl where
  "ctrl1 = nvme_cc_write (ctrl0\<lparr>n_aqa := 0x000f000f, n_asq := 0x10000, n_acq := 0x20000\<rparr>) 1"

lemma ctrl1_inv: "ctrl_inv ctrl1"
  unfolding ctrl1_def using ctrl0_inv(1) by (intro nvme_cc_write_inv) (simp add: ctrl_inv_def)

lemma ctrl0_regs [simp]: "n_cc ctrl0 = 0" "n_csts ctrl0 = 0" "n_ns ctrl0 = ns0"
  "n_sq ctrl0 = replicate 64 zero_sq" "n_cq ctrl0 = replicate 64 zero_cq"
  "n_cap ctrl0 = 0x8200f0103ff" "n_vs ctrl0 = 0x20000"
  by (simp_all add: ctrl0_def nvme_ctrl_init_def zero_ctrl_def Let_def ns0_init)

lemma ctrl1_queues [simp]: "n_csts ctrl1 = 1" "n_cc ctrl1 = 1" "n_ns ctrl1 = ns0"
  "n_sq ctrl1 ! 0 = zero_sq\<lparr>sq_dma := 0x10000, sq_size := 16, sq_enabled := True\<rparr>"
  "n_cq ctrl1 ! 0 = zero_cq\<lparr>cq_dma := 0x20000, cq_size := 16, cq_phase := 1, cq_enabled := True\<rparr>"
  by (simp_all add: ctrl1_def nvme_cc_write_def nvme_enable_def Let_def zero_sq_def zero_cq_def)

lemma ns0_not_full [simp]: "\<not> kv_full ns0"
  by (simp add: kv_full_def list_all_iff)

section \<open>Commands\<close>

text \<open>A KV command with a key of \<open>kl\<close> bytes taken from a 64-bit number, and its generic form.\<close>

definition kv_sqe :: "u8 \<Rightarrow> u32 \<Rightarrow> u32 \<Rightarrow> u64 \<Rightarrow> u32 \<Rightarrow> NvmeSqe" where
  "kv_sqe opc key klro prp len = \<lparr>sqe_opcode = opc, sqe_flags = 0, sqe_cid = 7, sqe_nsid = 1,
     sqe_cdw2 = key, sqe_cdw3 = 0, sqe_mptr = 0, sqe_prp1 = prp, sqe_prp2 = 0, sqe_cdw10 = len,
     sqe_cdw11 = klro, sqe_cdw12 = 0, sqe_cdw13 = 0, sqe_cdw14 = 0, sqe_cdw15 = 0\<rparr>"

definition kv_cmd0 :: "u8 \<Rightarrow> u32 \<Rightarrow> u32 \<Rightarrow> u64 \<Rightarrow> u32 \<Rightarrow> NvmeKVCmd" where
  "kv_cmd0 opc key klro prp len = kvcmd_of_sqe (kv_sqe opc key klro prp len)"

lemma kv_cmd0_fields [simp]:
  "kvc_opcode (kv_cmd0 opc key klro prp len) = opc"
  "kl (kvc_cdw11 (kv_cmd0 opc key klro prp len)) = ucast klro"
  "ro (kvc_cdw11 (kv_cmd0 opc key klro prp len)) = ucast (drop_bit 8 klro)"
  "kvc_hbs (kv_cmd0 opc key klro prp len) = len" "kvc_prp1 (kv_cmd0 opc key klro prp len) = prp"
  "kvc_prp2 (kv_cmd0 opc key klro prp len) = 0" "kvc_key (kv_cmd0 opc key klro prp len) = ucast key"
  "kvc_key_hi (kv_cmd0 opc key klro prp len) = 0"
  by (simp_all add: kv_cmd0_def kvcmd_of_sqe_fields kv_sqe_def)

section \<open>An I/O queue\<close>

lemma id_vfu_ring: "ring_mapped id_vfu sq"
  by (simp add: ring_mapped_def fetchable_def id_vfu_def)

text \<open>
  The controller after Create I/O Completion Queue and Create I/O Submission Queue, each with
  sixteen entries and identifier 1. The submission ring starts at an address where the sample
  guest memory holds the opcode of a store.
\<close>

definition ctrl2 :: nvme_ctrl where
  "ctrl2 = snd (nvme_admin_create_sq (snd (nvme_admin_create_cq ctrl1 (kv_sqe 5 0 0x00010003 0x50000 0x000f0001)))
     (kv_sqe 1 0 0x00010001 0x40001 0x000f0001))"

lemma ctrl2_queue:
  "n_sq ctrl2 ! Suc 0 = zero_sq\<lparr>sq_dma := 0x40001, sq_size := 16, sq_qid := 1, sq_cqid := 1, sq_enabled := True\<rparr>"
  "n_cq ctrl2 ! Suc 0 = zero_cq\<lparr>cq_dma := 0x50000, cq_size := 16, cq_qid := 1, cq_phase := 1, cq_irq := 1, cq_enabled := True\<rparr>"
  "n_ns ctrl2 = ns0"
  using ctrl_invD(1,2) [OF ctrl1_inv]
  by (simp_all add: ctrl2_def nvme_admin_create_sq_def nvme_admin_create_cq_def kv_sqe_def zero_sq_def zero_cq_def)

lemma ctrl2_live: "sq_live 1 ctrl2"
proof -
  let ?c = "nvme_admin_create_cq ctrl1 (kv_sqe 5 0 0x00010003 0x50000 0x000f0001)"
  let ?s = "nvme_admin_create_sq (snd ?c) (kv_sqe 1 0 0x00010001 0x40001 0x000f0001)"
  have c: "ctrl_inv (snd ?c)" "admin_frame ctrl1 (snd ?c)"
    by (rule nvme_admin_create_cq_inv [OF ctrl1_inv, of _ "fst ?c"]; simp)+
  then have "n_csts (snd ?c) = 1" by (simp add: admin_frame_def)
  then have "ctrl_inv ctrl2"
    unfolding ctrl2_def by (rule nvme_admin_create_sq_inv(1) [OF c(1), of _ "fst ?s"]) simp
  then show ?thesis by (simp add: sq_live_def ctrl2_queue)
qed

end
