(* ===== verification/KvProperties.thy ===== *)
theory KvProperties
  imports Scenario
begin

text \<open>
  The properties of the KV store: each handler of \<^verbatim>\<open>src/kv.c\<close>, run over the PRP transport of
  \<^verbatim>\<open>src/nvme.c\<close>, against its specification on the abstract map, the accounting of the namespace
  descriptor, the content of a key list, and what successive commands do to each other.
\<close>

section \<open>Effects over the PRP transport\<close>

text \<open>A value buffer always has its full size.\<close>

lemma kv_abs_length:
  assumes "kv_inv ns" and "kv_abs ns k = Some v"
  shows "length v = 4096"
  using assms list_all_nthD [OF kv_invD(2) [OF assms(1)]] slots_map_eq_Some [OF kv_invD(3) [OF assms(1)]]
  by (auto simp: kv_abs_def pair_wf_def)

lemma finite_kv_abs: "finite (dom (kv_abs ns))"
proof (rule finite_subset)
  show "dom (kv_abs ns) \<subseteq> pair_key ` set (pairs ns)"
    by (auto simp: kv_abs_def slots_map_def find_Some_iff)
qed simp

text \<open>The guest bytes a command points at, and the buffer an update starts from.\<close>

definition guest_bytes :: "(nat \<Rightarrow> nat) \<Rightarrow> host \<Rightarrow> NvmeKVCmd \<Rightarrow> nat \<Rightarrow> bytes" where
  "guest_bytes tr h cmd len = map (\<lambda>a. hmem h (tr a)) (prp_addrs (kvc_prp1 cmd) (kvc_prp2 cmd) len)"

definition old_value :: "kv_ns \<Rightarrow> bytes \<Rightarrow> bytes" where
  "old_value ns k = (case kv_abs ns k of Some v \<Rightarrow> v | None \<Rightarrow> replicate 4096 0)"

lemma length_guest_bytes [simp]: "length (guest_bytes tr h cmd len) = len"
  by (simp add: guest_bytes_def)

lemma length_old_value: "kv_inv ns \<Longrightarrow> length (old_value ns k) = 4096"
  by (auto simp: old_value_def dest: kv_abs_length split: option.splits)

lemma kvdma_h2c_effect:
  assumes "vfu_ok vfu tr" and "n \<le> length v" and "h2c (kvdma vfu) cmd v n h = (rc, v', h')"
  shows "hmem h' = hmem h" and "v' = (if rc = 0 then guest_bytes tr h cmd n @ drop n v else v)"
proof -
  have x: "nvme_prp_xfer vfu (kvc_prp1 cmd) (kvc_prp2 cmd) v n False h = (rc, v', h')"
    using assms(3) by (simp add: kvdma_def kvdma_h2c_def)
  show "hmem h' = hmem h" "v' = (if rc = 0 then guest_bytes tr h cmd n @ drop n v else v)"
    unfolding guest_bytes_def by (rule nvme_prp_xfer_from_host [OF assms(1,2) x])+
qed

lemma kvdma_c2h_effect:
  assumes "vfu_ok vfu tr" and "n \<le> length v" and "c2h (kvdma vfu) cmd v n h = (rc, h')"
  shows "hmem h' = (if rc = 0
    then mem_writes (hmem h) (map tr (prp_addrs (kvc_prp1 cmd) (kvc_prp2 cmd) n)) v else hmem h)"
  using nvme_prp_xfer_to_host(3) [OF assms(1,2)] assms(3)
  by (auto simp: kvdma_def kvdma_c2h_def split: prod.splits)

text \<open>Only the transfer itself succeeds or fails with \<open>NVME_INVALID_FIELD\<close>.\<close>

lemma spec_store_put:
  assumes "spec_store dma cmd mx full m h = (st, m', h')" and "st = NVME_SUCCESS \<or> st = NVME_INVALID_FIELD"
  obtains v h1 rc v' where "unat (kl (kvc_cdw11 cmd)) \<le> 16" "unat (kvc_hbs cmd) \<le> 4096"
    "v = (case m (cmd_key cmd) of Some v \<Rightarrow> v | None \<Rightarrow> replicate 4096 0)"
    "h1 = h \<or> h1 = snd (alloc h)" "h2c dma cmd v (unat (kvc_hbs cmd)) h1 = (rc, v', h')"
    "m' = m(cmd_key cmd \<mapsto> v')" "st = NVME_SUCCESS \<longleftrightarrow> rc = 0"
  using assms
  by (auto simp: spec_store_def Let_def split: if_splits option.splits prod.splits)

lemma kv_store_put:
  assumes inv: "kv_inv ns" and ok: "vfu_ok vfu tr"
    and eq: "kv_store (kvdma vfu) cmd ns h = Inr (st, ns', h')"
    and st: "st = NVME_SUCCESS \<or> st = NVME_INVALID_FIELD"
  shows "unat (kl (kvc_cdw11 cmd)) \<le> 16" and "unat (kvc_hbs cmd) \<le> 4096"
    and "kv_abs ns' = (kv_abs ns)(cmd_key cmd \<mapsto>
      (if st = NVME_SUCCESS
       then guest_bytes tr h cmd (unat (kvc_hbs cmd)) @ drop (unat (kvc_hbs cmd)) (old_value ns (cmd_key cmd))
       else old_value ns (cmd_key cmd)))"
    and "kv_inv ns'" and "hmem h' = hmem h"
proof -
  have sp: "spec_store (kvdma vfu) cmd (unat (max_num_keys ns)) (kv_full ns) (kv_abs ns) h = (st, kv_abs ns', h')"
      "kv_inv ns'"
    using kvdma.kv_store_refines [OF inv, of vfu cmd h] eq by (auto simp: refines_def prod_eq_iff)
  obtain v h1 rc v' where p: "unat (kl (kvc_cdw11 cmd)) \<le> 16" "unat (kvc_hbs cmd) \<le> 4096"
    "v = (case kv_abs ns (cmd_key cmd) of Some v \<Rightarrow> v | None \<Rightarrow> replicate 4096 0)"
    "h1 = h \<or> h1 = snd (alloc h)" "h2c (kvdma vfu) cmd v (unat (kvc_hbs cmd)) h1 = (rc, v', h')"
    "kv_abs ns' = (kv_abs ns)(cmd_key cmd \<mapsto> v')" "st = NVME_SUCCESS \<longleftrightarrow> rc = 0"
    by (rule spec_store_put [OF sp(1) st])
  have v: "v = old_value ns (cmd_key cmd)" "length v = 4096"
    using p(3) length_old_value [OF inv, of "cmd_key cmd"] by (simp_all add: old_value_def)
  have h1: "hmem h1 = hmem h" using p(4) by (auto simp: alloc_def)
  note eff = kvdma_h2c_effect [OF ok _ p(5)]
  show "kv_abs ns' = (kv_abs ns)(cmd_key cmd \<mapsto>
      (if st = NVME_SUCCESS
       then guest_bytes tr h cmd (unat (kvc_hbs cmd)) @ drop (unat (kvc_hbs cmd)) (old_value ns (cmd_key cmd))
       else old_value ns (cmd_key cmd)))"
    using eff(2) v h1 p(2,6,7) by (simp add: guest_bytes_def)
  show "hmem h' = hmem h" using eff(1) v h1 p(2) by simp
  show "unat (kl (kvc_cdw11 cmd)) \<le> 16" "unat (kvc_hbs cmd) \<le> 4096" "kv_inv ns'" using p sp by simp_all
qed

text \<open>A store never writes guest memory.\<close>

lemma kv_store_hmem:
  assumes inv: "kv_inv ns" and ok: "vfu_ok vfu tr" and eq: "kv_store (kvdma vfu) cmd ns h = Inr (st, ns', h')"
  shows "hmem h' = hmem h"
proof (cases "st = NVME_SUCCESS \<or> st = NVME_INVALID_FIELD")
  case True
  then show ?thesis by (rule kv_store_put(5) [OF inv ok eq])
next
  case False
  have "spec_store (kvdma vfu) cmd (unat (max_num_keys ns)) (kv_full ns) (kv_abs ns) h = (st, kv_abs ns', h')"
    using kvdma.kv_store_refines [OF inv, of vfu cmd h] eq by (auto simp: refines_def prod_eq_iff)
  then have "h' = h \<or> h' = snd (alloc h)"
    using False by (auto simp: spec_store_def Let_def split: if_splits option.splits prod.splits)
  then show ?thesis by (auto simp: alloc_def)
qed

lemma kv_retrieve_success:
  assumes inv: "kv_inv ns" and ok: "vfu_ok vfu tr"
    and eq: "kv_retrieve (kvdma vfu) cmd ns h = (NVME_SUCCESS, h')"
  obtains v where "kv_abs ns (cmd_key cmd) = Some v"
    "hmem h' = mem_writes (hmem h) (map tr (prp_addrs (kvc_prp1 cmd) (kvc_prp2 cmd)
       (min (unat (kvc_hbs cmd)) 4096))) v"
proof -
  obtain v rc where v: "kv_abs ns (cmd_key cmd) = Some v"
      "c2h (kvdma vfu) cmd v (min (unat (kvc_hbs cmd)) 4096) h = (rc, h')" "rc = 0"
    using eq kv_retrieve_refines [OF inv, of "kvdma vfu" cmd h]
    by (auto simp: spec_retrieve_def Let_def split: if_splits option.splits prod.splits)
  with that kvdma_c2h_effect [OF ok _ v(2)] kv_abs_length [OF inv v(1)] show ?thesis by simp
qed

section \<open>Handlers\<close>

text \<open>C1: Under the namespace invariant, whose capacity is at most \<open>2 ^ 31\<close> keys, \<open>kv_store\<close> never reaches undefined behaviour, returns the status
  that the specification demands on every branch (key size, value size, both store options,
  capacity, allocation failure, transfer failure), changes the stored map exactly as specified
  and keeps the invariant, the capacity and the \<open>ednek\<close> setting.\<close>

theorem kv_store_correct:
  assumes "kv_inv ns"
  shows "refines ns (kv_store (kvdma vfu) cmd ns h)
    (spec_store (kvdma vfu) cmd (unat (max_num_keys ns)) (kv_full ns) (kv_abs ns) h)"
  using assms by (rule kvdma.kv_store_refines)

theorem kv_store_correct_witness:
  "kv_inv ns0 \<and> refines ns0 (kv_store (kvdma id_vfu) (kv_cmd0 1 0x41 1 0x3000 8) ns0 host0)
    (spec_store (kvdma id_vfu) (kv_cmd0 1 0x41 1 0x3000 8) (unat (max_num_keys ns0)) (kv_full ns0) (kv_abs ns0) host0)"
  using kv_store_correct [OF ns0_inv(1)] ns0_inv(1) by blast

text \<open>C13: Under the invariant \<open>kv_retrieve\<close> computes its specification: the buffer of the named key is sent
  to the host, cut to the host buffer size, or the key is reported missing or too long.\<close>

theorem kv_retrieve_correct:
  assumes "kv_inv ns"
  shows "kv_retrieve dma cmd ns s = spec_retrieve dma cmd (kv_abs ns) s"
  using assms by (rule kv_retrieve_refines)

theorem kv_retrieve_correct_witness:
  "kv_retrieve (kvdma id_vfu) (kv_cmd0 2 0x41 1 0x3000 8) ns0 host0 = (NVME_KV_KEY_NOT_EXISTS, host0)"
  using kv_retrieve_correct [OF ns0_inv(1), of "kvdma id_vfu" "kv_cmd0 2 0x41 1 0x3000 8" host0]
  by (simp add: spec_retrieve_def ns0_inv(2))

text \<open>C12: Under the invariant \<open>kv_delete\<close> removes exactly the named key, reports a missing key only when the
  EDNEK feature asks for it, and keeps the invariant; it never touches a null descriptor.\<close>

theorem kv_delete_correct:
  assumes "kv_inv ns"
  shows "\<exists>st ns'. kv_delete cmd ns = Inr (st, ns') \<and>
    (st, kv_abs ns') = spec_delete cmd (ednek ns AND 1 \<noteq> 0) (kv_abs ns) \<and>
    kv_inv ns' \<and> max_num_keys ns' = max_num_keys ns \<and> ednek ns' = ednek ns"
  using kv_delete_refines [OF assms, of cmd] by (metis prod.collapse)

theorem kv_delete_correct_witness:
  "\<exists>ns'. kv_delete (kv_cmd0 0x10 0x41 1 0 0) ns0 = Inr (NVME_SUCCESS, ns') \<and> kv_abs ns' = Map.empty"
  using kv_delete_correct [OF ns0_inv(1), of "kv_cmd0 0x10 0x41 1 0 0"]
  by (auto simp: spec_delete_def ns0_inv(2))

text \<open>C24: Under the invariant \<open>kv_exist\<close> tells whether the named key is in the map.\<close>

theorem kv_exist_correct:
  assumes "kv_inv ns"
  shows "kv_exist cmd ns = spec_exist cmd (kv_abs ns)"
  using assms by (rule kv_exist_refines)

theorem kv_exist_correct_witness: "kv_exist (kv_cmd0 0x14 0x41 1 0 0) ns0 = NVME_KV_KEY_NOT_EXISTS"
  using kv_exist_correct [OF ns0_inv(1), of "kv_cmd0 0x14 0x41 1 0 0"]
  by (simp add: spec_exist_def ns0_inv(2))

section \<open>Sample runs\<close>

lemma ns0_store:
  assumes "unat (ucast klro :: u8) \<le> 16" "unat len \<le> 4096" "(ucast (drop_bit 8 klro) :: u8) = 0"
  obtains ns' h1 where
    "kv_store (kvdma id_vfu) (kv_cmd0 1 key klro prp len) ns0 host0 = Inr (NVME_SUCCESS, ns', h1)"
proof -
  let ?c = "kv_cmd0 1 key klro prp len"
  have "fst (h2c (kvdma id_vfu) ?c (replicate 4096 0) (unat len) host0) = 0"
    using assms id_vfu_prp [of host0 "unat len" prp] by (simp add: kvdma_def kvdma_h2c_def)
  then have "fst (spec_store (kvdma id_vfu) ?c 4 False Map.empty host0) = NVME_SUCCESS"
    using assms by (cases "h2c (kvdma id_vfu) ?c (replicate 4096 0) (unat len) host0") (simp add: spec_store_def Let_def)
  then show ?thesis
    using kvdma.kv_store_refines [OF ns0_inv(1), of id_vfu ?c host0] that
    by (auto simp: refines_def ns0_inv(2))
qed

lemma id_overwrite:
  assumes "kv_inv ns" and "kv_abs ns (cmd_key (kv_cmd0 1 key klro prp len)) = Some v"
    and "unat (ucast klro :: u8) \<le> 16" "unat len \<le> 4096" "(ucast (drop_bit 8 klro) :: u8) = 0" "allocs h 0"
  obtains ns' h1 where
    "kv_store (kvdma id_vfu) (kv_cmd0 1 key klro prp len) ns h = Inr (NVME_SUCCESS, ns', h1)"
proof -
  let ?c = "kv_cmd0 1 key klro prp len"
  have "fst (h2c (kvdma id_vfu) ?c v (unat len) h) = 0"
    using assms id_vfu_prp [of h "unat len" prp] by (simp add: kvdma_def kvdma_h2c_def)
  then have "fst (spec_store (kvdma id_vfu) ?c (unat (max_num_keys ns)) (kv_full ns) (kv_abs ns) h) = NVME_SUCCESS"
    using assms by (cases "h2c (kvdma id_vfu) ?c v (unat len) h") (simp add: spec_store_def Let_def)
  then show ?thesis
    using kvdma.kv_store_refines [OF assms(1), of id_vfu ?c h] that by (auto simp: refines_def)
qed

lemma id_retrieve:
  assumes "kv_inv ns" and "kv_abs ns (cmd_key (kv_cmd0 2 key klro prp len)) = Some v"
    and "unat (ucast klro :: u8) \<le> 16" and "allocs h 0"
  obtains h' where "kv_retrieve (kvdma id_vfu) (kv_cmd0 2 key klro prp len) ns h = (NVME_SUCCESS, h')"
proof -
  let ?c = "kv_cmd0 2 key klro prp len" and ?n = "min (unat len) 4096"
  have "fst (c2h (kvdma id_vfu) ?c v ?n h) = 0"
    using id_vfu_prp [of h ?n prp 0 v True] assms(4)
    by (cases "nvme_prp_xfer id_vfu prp 0 v ?n True h") (simp add: kvdma_def kvdma_c2h_def)
  then show ?thesis
    using kv_retrieve_refines [OF assms(1), of "kvdma id_vfu" ?c h] assms(2,3) that
    by (cases "c2h (kvdma id_vfu) ?c v ?n h") (simp add: spec_retrieve_def)
qed

section \<open>Sequences of commands\<close>

text \<open>C8: A value that was stored is what a later retrieve of the same key puts into guest memory, byte for
  byte, whatever the guest did to its memory in between, for any two PRP layouts and as long as
  the second buffer is not longer than the first and its pages are distinct.\<close>

theorem kv_store_retrieve_roundtrip:
  assumes "kv_inv ns" and "vfu_ok vfu tr"
    and "kv_store (kvdma vfu) c1 ns h = Inr (NVME_SUCCESS, ns', h1)"
    and "kv_retrieve (kvdma vfu) c2 ns' h2 = (NVME_SUCCESS, h3)"
    and "cmd_key c2 = cmd_key c1" and "unat (kvc_hbs c2) \<le> unat (kvc_hbs c1)"
    and "distinct (map tr (prp_addrs (kvc_prp1 c2) (kvc_prp2 c2) (unat (kvc_hbs c2))))"
  shows "guest_bytes tr h3 c2 (unat (kvc_hbs c2)) = take (unat (kvc_hbs c2)) (guest_bytes tr h c1 (unat (kvc_hbs c1)))"
proof -
  let ?n = "unat (kvc_hbs c2)" and ?as = "map tr (prp_addrs (kvc_prp1 c2) (kvc_prp2 c2) (unat (kvc_hbs c2)))"
  note st = kv_store_put [OF assms(1-3)]
  obtain v where v: "kv_abs ns' (cmd_key c2) = Some v"
      "hmem h3 = mem_writes (hmem h2) (map tr (prp_addrs (kvc_prp1 c2) (kvc_prp2 c2) (min ?n 4096))) v"
    using kv_retrieve_success [OF st(4) assms(2,4)] by auto
  have "v = guest_bytes tr h c1 (unat (kvc_hbs c1)) @ drop (unat (kvc_hbs c1)) (old_value ns (cmd_key c1))"
    using st(3) v(1) assms(5) by simp
  then have tv: "take ?n v = take ?n (guest_bytes tr h c1 (unat (kvc_hbs c1)))" "?n \<le> length v"
    using assms(6) by simp_all
  have "hmem h3 = mem_writes (hmem h2) ?as (take ?n v)"
    using v(2) st(2) assms(6) mem_writes_take [of "hmem h2" ?as v] by simp
  then have "map (hmem h3) ?as = take ?n v"
    using mem_writes_read [OF assms(7), of "take ?n v" "hmem h2"] tv(2) by simp
  then show ?thesis using tv(1) by (simp add: guest_bytes_def comp_def)
qed

theorem kv_store_retrieve_roundtrip_witness:
  "\<exists>ns' h1 h3. kv_store (kvdma id_vfu) (kv_cmd0 1 0x41 1 0x3000 8) ns0 host0 = Inr (NVME_SUCCESS, ns', h1) \<and>
    kv_retrieve (kvdma id_vfu) (kv_cmd0 2 0x41 1 0x5000 4) ns' host0 = (NVME_SUCCESS, h3) \<and>
    guest_bytes id h3 (kv_cmd0 2 0x41 1 0x5000 4) 4 = take 4 (guest_bytes id host0 (kv_cmd0 1 0x41 1 0x3000 8) 8)"
proof -
  let ?c1 = "kv_cmd0 1 0x41 1 0x3000 8" and ?c2 = "kv_cmd0 2 0x41 1 0x5000 4"
  obtain ns' h1 where st: "kv_store (kvdma id_vfu) ?c1 ns0 host0 = Inr (NVME_SUCCESS, ns', h1)"
    by (rule ns0_store [of 1 8 "0x41" "0x3000"]) simp_all
  note put = kv_store_put [OF ns0_inv(1) id_vfu_ok st, OF disjI1 [OF refl]]
  have key: "cmd_key ?c2 = cmd_key ?c1" by (simp add: cmd_key_def)
  obtain v where v: "kv_abs ns' (cmd_key ?c2) = Some v"
    unfolding key put(3) fun_upd_same by blast
  obtain h3 where re: "kv_retrieve (kvdma id_vfu) ?c2 ns' host0 = (NVME_SUCCESS, h3)"
    by (rule id_retrieve [OF put(4) v, of host0]) simp_all
  have "distinct (map id (prp_addrs (kvc_prp1 ?c2) (kvc_prp2 ?c2) (unat (kvc_hbs ?c2))))"
    by (simp add: prp_addrs_def prp_first_def)
  from kv_store_retrieve_roundtrip [OF ns0_inv(1) id_vfu_ok st re key _ this] st re show ?thesis by simp
qed

text \<open>C26: A key that was deleted and stored again holds nothing of its former value: the bytes beyond the
  new value are zero.\<close>

theorem kv_delete_store_clean:
  assumes "kv_inv ns" and "vfu_ok vfu tr" and "kv_delete c1 ns = Inr (NVME_SUCCESS, ns1)"
    and "kv_store (kvdma vfu) c2 ns1 h = Inr (NVME_SUCCESS, ns2, h2)" and "cmd_key c2 = cmd_key c1"
  shows "kv_abs ns2 (cmd_key c2) =
    Some (guest_bytes tr h c2 (unat (kvc_hbs c2)) @ replicate (4096 - unat (kvc_hbs c2)) 0)"
proof -
  obtain ns' where "kv_delete c1 ns = Inr (fst (spec_delete c1 (ednek ns AND 1 \<noteq> 0) (kv_abs ns)), ns')"
      "kv_abs ns' = snd (spec_delete c1 (ednek ns AND 1 \<noteq> 0) (kv_abs ns))" "kv_inv ns'"
    by (rule kv_delete_refines [OF assms(1), of c1])
  then have del: "kv_abs ns1 (cmd_key c1) = None" "kv_inv ns1"
    using assms(3) by (auto simp: spec_delete_def split: if_splits)
  note put = kv_store_put [OF del(2) assms(2,4) disjI1 [OF refl]]
  then show ?thesis using del(1) assms(5) by (simp add: old_value_def)
qed

theorem kv_delete_store_clean_witness:
  "\<exists>ns1 ns2 h2. kv_delete (kv_cmd0 0x10 0x41 1 0 0) ns0 = Inr (NVME_SUCCESS, ns1) \<and>
    kv_abs ns2 (cmd_key (kv_cmd0 1 0x41 1 0x3000 8)) =
      Some (guest_bytes id host0 (kv_cmd0 1 0x41 1 0x3000 8) 8 @ replicate 4088 0) \<and>
    kv_store (kvdma id_vfu) (kv_cmd0 1 0x41 1 0x3000 8) ns1 host0 = Inr (NVME_SUCCESS, ns2, h2)"
proof -
  let ?c1 = "kv_cmd0 0x10 0x41 1 0 0" and ?c2 = "kv_cmd0 1 0x41 1 0x3000 8"
  have "kv_find ?c1 0 (pairs ns0) = None"
    using kv_find_map(1) [OF ns0_inv(1), of ?c1] by (simp add: ns0_inv(2))
  then have del: "kv_delete ?c1 ns0 = Inr (NVME_SUCCESS, ns0)" by (simp add: kv_delete_def)
  obtain ns2 h2 where st: "kv_store (kvdma id_vfu) ?c2 ns0 host0 = Inr (NVME_SUCCESS, ns2, h2)"
    by (rule ns0_store [of 1 8 "0x41" "0x3000"]) simp_all
  have key: "cmd_key ?c2 = cmd_key ?c1" by (simp add: cmd_key_def)
  from kv_delete_store_clean [OF ns0_inv(1) id_vfu_ok del st key] del st show ?thesis by auto
qed

text \<open>Overwriting a key with a shorter value keeps the tail of the old value in the buffer, where a
  retrieve with a larger host buffer finds it: the length of a value is not recorded.\<close>

lemma kv_store_shorter_keeps_tail:
  assumes "kv_inv ns" and "vfu_ok vfu tr" and "kv_abs ns (cmd_key cmd) = Some v"
    and "kv_store (kvdma vfu) cmd ns h = Inr (NVME_SUCCESS, ns', h')"
  shows "kv_abs ns' (cmd_key cmd) =
    Some (guest_bytes tr h cmd (unat (kvc_hbs cmd)) @ drop (unat (kvc_hbs cmd)) v)"
  using kv_store_put(3) [OF assms(1,2,4) disjI1 [OF refl]] assms(3) by (simp add: old_value_def)

lemma kv_store_shorter_keeps_tail_example:
  "\<exists>ns1 v ns2 h2. kv_abs ns1 (cmd_key (kv_cmd0 1 0x41 1 0x5000 4)) = Some v \<and> v ! 4 = 4 \<and>
    kv_store (kvdma id_vfu) (kv_cmd0 1 0x41 1 0x5000 4) ns1 host0 = Inr (NVME_SUCCESS, ns2, h2) \<and>
    kv_abs ns2 (cmd_key (kv_cmd0 1 0x41 1 0x5000 4)) =
      Some (guest_bytes id host0 (kv_cmd0 1 0x41 1 0x5000 4) 4 @ drop 4 v)"
proof -
  let ?c1 = "kv_cmd0 1 0x41 1 0x3000 8" and ?c2 = "kv_cmd0 1 0x41 1 0x5000 4"
  obtain ns1 h1 where st: "kv_store (kvdma id_vfu) ?c1 ns0 host0 = Inr (NVME_SUCCESS, ns1, h1)"
    by (rule ns0_store [of 1 8 "0x41" "0x3000"]) simp_all
  note put = kv_store_put [OF ns0_inv(1) id_vfu_ok st, OF disjI1 [OF refl]]
  have key: "cmd_key ?c2 = cmd_key ?c1" by (simp add: cmd_key_def)
  define v where "v = guest_bytes id host0 ?c1 8 @ replicate 4088 0"
  have v: "kv_abs ns1 (cmd_key ?c2) = Some v"
    unfolding key put(3) fun_upd_same by (simp add: v_def old_value_def ns0_inv(2))
  have v4: "v ! 4 = 4" by (simp add: v_def nth_append guest_bytes_def prp_addrs_def prp_first_def)
  obtain ns2 h2 where st2: "kv_store (kvdma id_vfu) ?c2 ns1 host0 = Inr (NVME_SUCCESS, ns2, h2)"
    by (rule id_overwrite [OF put(4) v, of host0]) simp_all
  from kv_store_shorter_keeps_tail [OF put(4) id_vfu_ok v st2] v v4 st2 show ?thesis by auto
qed

text \<open>C27: A store whose data transfer fails reports an error, but a new key stays in the table, with a value
  of zeros, and takes a slot of the capacity.\<close>

theorem kv_store_failed_inserts:
  assumes "kv_inv ns" and "vfu_ok vfu tr" and "kv_abs ns (cmd_key cmd) = None"
    and "kv_store (kvdma vfu) cmd ns h = Inr (NVME_INVALID_FIELD, ns', h')"
  shows "kv_abs ns' = (kv_abs ns)(cmd_key cmd \<mapsto> replicate 4096 0) \<and>
    used_count (pairs ns') = used_count (pairs ns) + 1"
proof -
  note put = kv_store_put [OF assms(1,2,4) disjI2 [OF refl]]
  have abs: "kv_abs ns' = (kv_abs ns)(cmd_key cmd \<mapsto> replicate 4096 0)"
    using put(3) assms(3) by (simp add: old_value_def)
  have "card (dom (kv_abs ns')) = Suc (card (dom (kv_abs ns)))"
    using assms(3) finite_kv_abs [of ns] by (simp add: abs card_insert_disjoint domIff)
  then show ?thesis
    using abs kv_invD(7) [OF assms(1)] kv_invD(7) [OF put(4)] by simp
qed

theorem kv_store_failed_inserts_witness:
  "\<exists>ns' h'. kv_store (kvdma unmapped_vfu) (kv_cmd0 1 0x41 1 0x3000 8) ns0 host0 = Inr (NVME_INVALID_FIELD, ns', h') \<and>
    kv_abs ns' (cmd_key (kv_cmd0 1 0x41 1 0x3000 8)) = Some (replicate 4096 0) \<and>
    used_count (pairs ns') = used_count (pairs ns0) + 1"
proof -
  let ?c = "kv_cmd0 1 0x41 1 0x3000 8"
  have "fst (spec_store (kvdma unmapped_vfu) ?c 4 False Map.empty host0) = NVME_INVALID_FIELD"
    by (simp add: spec_store_def Let_def kvdma_def kvdma_h2c_def nvme_prp_xfer_def unmapped_vfu_def)
  then obtain ns' h' where st: "kv_store (kvdma unmapped_vfu) ?c ns0 host0 = Inr (NVME_INVALID_FIELD, ns', h')"
    using kvdma.kv_store_refines [OF ns0_inv(1), of unmapped_vfu ?c host0]
    by (auto simp: refines_def ns0_inv(2))
  from kv_store_failed_inserts [OF ns0_inv(1) unmapped_vfu_ok _ st] st show ?thesis
    by (auto simp: ns0_inv(2))
qed

section \<open>Keys, capacity and initial state\<close>

text \<open>C28: A slot that holds the key of one command matches another command exactly when the two commands
  name the same key: the split comparison and the split copy of the key halves agree.\<close>

theorem kv_key_match_store:
  assumes "unat (kl (kvc_cdw11 c1)) \<le> 16" and "unat (kl (kvc_cdw11 c2)) \<le> 16" and "pair_wf p"
  shows "kv_key_match c2 (kv_key_store p c1) \<longleftrightarrow> cmd_key c2 = cmd_key c1"
proof -
  have "pair_wf (kv_key_store p c1)"
    using assms kv_key_store_key(2) [of p c1] by (simp add: pair_wf_def)
  then show ?thesis
    using kv_key_match_iff [OF _ assms(2)] kv_key_store_key(1) [of p c1] assms by (auto simp: pair_wf_def)
qed

theorem kv_key_match_store_witness:
  "kv_key_match (kv_cmd0 2 0x41 1 0 0) (kv_key_store zero_pair (kv_cmd0 1 0x41 1 0 0)) \<and>
   \<not> kv_key_match (kv_cmd0 2 0x41 2 0 0) (kv_key_store zero_pair (kv_cmd0 1 0x41 1 0 0))"
  using kv_key_match_store [of "kv_cmd0 1 0x41 1 0 0" "kv_cmd0 2 0x41 1 0 0" zero_pair]
    kv_key_match_store [of "kv_cmd0 1 0x41 1 0 0" "kv_cmd0 2 0x41 2 0 0" zero_pair]
  by (simp add: cmd_key_def) (simp add: numeral_eq_Suc)

text \<open>C25: For a capacity of at most \<open>2 ^ 31\<close> keys \<open>kv_ns_init\<close> succeeds exactly when both allocations do; then the namespace satisfies the
  invariant, stores nothing and advertises its capacity; a failure returns \<open>-1\<close> without a
  descriptor having been attached.\<close>

theorem kv_ns_init_correct:
  assumes "unat mx \<le> 2 ^ 31" and "kv_ns_init ns mx s = (rc, ns', s')"
  shows "(rc = 0 \<longleftrightarrow> allocs s 0 \<and> allocs s 1) \<and>
    (rc = 0 \<longrightarrow> kv_inv ns' \<and> kv_abs ns' = Map.empty \<and> max_num_keys ns' = mx \<and> ednek ns' = 0) \<and>
    (rc \<noteq> 0 \<longrightarrow> rc = -1 \<and> id_ns_kv ns' = id_ns_kv ns)"
proof -
  have "rc = 0 \<longrightarrow> kv_inv ns' \<and> kv_abs ns' = Map.empty"
    using kv_ns_init_inv [of ns mx s ns' s'] assms by auto
  then show ?thesis
    using assms(2) by (auto simp: kv_ns_init_def alloc_def Let_def split: if_splits)
qed

theorem kv_ns_init_correct_witness:
  "kv_ns_init zero_ns 4 host0 = (0, ns0, host0) \<and> kv_inv ns0 \<and> kv_abs ns0 = Map.empty"
  using kv_ns_init_correct [OF _ ns0_init] ns0_init by simp

lemma kv_descriptor:
  assumes "kv_inv ns"
  obtains d where "id_ns_kv ns = Some d" "id_ns_kv_wf d" "unat (nuse d) = 4112 * card (dom (kv_abs ns))"
    "unat (nsze d) = 4112 * unat (max_num_keys ns)" "nuse d \<le> nsze d"
    "card (dom (kv_abs ns)) \<le> unat (max_num_keys ns)"
proof -
  note D = kv_invD [OF assms]
  obtain d where d: "id_ns_kv ns = Some d" "nuse d = of_nat (4112 * used_count (pairs ns))"
      "nsze d = ucast (max_num_keys ns) * 4112" "id_ns_kv_wf d"
    using assms by (auto simp: kv_inv_def)
  have "unat (nuse d) = 4112 * used_count (pairs ns)"
    unfolding d(2) using D(4,6) by (simp only: unat_of_nat) simp
  moreover have "unat (nsze d) = 4112 * unat (max_num_keys ns)"
    unfolding d(3) using D(6) by (simp add: unat_word_ariths unat_ucast_up)
  ultimately show ?thesis using that d(1,4) D(4,7) by (auto simp: word_le_nat_alt)
qed

section \<open>Key lists\<close>

lemma hmem_heap_more: "heap.more s1 = heap.more s \<Longrightarrow> hmem s1 = hmem s"
  by (cases s1; cases s) simp

text \<open>C11: A key list that is sent is exactly the image of the keys from the named one on (or of all keys)
  that fit into the host buffer: every byte of it is defined by the table, none comes from
  uninitialised memory, and a failed transfer leaves guest memory alone.\<close>

theorem kv_list_correct:
  assumes "kv_inv ns" and "unat (kl (kvc_cdw11 cmd)) \<le> 16" and "\<And>i. allocs h i" and "vfu_ok vfu tr"
    and "kv_list (kvdma vfu) cmd ns h = (st, h')"
  shows "(st = NVME_SUCCESS \<or> st = NVME_INVALID_FIELD) \<and>
    hmem h' = (if st = NVME_SUCCESS
      then mem_writes (hmem h) (map tr (prp_addrs (kvc_prp1 cmd) (kvc_prp2 cmd)
        (length (rds_image (listed cmd ns))))) (rds_image (listed cmd ns))
      else hmem h)"
proof -
  let ?img = "rds_image (listed cmd ns)"
  obtain s1 where s1: "heap.more s1 = heap.more h"
      "kv_list (kvdma vfu) cmd ns h = (let (rc, s') = c2h (kvdma vfu) cmd ?img (length ?img) s1
         in (if rc \<noteq> 0 then NVME_INVALID_FIELD else NVME_SUCCESS, s'))"
    using kvdma.kv_list_refines [OF assms(1-3)] by blast
  obtain rc s' where c: "c2h (kvdma vfu) cmd ?img (length ?img) s1 = (rc, s')" by (metis prod.exhaust)
  from kvdma_c2h_effect [OF assms(4) order_refl c] hmem_heap_more [OF s1(1)] s1(2) c assms(5)
  show ?thesis by (cases "rc = 0") auto
qed

theorem kv_list_correct_witness:
  "\<exists>st h'. kv_list (kvdma id_vfu) (kv_cmd0 6 0 0 0x3000 64) ns0 host0 = (st, h') \<and>
    (st = NVME_SUCCESS \<or> st = NVME_INVALID_FIELD)"
proof -
  obtain st h' where eq: "kv_list (kvdma id_vfu) (kv_cmd0 6 0 0 0x3000 64) ns0 host0 = (st, h')"
    by (metis prod.exhaust)
  from kv_list_correct [OF ns0_inv(1) _ _ id_vfu_ok eq] eq show ?thesis by simp
qed

text \<open>The reading of a key list by the host, with the stride the device uses.\<close>

definition key_stride :: "bytes \<Rightarrow> nat" where
  "key_stride k = 2 + length k + (2 + length k) mod 4"

primrec parse_kds :: "nat \<Rightarrow> bytes \<Rightarrow> bytes list" where
  "parse_kds 0 b = []"
| "parse_kds (Suc k) b =
     (let l = unat (get_le 0 2 b :: u16)
      in take l (drop 2 b) # parse_kds k (drop (2 + l + (2 + l) mod 4) b))"

definition parse_rds :: "bytes \<Rightarrow> bytes list" where
  "parse_rds b = parse_kds (unat (get_le 0 2 b :: u16)) (drop 4 b)"

lemma key_stride_pair: "pair_wf p \<Longrightarrow> key_stride (pair_key p) = kds p"
  by (simp add: key_stride_def kds_def kds_wo_pad_def pair_key_def pair_wf_def)

lemma parse_kds_image:
  "list_all pair_wf qs \<Longrightarrow> parse_kds (length qs) (concat (map kds_image qs) @ ys) = map pair_key qs"
proof (induction qs)
  case (Cons q qs)
  have kl: "unat (of_nat (kp_kl q) :: u16) = kp_kl q" "length (pair_key q) = kp_kl q"
    using Cons.prems by (simp_all add: pair_wf_def pair_key_def unat_of_nat)
  have get: "get_le 0 2 (kds_image q @ zs) = (of_nat (kp_kl q) :: u16)" for zs
    unfolding kds_image_def append_assoc by (rule get_le_here) simp
  have "take (kp_kl q) (drop 2 (kds_image q @ zs)) = pair_key q" for zs
    using kl(2) by (simp add: kds_image_def)
  moreover have "drop (2 + kp_kl q + (2 + kp_kl q) mod 4) (kds_image q @ zs) = zs" for zs
    using Cons.prems length_kds_image [of q] by (simp add: kds_def kds_wo_pad_def)
  ultimately have "parse_kds (Suc (length qs)) (kds_image q @ zs) = pair_key q # parse_kds (length qs) zs" for zs
    unfolding parse_kds.simps Let_def get kl(1) by (simp only: key_stride_def kl(2))
  then show ?case using Cons by (simp del: parse_kds.simps)
qed simp

lemma parse_rds_image:
  assumes "list_all pair_wf qs" and "length qs < 65536"
  shows "parse_rds (rds_image qs @ ys) = map pair_key qs"
proof -
  have "get_le 0 2 (rds_image qs @ ys) = (of_nat (length qs) :: u16)"
    unfolding rds_image_def append_assoc by (rule get_le_here) simp
  moreover have "unat (of_nat (length qs) :: u16) = length qs" using assms(2) by (simp add: unat_of_nat)
  ultimately show ?thesis
    using parse_kds_image [OF assms(1), of ys] by (simp add: parse_rds_def rds_image_def)
qed

lemma keys_distinct_Cons:
  assumes "keys_distinct (p # ps)"
  shows "keys_distinct ps" and "kp_used p \<Longrightarrow> q \<in> set ps \<Longrightarrow> kp_used q \<Longrightarrow> pair_key q \<noteq> pair_key p"
proof -
  show "keys_distinct ps"
    unfolding keys_distinct_def
  proof (intro allI impI)
    fix i j assume "i < length ps" "j < length ps" "kp_used (ps ! i)" "kp_used (ps ! j)"
      "pair_key (ps ! i) = pair_key (ps ! j)"
    then show "i = j"
      using assms [unfolded keys_distinct_def, rule_format, of "Suc i" "Suc j"] by simp
  qed
  assume "kp_used p" "q \<in> set ps" "kp_used q"
  then obtain i where "i < length ps" "q = ps ! i" by (auto simp: in_set_conv_nth)
  then show "pair_key q \<noteq> pair_key p"
    using assms [unfolded keys_distinct_def, rule_format, of "Suc i" 0] \<open>kp_used p\<close> \<open>kp_used q\<close> by auto
qed

lemma keys_distinct_map: "keys_distinct ps \<Longrightarrow> distinct (map pair_key (filter kp_used ps))"
proof (induction ps)
  case (Cons p ps)
  then show ?case using keys_distinct_Cons [OF Cons.prems] by (auto dest: sym)
qed simp

lemma kds_le: "pair_wf p \<Longrightarrow> kds p \<le> 20"
proof -
  assume "pair_wf p"
  then have "kp_kl p \<le> 16" by (simp add: pair_wf_def)
  then show ?thesis unfolding kds_def kds_wo_pad_def by presburger
qed

lemma sum_kds_le: "list_all pair_wf ps \<Longrightarrow> (\<Sum>q\<leftarrow>ps. kds q) \<le> 20 * length ps"
  using kds_le by (induction ps) fastforce+

lemma fitting_short: "hbs < sz \<Longrightarrow> fitting hbs sz ps = []"
  by (cases ps) auto

text \<open>The keys of the used slots are the keys of the map.\<close>

lemma set_used_keys: "pair_key ` set (filter kp_used (pairs ns)) = dom (kv_abs ns)"
proof -
  have "k \<in> dom (kv_abs ns) \<longleftrightarrow> (\<exists>p \<in> set (pairs ns). kp_used p \<and> pair_key p = k)" for k
    using slots_map_eq_None [of "pairs ns" k] by (auto simp: kv_abs_def domIff)
  then show ?thesis by (intro set_eqI) (auto simp only: image_iff set_filter mem_Collect_eq)
qed

lemma listed_part:
  obtains xs ys where "filter kp_used (pairs ns) = xs @ listed cmd ns @ ys"
proof -
  let ?k = "case kv_find cmd 0 (pairs ns) of Some i \<Rightarrow> i | None \<Rightarrow> 0"
  obtain ys where "filter kp_used (drop ?k (pairs ns)) = listed cmd ns @ ys"
    using fitting_prefix unfolding listed_def by blast
  then have "filter kp_used (take ?k (pairs ns) @ drop ?k (pairs ns)) =
      filter kp_used (take ?k (pairs ns)) @ listed cmd ns @ ys"
    by (simp only: filter_append)
  then show ?thesis using that by simp
qed

lemma listed_fits:
  assumes "kv_inv ns"
  shows "length (rds_image (listed cmd ns)) \<le> max 4 (unat (kvc_hbs cmd))"
proof (cases "unat (kvc_hbs cmd) < 4")
  case True
  then have "listed cmd ns = []" by (simp add: listed_def fitting_short)
  then show ?thesis by (simp add: rds_image_def)
next
  case False
  then show ?thesis
    using length_listed [OF assms, of cmd] fitting_size [of 4 "unat (kvc_hbs cmd)"]
    unfolding listed_def by (metis le_max_iff_disj not_less)
qed

lemma prp_addrs_take:
  assumes "l \<le> len"
  shows "take l (prp_addrs p1 p2 len) = prp_addrs p1 p2 l"
proof (cases "l \<le> prp_first p1 len")
  case True
  then have "prp_first p1 l = l" by (simp add: prp_first_def)
  then show ?thesis using True by (simp add: prp_addrs_def take_upt)
next
  case False
  then have "prp_first p1 l = prp_first p1 len" using assms by (auto simp: prp_first_def)
  then show ?thesis using False assms by (simp add: prp_addrs_def take_upt)
qed

text \<open>After a list command that succeeds, the buffer of the host begins with the image of the listed slots.\<close>

lemma kv_list_host:
  assumes inv: "kv_inv ns" and ok: "vfu_ok vfu tr" and eq: "kv_list (kvdma vfu) cmd ns h = (NVME_SUCCESS, h')"
    and hbs: "4 \<le> unat (kvc_hbs cmd)" and as: "as = prp_addrs (kvc_prp1 cmd) (kvc_prp2 cmd) (unat (kvc_hbs cmd))"
    and dist: "distinct (map tr as)" and few: "card (dom (kv_abs ns)) < 65536"
  shows "parse_rds (map (\<lambda>a. hmem h' (tr a)) as) = map pair_key (listed cmd ns)" and "unat (kl (kvc_cdw11 cmd)) \<le> 16"
proof -
  let ?img = "rds_image (listed cmd ns)" and ?l = "length (rds_image (listed cmd ns))"
  obtain s1 where s1: "unat (kl (kvc_cdw11 cmd)) \<le> 16" "heap.more s1 = heap.more h"
      "c2h (kvdma vfu) cmd ?img ?l s1 = (0, h')"
    by (rule kvdma.kv_list_success [OF inv eq])
  show "unat (kl (kvc_cdw11 cmd)) \<le> 16" by (rule s1(1))
  have l: "?l \<le> length as" "take ?l as = prp_addrs (kvc_prp1 cmd) (kvc_prp2 cmd) ?l"
    using listed_fits [OF inv, of cmd] hbs by (simp_all add: as prp_addrs_take)
  have "hmem h' = mem_writes (hmem s1) (map tr (take ?l as)) ?img"
    using kvdma_c2h_effect [OF ok order_refl s1(3)] by (simp add: l(2))
  moreover have "distinct (map tr (take ?l as))" using dist by (simp add: distinct_take flip: take_map)
  ultimately have "map (\<lambda>a. hmem h' (tr a)) (take ?l as) = ?img"
    using mem_writes_read_map [of tr "take ?l as" ?img "hmem s1"] l(1) by simp
  then have "map (\<lambda>a. hmem h' (tr a)) as = ?img @ map (\<lambda>a. hmem h' (tr a)) (drop ?l as)"
    by (metis append_take_drop_id map_append)
  moreover have "length (listed cmd ns) < 65536"
  proof -
    obtain xs ys where "filter kp_used (pairs ns) = xs @ listed cmd ns @ ys" by (rule listed_part)
    then show ?thesis using kv_invD(7) [OF inv] few by (simp add: used_count_def)
  qed
  ultimately show "parse_rds (map (\<lambda>a. hmem h' (tr a)) as) = map pair_key (listed cmd ns)"
    using parse_rds_image [OF listed_wf [OF inv]] by simp
qed

text \<open>The stored keys in the order of their slots, from the named key on if it is stored.\<close>

definition keys_from :: "NvmeKVCmd \<Rightarrow> kv_ns \<Rightarrow> bytes list" where
  "keys_from cmd ns =
     map pair_key (filter kp_used (drop (case kv_find cmd 0 (pairs ns) of Some i \<Rightarrow> i | None \<Rightarrow> 0) (pairs ns)))"

text \<open>A table with one key, listed into a buffer of 64 bytes.\<close>

lemma singleton_list: "set xs = {x} \<Longrightarrow> distinct xs \<Longrightarrow> xs = [x]"
proof (induction xs)
  case (Cons y ys)
  then show ?case by (cases ys) auto
qed simp

lemma one_key_list:
  obtains ns' h1 h2 where "kv_store (kvdma id_vfu) (kv_cmd0 1 0x41 1 0x3000 8) ns0 host0 = Inr (NVME_SUCCESS, ns', h1)"
    "kv_inv ns'" "dom (kv_abs ns') = {[0x41]}" "keys_from (kv_cmd0 6 0 0 0x5000 64) ns' = [[0x41]]"
    "kv_list (kvdma id_vfu) (kv_cmd0 6 0 0 0x5000 64) ns' host0 = (NVME_SUCCESS, h2)"
proof -
  let ?c = "kv_cmd0 1 0x41 1 0x3000 8" and ?l = "kv_cmd0 6 0 0 0x5000 64"
  obtain ns' h1 where st: "kv_store (kvdma id_vfu) ?c ns0 host0 = Inr (NVME_SUCCESS, ns', h1)"
    by (rule ns0_store [of 1 8 "0x41" "0x3000"]) simp_all
  note put = kv_store_put [OF ns0_inv(1) id_vfu_ok st, OF disjI1 [OF refl]]
  have "cmd_key ?c = [0x41]" by (simp add: cmd_key_def le_enc_numeral)
  then have dom: "dom (kv_abs ns') = {[0x41]}" unfolding put(3) ns0_inv(2) by simp
  let ?img = "rds_image (listed ?l ns')"
  have kl: "unat (kl (kvc_cdw11 ?l)) \<le> 16" by simp
  have "cmd_key ?l = []" by (simp add: cmd_key_def)
  then have "kv_find ?l 0 (pairs ns') = None"
    using kv_find_map(1) [OF put(4) kl] dom by auto
  then have "set (keys_from ?l ns') = {[0x41]}" "distinct (keys_from ?l ns')"
    using set_used_keys [of ns'] keys_distinct_map [OF kv_invD(3) [OF put(4)]] by (simp_all add: keys_from_def dom)
  then have one: "keys_from ?l ns' = [[0x41]]" by (rule singleton_list)
  obtain s1 where s1: "\<forall>i. allocs s1 i"
      "kv_list (kvdma id_vfu) ?l ns' host0 = (let (rc, s') = c2h (kvdma id_vfu) ?l ?img (length ?img) s1
         in (if rc \<noteq> 0 then NVME_INVALID_FIELD else NVME_SUCCESS, s'))"
    using kvdma.kv_list_refines [OF put(4) kl, of host0 id_vfu] by auto
  have "length ?img \<le> 64" using listed_fits [OF put(4), of ?l] by simp
  then have "prp_first 0x5000 (length ?img) = length ?img" by (simp add: prp_first_def)
  then have "fst (c2h (kvdma id_vfu) ?l ?img (length ?img) s1) = 0"
    using id_vfu_prp [of s1 "length ?img" "0x5000" 0 ?img True] s1(1)
    by (cases "nvme_prp_xfer id_vfu 0x5000 0 ?img (length ?img) True s1") (simp add: kvdma_def kvdma_c2h_def)
  with s1(2) that [OF st put(4) dom one] show ?thesis
    by (cases "c2h (kvdma id_vfu) ?l ?img (length ?img) s1") simp
qed

lemma one_key_buffer: "distinct (map id (prp_addrs (kvc_prp1 (kv_cmd0 6 0 0 0x5000 64)) (kvc_prp2 (kv_cmd0 6 0 0 0x5000 64)) 64))"
  by (simp add: prp_addrs_def prp_first_def)

text \<open>C22: Round trip of \<open>kv_list\<close>: after a list command that succeeds, a host that reads its buffer entry by
  entry, with the stride of the device, finds the stored keys in the order of their slots, from the
  named key on, up to the first one that does not fit any more; the count in the header is
  exact. The buffer has at least the four bytes of the header, its pages are distinct, and fewer
  than 65536 keys are stored, which is what the 16-bit count can express.\<close>

theorem kv_list_roundtrip:
  assumes "kv_inv ns" and "vfu_ok vfu tr" and "kv_list (kvdma vfu) cmd ns h = (NVME_SUCCESS, h')"
    and "4 \<le> unat (kvc_hbs cmd)" and "as = prp_addrs (kvc_prp1 cmd) (kvc_prp2 cmd) (unat (kvc_hbs cmd))"
    and "distinct (map tr as)" and "card (dom (kv_abs ns)) < 65536"
    and "ks = parse_rds (map (\<lambda>a. hmem h' (tr a)) as)"
  shows "\<exists>rest. keys_from cmd ns = ks @ rest \<and>
    (rest \<noteq> [] \<longrightarrow> unat (kvc_hbs cmd) < 4 + (\<Sum>k\<leftarrow>ks @ [hd rest]. key_stride k))"
proof -
  let ?ps = "filter kp_used (drop (case kv_find cmd 0 (pairs ns) of Some i \<Rightarrow> i | None \<Rightarrow> 0) (pairs ns))"
  have ks: "ks = map pair_key (listed cmd ns)" unfolding assms(8) by (rule kv_list_host(1) [OF assms(1-7)])
  have wf: "list_all pair_wf ?ps" using kv_invD(2) [OF assms(1)] by (auto simp: list_all_iff dest: in_set_dropD)
  obtain rest where rest: "?ps = listed cmd ns @ rest" using fitting_prefix unfolding listed_def by blast
  have "unat (kvc_hbs cmd) < 4 + (\<Sum>q\<leftarrow>listed cmd ns @ [p]. kds q)" if "rest = p # r" for p r
    using fitting_maximal [of ?ps "unat (kvc_hbs cmd)" 4 p r] rest that unfolding listed_def by blast
  moreover have "(\<Sum>k\<leftarrow>map pair_key qs. key_stride k) = (\<Sum>q\<leftarrow>qs. kds q)" if "list_all pair_wf qs" for qs
    using that by (induction qs) (simp_all add: key_stride_pair)
  ultimately have "map pair_key rest \<noteq> [] \<longrightarrow> unat (kvc_hbs cmd) < 4 + (\<Sum>k\<leftarrow>ks @ [hd (map pair_key rest)]. key_stride k)"
    using wf unfolding rest ks by (cases rest) (simp_all add: key_stride_pair)
  then show ?thesis using rest by (intro exI [of _ "map pair_key rest"]) (simp add: keys_from_def ks)
qed

theorem kv_list_roundtrip_witness:
  "\<exists>ns' h1 h2. kv_store (kvdma id_vfu) (kv_cmd0 1 0x41 1 0x3000 8) ns0 host0 = Inr (NVME_SUCCESS, ns', h1) \<and>
    kv_list (kvdma id_vfu) (kv_cmd0 6 0 0 0x5000 64) ns' host0 = (NVME_SUCCESS, h2) \<and>
    parse_rds (map (hmem h2) (prp_addrs 0x5000 0 64)) = [[0x41]]"
proof -
  let ?l = "kv_cmd0 6 0 0 0x5000 64"
  obtain ns' h1 h2 where k: "kv_store (kvdma id_vfu) (kv_cmd0 1 0x41 1 0x3000 8) ns0 host0 = Inr (NVME_SUCCESS, ns', h1)"
    "kv_inv ns'" "dom (kv_abs ns') = {[0x41]}" "keys_from ?l ns' = [[0x41]]"
    "kv_list (kvdma id_vfu) ?l ns' host0 = (NVME_SUCCESS, h2)"
    by (rule one_key_list)
  let ?ks = "parse_rds (map (\<lambda>a. hmem h2 (id a)) (prp_addrs 0x5000 0 64))"
  obtain rest where rest: "[[0x41]] = ?ks @ rest" "rest \<noteq> [] \<longrightarrow> 64 < 4 + (\<Sum>k\<leftarrow>?ks @ [hd rest]. key_stride k)"
    using kv_list_roundtrip [OF k(2) id_vfu_ok k(5) _ refl _ _ refl] one_key_buffer by (auto simp: k(3,4))
  then have "rest = []" by (cases ?ks) (auto simp: key_stride_def)
  with rest(1) k(1,5) show ?thesis by auto
qed

text \<open>C23: The keys a host finds in its buffer after a list command that succeeds are distinct keys of the map;
  when the command names a stored key and the buffer has room for one entry, that key comes first; when it names none and the buffer has room for
  twenty bytes per key, every stored key is there. The side conditions are those of the round trip.\<close>

theorem kv_list_complete:
  assumes "kv_inv ns" and "vfu_ok vfu tr" and "kv_list (kvdma vfu) cmd ns h = (NVME_SUCCESS, h')"
    and "4 \<le> unat (kvc_hbs cmd)" and "as = prp_addrs (kvc_prp1 cmd) (kvc_prp2 cmd) (unat (kvc_hbs cmd))"
    and "distinct (map tr as)" and "card (dom (kv_abs ns)) < 65536"
    and "ks = parse_rds (map (\<lambda>a. hmem h' (tr a)) as)"
  shows "distinct ks \<and> set ks \<subseteq> dom (kv_abs ns) \<and>
    (kv_abs ns (cmd_key cmd) \<noteq> None \<longrightarrow> 24 \<le> unat (kvc_hbs cmd) \<longrightarrow> ks \<noteq> [] \<and> hd ks = cmd_key cmd) \<and>
    (kv_abs ns (cmd_key cmd) = None \<longrightarrow> 4 + 20 * card (dom (kv_abs ns)) \<le> unat (kvc_hbs cmd) \<longrightarrow> set ks = dom (kv_abs ns))"
proof (intro conjI impI)
  have ks: "ks = map pair_key (listed cmd ns)" unfolding assms(8) by (rule kv_list_host(1) [OF assms(1-7)])
  note find = kv_find_map [OF assms(1) kv_list_host(2) [OF assms(1-7)]]
  obtain xs ys where part: "filter kp_used (pairs ns) = xs @ listed cmd ns @ ys"
    by (rule listed_part)
  show "distinct ks"
    using keys_distinct_map [OF kv_invD(3) [OF assms(1)]] unfolding part ks by simp
  show "set ks \<subseteq> dom (kv_abs ns)"
    using set_used_keys [of ns] unfolding part ks by auto
  show "set ks = dom (kv_abs ns)"
    if new: "kv_abs ns (cmd_key cmd) = None" and room: "4 + 20 * card (dom (kv_abs ns)) \<le> unat (kvc_hbs cmd)"
  proof -
    let ?ps = "filter kp_used (pairs ns)"
    have "list_all pair_wf ?ps" using kv_invD(2) [OF assms(1)] by (auto simp: list_all_iff)
    then have "4 + (\<Sum>q\<leftarrow>?ps. kds q) \<le> unat (kvc_hbs cmd)"
      using sum_kds_le [of ?ps] room kv_invD(7) [OF assms(1)] by (simp add: used_count_def)
    moreover have "kv_find cmd 0 (pairs ns) = None" using find(1) new by simp
    ultimately have "listed cmd ns = ?ps" by (simp add: listed_def fitting_all)
    then show ?thesis using set_used_keys [of ns] by (simp add: ks)
  qed
  assume key: "kv_abs ns (cmd_key cmd) \<noteq> None" and room: "24 \<le> unat (kvc_hbs cmd)"
  then obtain i where "kv_find cmd 0 (pairs ns) = Some i" using find(1) by auto
  note i = this find(2) [OF this]
  have "pair_wf (pairs ns ! i)" using kv_invD(2) [OF assms(1)] i(2) by (simp add: list_all_length)
  then have "4 + kds (pairs ns ! i) \<le> unat (kvc_hbs cmd)" using kds_le room by fastforce
  then have "\<exists>qs. listed cmd ns = (pairs ns ! i) # qs"
    using i Cons_nth_drop_Suc [of i "pairs ns", symmetric] by (simp add: listed_def)
  then show "ks \<noteq> []" "hd ks = cmd_key cmd" using i(2) by (auto simp: ks)
qed

theorem kv_list_complete_witness:
  "\<exists>ns' h1 h2. kv_store (kvdma id_vfu) (kv_cmd0 1 0x41 1 0x3000 8) ns0 host0 = Inr (NVME_SUCCESS, ns', h1) \<and>
    kv_list (kvdma id_vfu) (kv_cmd0 6 0 0 0x5000 64) ns' host0 = (NVME_SUCCESS, h2) \<and>
    set (parse_rds (map (hmem h2) (prp_addrs 0x5000 0 64))) = {[0x41]}"
proof -
  let ?l = "kv_cmd0 6 0 0 0x5000 64"
  obtain ns' h1 h2 where k: "kv_store (kvdma id_vfu) (kv_cmd0 1 0x41 1 0x3000 8) ns0 host0 = Inr (NVME_SUCCESS, ns', h1)"
    "kv_inv ns'" "dom (kv_abs ns') = {[0x41]}" "keys_from ?l ns' = [[0x41]]"
    "kv_list (kvdma id_vfu) ?l ns' host0 = (NVME_SUCCESS, h2)"
    by (rule one_key_list)
  have "cmd_key ?l = []" by (simp add: cmd_key_def)
  then have "kv_abs ns' (cmd_key ?l) = None" using k(3) by auto
  with kv_list_complete [OF k(2) id_vfu_ok k(5) _ refl _ _ refl] one_key_buffer k(1,3,5) show ?thesis by auto
qed

text \<open>The padding of a list entry is the remainder itself, not its complement: an entry ends on a
  four-byte boundary only when the key length is even.\<close>

lemma kds_alignment: "kds p mod 4 = 0 \<longleftrightarrow> even (kp_kl p)"
  unfolding kds_def kds_wo_pad_def by presburger

end
