(* ===== verification/CtrlProperties.thy ===== *)
theory CtrlProperties
  imports KvProperties
begin

text \<open>
  The properties of the NVMe front end of \<^verbatim>\<open>src/nvme.c\<close>: wire formats, transfers, the completion
  and submission rings, admin commands and registers.
\<close>

section \<open>Wire formats\<close>

text \<open>The KV view of a submission entry: the key is made of the double words 2 and 3 and the double words
  14 and 15, the host buffer size is double word 10, key length and options are the two low
  bytes of double word 11, and the PRP entries are those of the generic entry.\<close>

lemma kv_view_of_sqe:
  "kvcmd_of_sqe s = \<lparr>
     kvc_opcode = sqe_opcode s, kvc_flags = sqe_flags s, kvc_cid = sqe_cid s,
     kvc_nsid = sqe_nsid s, kvc_key = ucast (sqe_cdw2 s) OR push_bit 32 (ucast (sqe_cdw3 s)),
     kvc_mptr = sqe_mptr s, kvc_prp1 = sqe_prp1 s, kvc_prp2 = sqe_prp2 s,
     kvc_hbs = sqe_cdw10 s,
     kvc_cdw11 = \<lparr>kl = ucast (sqe_cdw11 s), ro = ucast (drop_bit 8 (sqe_cdw11 s)),
       rsvd = ucast (drop_bit 16 (sqe_cdw11 s))\<rparr>,
     kvc_cdw12 = sqe_cdw12 s, kvc_cdw13 = sqe_cdw13 s,
     kvc_key_hi = ucast (sqe_cdw14 s) OR push_bit 32 (ucast (sqe_cdw15 s))\<rparr>"
  by (rule kvcmd_of_sqe_fields)

section \<open>Transfers\<close>

text \<open>C16: A PRP transfer to the host writes the buffer to exactly the bytes that the two PRP entries name,
  in order, and to nothing else, or fails and writes nothing.\<close>

theorem prp_to_host:
  assumes "vfu_ok vfu tr" and "len \<le> length buf"
    and "nvme_prp_xfer vfu prp1 prp2 buf len True h = (rc, b, h')"
  shows "b = buf \<and> irqs h' = irqs h \<and>
    hmem h' = (if rc = 0 then mem_writes (hmem h) (map tr (prp_addrs prp1 prp2 len)) buf else hmem h)"
  using nvme_prp_xfer_to_host [OF assms] by blast

theorem prp_to_host_witness:
  "hmem (snd (snd (nvme_prp_xfer id_vfu 0x3ffe 0x8000 [1, 2, 3, 4] 4 True host0))) 0x8001 = 4"
proof -
  obtain rc b h' where x: "nvme_prp_xfer id_vfu 0x3ffe 0x8000 [1, 2, 3, 4] 4 True host0 = (rc, b, h')"
    by (metis prod.exhaust)
  have "rc = 0"
    using id_vfu_prp [of host0 4 "0x3ffe" "0x8000" "[1, 2, 3, 4]" True] x by simp
  then show ?thesis
    using prp_to_host [OF id_vfu_ok _ x] x
    by (simp add: prp_addrs_def prp_first_def mem_writes_def upt_rec)
qed

text \<open>C17: A PRP transfer from the host fills the first bytes of the buffer with exactly the bytes that the
  PRP entries name, and leaves the rest of the buffer and guest memory alone.\<close>

theorem prp_from_host:
  assumes "vfu_ok vfu tr" and "len \<le> length buf"
    and "nvme_prp_xfer vfu prp1 prp2 buf len False h = (rc, b, h')"
  shows "hmem h' = hmem h \<and> irqs h' = irqs h \<and>
    b = (if rc = 0 then map (\<lambda>a. hmem h (tr a)) (prp_addrs prp1 prp2 len) @ drop len buf else buf)"
  using nvme_prp_xfer_from_host [OF assms] by blast

theorem prp_from_host_witness:
  "fst (snd (nvme_prp_xfer id_vfu 0x3fff 0x8001 [9, 9, 9] 2 False host0)) = [0xff, 1, 9]"
proof -
  obtain rc b h' where x: "nvme_prp_xfer id_vfu 0x3fff 0x8001 [9, 9, 9] 2 False host0 = (rc, b, h')"
    by (metis prod.exhaust)
  have "rc = 0"
    using id_vfu_prp [of host0 2 "0x3fff" "0x8001" "[9, 9, 9]" False] x by simp
  then show ?thesis
    using prp_from_host [OF id_vfu_ok _ x] x by (simp add: prp_addrs_def prp_first_def upt_rec)
qed

text \<open>A transfer that needs more than the page of the first PRP entry and one further page is refused,
  without touching the buffer or guest memory.\<close>

lemma prp_list_unsupported:
  assumes "KVSSD_PAGE_SIZE < len - prp_first prp1 len"
  shows "\<exists>h'. nvme_prp_xfer vfu prp1 prp2 buf len w h = (-1, buf, h') \<and> hmem h' = hmem h \<and> irqs h' = irqs h"
  using assms
  by (auto simp: nvme_prp_xfer_def alloc_def Let_def split: option.splits)

section \<open>Completion queues\<close>

text \<open>C29: After \<open>k\<close> completions the tail of a ring has moved \<open>k\<close> slots round it and the phase tag is inverted
  exactly when it has passed the end an odd number of times, as long as the ring has fewer
  than 65536 entries.\<close>

theorem cq_ring_phase:
  assumes "unat (cq_tail cq) < unat (cq_size cq)" and "unat (cq_size cq) < 65536"
  shows "unat (cq_tail ((cq_advance ^^ k) cq)) = (unat (cq_tail cq) + k) mod unat (cq_size cq) \<and>
    cq_phase ((cq_advance ^^ k) cq) =
      (if even ((unat (cq_tail cq) + k) div unat (cq_size cq)) then cq_phase cq else cq_phase cq XOR 1)"
  using cq_advance_funpow [OF assms] by blast

theorem cq_ring_phase_witness:
  "cq_phase ((cq_advance ^^ 16) (n_cq ctrl1 ! 0)) = 0 \<and> unat (cq_tail ((cq_advance ^^ 16) (n_cq ctrl1 ! 0))) = 0"
  using cq_ring_phase [of "n_cq ctrl1 ! 0" 16] by (simp add: zero_cq_def)

lemma cq_65536_advance:
  assumes "cq_size c = 0x10000"
  shows "cq_phase (cq_advance c) = cq_phase c"
proof -
  have "unat (cq_tail c + 1) < 65536"
    using unsigned_less [of "cq_tail c + 1", where 'a = nat] by simp
  then show ?thesis using assms by (simp add: cq_advance_def Let_def cq_wrap_test)
qed

text \<open>C31: On a completion queue of 65536 entries, the largest that Create I/O Completion Queue accepts, the
  phase tag never changes: the 16-bit tail never equals the 32-bit size.\<close>

theorem cq_65536_phase_stuck:
  assumes "cq_size cq = 0x10000"
  shows "cq_phase ((cq_advance ^^ k) cq) = cq_phase cq \<and> cq_size ((cq_advance ^^ k) cq) = 0x10000"
  using assms by (induction k) (simp_all add: cq_65536_advance)

theorem cq_65536_phase_stuck_witness:
  "cq_phase ((cq_advance ^^ 65536) (zero_cq\<lparr>cq_size := 0x10000, cq_phase := 1\<rparr>)) = 1"
  using cq_65536_phase_stuck [of "zero_cq\<lparr>cq_size := 0x10000, cq_phase := 1\<rparr>" 65536] by simp

text \<open>C15: A completion that is posted appears in guest memory at the tail slot of its queue, with the command
  identifier, queue and head it was given, the status above the phase bit, and the phase of
  the queue in bit 0; the ring advances and the interrupt of the queue is raised once.\<close>

theorem post_cqe_effect:
  assumes "vfu_ok vfu tr" and "unat cqid < 64" and "cq = n_cq n ! unat cqid" and "cq_enabled cq"
    and "0 \<le> cq_irq cq" and "slot = cq_dma cq + ucast (cq_tail cq) * 16"
    and "distinct (map tr [unat slot..<unat slot + 16])"
    and "allocs h 0" and "vfu_addr_to_sgl vfu slot 16 8 True = Some sgs" and "sgs \<noteq> []"
    and "vfu_sgl_get vfu sgs = Some iov"
    and "nvme_post_cqe vfu n cqid sqid hd0 cid cdw0 status h = Inr (n', h')"
  shows "decode_cqe (map (\<lambda>a. hmem h' (tr a)) [unat slot..<unat slot + 16]) =
      \<lparr>cqe_cdw0 = cdw0, cqe_cdw1 = 0, cqe_sq_head = hd0, cqe_sq_id = sqid, cqe_cid = cid,
       cqe_status = push_bit 1 status OR ucast (cq_phase cq AND 1)\<rparr> \<and>
    n' = n\<lparr>n_cq := (n_cq n)[unat cqid := cq_advance cq]\<rparr> \<and>
    irqs h' = irqs h @ [word_of_int (cq_irq cq)]"
proof -
  have "fst (alloc h)" using assms(8) by (simp add: alloc_def)
  then have "\<And>buf. fst (nvme_gpa_xfer vfu slot buf 16 True h) = 0"
    using nvme_gpa_xfer_rc [OF assms(1) _ _ assms(9-11)] by simp
  from nvme_post_cqe_memory [OF assms(1-6) this assms(12)] show ?thesis
    using mem_writes_read_map [OF assms(7)] by (simp add: decode_encode_cqe)
qed

theorem post_cqe_effect_witness:
  "\<exists>n' h'. nvme_post_cqe id_vfu ctrl1 0 0 1 7 0 NVME_KV_KEY_NOT_EXISTS host0 = Inr (n', h') \<and>
    decode_cqe (map (\<lambda>a. hmem h' (id a)) [0x20000..<0x20010]) =
      \<lparr>cqe_cdw0 = 0, cqe_cdw1 = 0, cqe_sq_head = 1, cqe_sq_id = 0, cqe_cid = 7, cqe_status = 0x30f\<rparr> \<and>
    irqs h' = [0]"
proof -
  obtain n' h' where eq: "nvme_post_cqe id_vfu ctrl1 0 0 1 7 0 NVME_KV_KEY_NOT_EXISTS host0 = Inr (n', h')"
    by (rule nvme_post_cqe_inv [OF ctrl1_inv, of 0 id_vfu 0 1 7 0 NVME_KV_KEY_NOT_EXISTS host0]) simp_all
  from post_cqe_effect [OF id_vfu_ok _ refl _ _ refl _ _ _ _ _ eq, of "[(0x20000, 16)]" "[(0x20000, 16)]"] eq
  show ?thesis by (simp add: id_vfu_def zero_cq_def)
qed

section \<open>Submission queues\<close>

text \<open>C9: When the tail doorbell is inside the ring, \<open>nvme_process_sq\<close> executes exactly the commands between
  head and tail, one iteration each, unless a fetch fails, and then returns without undefined
  behaviour and with the controller invariant intact.\<close>

theorem process_sq_exact:
  assumes "sq_live qid n" and "unat (sq_tail (n_sq n ! unat qid)) < unat (sq_size (n_sq n ! unat qid))"
  shows "nvme_process_sq vfu qid n h =
      Some (run_steps (nvme_process_one vfu qid)
        (ring_dist (unat (sq_size (n_sq n ! unat qid))) (unat (sq_head (n_sq n ! unat qid)))
          (unat (sq_tail (n_sq n ! unat qid)))) (n, h)) \<and>
    (\<exists>n' h'. nvme_process_sq vfu qid n h = Some (Inr (n', h')) \<and> ctrl_inv n')"
proof -
  note D = sq_liveD [OF assms(1)]
  have "nvme_process_sq vfu qid n h = nvme_process_sq_loop vfu qid (n, h)"
    using D(2,5) by (simp add: nvme_process_sq_def)
  then show ?thesis
    using sq.loop_runs [of qid "(n, h)" vfu] nvme_process_sq_returns [OF D(1,2), of vfu h] assms by simp
qed

theorem process_sq_exact_witness:
  "nvme_process_sq id_vfu 0 ctrl1 host0 = Some (Inr (ctrl1, host0))"
proof -
  have "sq_live 0 ctrl1" by (simp add: sq_live_def ctrl1_inv)
  from process_sq_exact [OF this, of id_vfu host0] show ?thesis by (simp add: zero_sq_def ring_dist_def)
qed

text \<open>C30: When an enabled queue is rung with a tail at or beyond its size, and every slot of the ring can be
  fetched, \<open>nvme_process_sq\<close> never returns: the head stays below the size and never meets
  the tail.\<close>

theorem process_sq_diverges:
  assumes "sq_live qid n" and "\<And>i. allocs h i" and "ring_mapped vfu (n_sq n ! unat qid)"
    and "unat (sq_size (n_sq n ! unat qid)) \<le> unat (sq_tail (n_sq n ! unat qid))"
  shows "nvme_process_sq vfu qid n h = None"
proof -
  have "sq_stuck vfu qid (n, h)" using assms by (simp add: sq_stuck_def heap_ok_def)
  then show ?thesis
    using nvme_process_sq_loop_stuck sq_liveD(2,5) [OF assms(1)] by (auto simp: nvme_process_sq_def)
qed

text \<open>The controller of the scenario with its admin doorbell at 16, one past the last slot.\<close>

definition ctrl1_rung :: nvme_ctrl where
  "ctrl1_rung = ctrl1\<lparr>n_sq := (n_sq ctrl1)[0 := (n_sq ctrl1 ! 0)\<lparr>sq_tail := 16\<rparr>]\<rparr>"

theorem process_sq_diverges_witness: "nvme_process_sq id_vfu 0 ctrl1_rung host0 = None"
proof (rule process_sq_diverges)
  have sq: "n_sq ctrl1_rung ! 0 = zero_sq\<lparr>sq_dma := 0x10000, sq_size := 16, sq_tail := 16, sq_enabled := True\<rparr>"
    using ctrl_invD(1) [OF ctrl1_inv] by (simp add: ctrl1_rung_def zero_sq_def)
  have "ctrl_inv ctrl1_rung"
    unfolding ctrl1_rung_def by (rule ctrl_inv_doorbell(2) [OF ctrl1_inv]) simp
  then show "sq_live 0 ctrl1_rung" by (simp add: sq_live_def sq)
  show "unat (sq_size (n_sq ctrl1_rung ! unat 0)) \<le> unat (sq_tail (n_sq ctrl1_rung ! unat 0))"
    by (simp add: sq zero_sq_def)
qed (simp_all add: id_vfu_ring)

section \<open>Admin commands\<close>

text \<open>C20: On a ready controller every admin command returns without undefined behaviour, keeps the invariant,
  all nine registers, the admin queues, the MSI-X region, the capacity and the stored pairs, raises no interrupt of its own, and
  suppresses the completion only for an Asynchronous Event Request.\<close>

theorem admin_cmd_safe:
  assumes "ctrl_inv n" and "n_csts n = NVME_CSTS_RDY"
  shows "\<exists>st c n' h'. nvme_admin_cmd vfu n sqe h = Inr (st, c, n', h') \<and> ctrl_inv n' \<and> admin_frame n n' \<and>
    irqs h' = irqs h \<and> (st = NVME_NO_COMPLETE \<longleftrightarrow> sqe_opcode sqe = NVME_ADM_ASYNC_EVENT)"
  using nvme_admin_cmd_inv [OF assms, of vfu sqe h] by metis

theorem admin_cmd_safe_witness:
  "\<exists>st c n' h'. nvme_admin_cmd id_vfu ctrl1 (kv_sqe 6 0 0 0x3000 1) host0 = Inr (st, c, n', h') \<and> ctrl_inv n'"
  using admin_cmd_safe [OF ctrl1_inv, of id_vfu "kv_sqe 6 0 0 0x3000 1" host0] by auto

text \<open>C33: The NVM Identify Namespace page advertises the namespace in bytes of slot footprint: size and
  capacity are 4112 times the key capacity, and the use is 4112 times the number of stored
  keys, so the use never exceeds the capacity.\<close>

theorem identify_namespace_page:
  assumes "kv_inv (n_ns n)"
  shows "\<exists>buf. nvme_identify_data n NVME_ID_CNS_NS csi = Inr (Some buf) \<and> length buf = 4096 \<and>
    unat (get_le 0 8 buf :: u64) = 4112 * unat (max_num_keys (n_ns n)) \<and>
    get_le 8 8 buf = (get_le 0 8 buf :: u64) \<and>
    unat (get_le 16 8 buf :: u64) = 4112 * card (dom (kv_abs (n_ns n))) \<and>
    (get_le 16 8 buf :: u64) \<le> get_le 8 8 buf"
proof -
  obtain d where d: "id_ns_kv (n_ns n) = Some d" "unat (nuse d) = 4112 * card (dom (kv_abs (n_ns n)))"
      "unat (nsze d) = 4112 * unat (max_num_keys (n_ns n))" "nuse d \<le> nsze d"
    by (rule kv_descriptor [OF assms])
  then show ?thesis
    by (simp add: nvme_identify_data_def Let_def get_le_overwrite le_dec_enc take_bit_word_eq_self)
qed

theorem identify_namespace_page_witness:
  "\<exists>buf. nvme_identify_data ctrl1 NVME_ID_CNS_NS 0 = Inr (Some buf) \<and> unat (get_le 8 8 buf :: u64) = 16448"
  using identify_namespace_page [of ctrl1 0] ns0_inv by auto

text \<open>The KV Identify Namespace page is the namespace descriptor as it stands in memory.\<close>

lemma identify_kv_namespace_page:
  assumes "kv_inv (n_ns n)"
  shows "\<exists>d. id_ns_kv (n_ns n) = Some d \<and> length (encode_id_ns_kv d) = 4096 \<and>
    nvme_identify_data n NVME_ID_CNS_CS_NS NVME_CSI_KV = Inr (Some (encode_id_ns_kv d)) \<and>
    get_le 0 8 (encode_id_ns_kv d) = nsze d \<and> get_le 16 8 (encode_id_ns_kv d) = nuse d \<and>
    get_le 25 1 (encode_id_ns_kv d) = nkvf d"
proof -
  obtain d where d: "id_ns_kv (n_ns n) = Some d" "id_ns_kv_wf d" by (rule kv_descriptor [OF assms])
  then have len: "length (encode_id_ns_kv d) = 4096" by (simp add: length_encode_id_ns_kv)
  have "length (rsvd8 d) = 8" using d(2) by (simp add: id_ns_kv_wf_def)
  then have "get_le 0 8 (encode_id_ns_kv d) = nsze d \<and> get_le 16 8 (encode_id_ns_kv d) = nuse d \<and>
      get_le 25 1 (encode_id_ns_kv d) = nkvf d"
    by (simp add: encode_id_ns_kv_def get_le_layout)
  with d(1) len show ?thesis by (simp add: nvme_identify_data_def Let_def overwrite_full)
qed

lemma id_ctrl_model: "take 40 (drop 0x18 nvme_fill_id_ctrl) = map of_char ''vfio-user-kvssd'' @ replicate 25 0x20"
  by (simp add: nvme_fill_id_ctrl_def Let_def take_drop_overwrite take_drop_overwrite_other take_drop_update
      nvme_fill_ascii_eq)

lemma id_ctrl_strings:
  "take 20 (drop 0x04 nvme_fill_id_ctrl) = map of_char ''VFUKVSSD000000000000''"
  "take 8 (drop 0x40 nvme_fill_id_ctrl) = map of_char ''0.1.3   ''"
  "take 30 (drop 0x300 nvme_fill_id_ctrl) = map of_char ''nqn.2025-11.dk.safl:vfu_kvssd'' @ [0]"
proof -
  note cut = nvme_fill_id_ctrl_def Let_def take_drop_overwrite take_drop_overwrite_other take_drop_update
  show "take 20 (drop 0x04 nvme_fill_id_ctrl) = map of_char ''VFUKVSSD000000000000''"
    by (simp add: cut nvme_fill_ascii_eq)
  show "take 8 (drop 0x40 nvme_fill_id_ctrl) = map of_char ''0.1.3   ''"
    by (simp add: cut nvme_fill_ascii_eq) (simp add: numeral_eq_Suc)
  have "take 29 (drop 0x300 nvme_fill_id_ctrl) = map of_char ''nqn.2025-11.dk.safl:vfu_kvssd''"
    by (simp add: cut)
  moreover have "nvme_fill_id_ctrl ! 0x31d = 0"
    by (simp add: nvme_fill_id_ctrl_def Let_def nth_overwrite nth_list_update)
  moreover have "take 30 (drop 0x300 nvme_fill_id_ctrl) = take 29 (drop 0x300 nvme_fill_id_ctrl) @ [nvme_fill_id_ctrl ! 0x31d]"
    using take_Suc_conv_app_nth [of 29 "drop 0x300 nvme_fill_id_ctrl"] by simp
  ultimately show "take 30 (drop 0x300 nvme_fill_id_ctrl) = map of_char ''nqn.2025-11.dk.safl:vfu_kvssd'' @ [0]"
    by simp
qed

lemma id_ctrl_numbers:
  "get_le 0x00 2 nvme_fill_id_ctrl = (0x1b36 :: u16)" "get_le 0x02 2 nvme_fill_id_ctrl = (0x1b36 :: u16)"
  "nvme_fill_id_ctrl ! 0x4d = 1" "get_le 0x4e 2 nvme_fill_id_ctrl = (1 :: u16)"
  "get_le 0x50 4 nvme_fill_id_ctrl = (0x00020000 :: u32)" "nvme_fill_id_ctrl ! 0x6f = 1"
  "nvme_fill_id_ctrl ! 0x200 = 0x66" "nvme_fill_id_ctrl ! 0x201 = 0x44" "get_le 0x204 4 nvme_fill_id_ctrl = (1 :: u32)"
proof -
  note get = nvme_fill_id_ctrl_def Let_def nth_overwrite nth_list_update
  show "nvme_fill_id_ctrl ! 0x4d = 1" "nvme_fill_id_ctrl ! 0x6f = 1"
    "nvme_fill_id_ctrl ! 0x200 = 0x66" "nvme_fill_id_ctrl ! 0x201 = 0x44"
    by (simp_all add: get)
  have b: "nvme_fill_id_ctrl ! 0 = 0x36" "nvme_fill_id_ctrl ! Suc 0 = 0x1b" "nvme_fill_id_ctrl ! 2 = 0x36"
    "nvme_fill_id_ctrl ! 3 = 0x1b" "nvme_fill_id_ctrl ! 0x4e = 1" "nvme_fill_id_ctrl ! 0x4f = 0"
    "nvme_fill_id_ctrl ! 0x50 = 0" "nvme_fill_id_ctrl ! 0x51 = 0" "nvme_fill_id_ctrl ! 0x52 = 2"
    "nvme_fill_id_ctrl ! 0x53 = 0" "nvme_fill_id_ctrl ! 0x204 = 1"
    "nvme_fill_id_ctrl ! 0x205 = 0" "nvme_fill_id_ctrl ! 0x206 = 0" "nvme_fill_id_ctrl ! 0x207 = 0"
    by (simp_all add: get)
  show "get_le 0x00 2 nvme_fill_id_ctrl = (0x1b36 :: u16)" "get_le 0x02 2 nvme_fill_id_ctrl = (0x1b36 :: u16)"
    "get_le 0x4e 2 nvme_fill_id_ctrl = (1 :: u16)" "get_le 0x50 4 nvme_fill_id_ctrl = (0x00020000 :: u32)"
    "get_le 0x204 4 nvme_fill_id_ctrl = (1 :: u32)"
    by (simp_all add: get_le_nth upt_rec b numeral_2_eq_2 [symmetric] numeral_3_eq_3 [symmetric])
qed



text \<open>Set Features and Get Features: the delete-of-missing-key setting reads back as written, and the
  number of queues granted is the number asked for, at most 63 of each kind (62, zero-based).\<close>

lemma features_roundtrip:
  assumes "nvme_admin_set_features n s1 0 = (st, c, n')"
  shows "((ucast (sqe_cdw10 s1 AND 0xff) :: u8) = NVME_FEAT_KV_EDNEK \<longrightarrow>
      (ucast (sqe_cdw10 s2 AND 0xff) :: u8) = NVME_FEAT_KV_EDNEK \<longrightarrow>
      nvme_admin_get_features n' s2 = (NVME_SUCCESS, sqe_cdw11 s1)) \<and>
    ((ucast (sqe_cdw10 s1 AND 0xff) :: u8) = NVME_FEAT_NUM_QUEUES \<longrightarrow>
      n' = n \<and> (ucast c :: u16) = min (ucast (sqe_cdw11 s1)) 62 \<and>
      (ucast (drop_bit 16 c) :: u16) = min (ucast (drop_bit 16 (sqe_cdw11 s1))) 62)"
proof -
  have m: "(0xffff :: u32) = mask 16" by (simp add: mask_eq_exp_minus_1)
  have u: "(ucast (x AND 0xffff :: u32) :: u16) = ucast x" for x
    unfolding m by (rule bit_word_eqI) (simp add: bit_simps)
  have lo: "(ucast (push_bit 16 (ucast a) OR ucast b :: u32) :: u16) = b" for a b :: u16
    by (rule bit_word_eqI) (simp add: bit_simps)
  have hi: "(ucast (drop_bit 16 (push_bit 16 (ucast a) OR ucast b :: u32)) :: u16) = a" for a b :: u16
    by (rule bit_word_eqI) (auto simp: bit_simps dest: bit_imp_le_length)
  show ?thesis
    using assms
    by (auto simp: nvme_admin_set_features_def nvme_admin_get_features_def Let_def u lo hi [unfolded drop_bit_or])
qed

text \<open>C32: Create I/O Submission Queue succeeds exactly for a queue identifier from 1 to 63 and a completion
  queue that exists and is enabled; then that entry of the table is a fresh empty ring on the
  given address, and nothing else changes.\<close>

theorem create_sq_correct:
  assumes "ctrl_inv n" and "nvme_admin_create_sq n sqe = (st, n')"
    and "qid = ucast (sqe_cdw10 sqe AND 0xffff)" and "cqid = ucast (drop_bit 16 (sqe_cdw11 sqe) AND 0xffff)"
  shows "(st = NVME_SUCCESS \<longleftrightarrow> 0 < unat (qid :: u16) \<and> unat qid < 64 \<and> unat (cqid :: u16) < 64 \<and>
      cq_enabled (n_cq n ! unat cqid)) \<and>
    (st \<noteq> NVME_SUCCESS \<longrightarrow> st = NVME_STATUS_INVALID_QID OR NVME_DNR \<and> n' = n) \<and>
    (st = NVME_SUCCESS \<longrightarrow> (\<exists>q. n' = n\<lparr>n_sq := (n_sq n)[unat qid := q]\<rparr> \<and> sq_enabled q \<and>
      sq_dma q = sqe_prp1 sqe \<and> sq_cqid q = cqid \<and> sq_head q = 0 \<and> sq_tail q = 0 \<and>
      unat (sq_size q) = unat (ucast (drop_bit 16 (sqe_cdw10 sqe) AND 0xffff) :: u16) + 1))"
proof -
  have sz: "unat (ucast (q :: u16) + 1 :: u32) = unat q + 1" for q
    using unsigned_less [of q, where 'a = nat] by (simp add: unat_word_ariths unat_ucast_up)
  show ?thesis
    using assms(2-) by (auto simp: nvme_admin_create_sq_def Let_def zero_sq_def sz unat_gt_0 split: if_splits)
qed

theorem create_sq_correct_witness:
  "fst (nvme_admin_create_sq ctrl1 (kv_sqe 1 0 0 0x4000 0x000f0001)) = NVME_SUCCESS \<and>
   fst (nvme_admin_create_sq ctrl1 (kv_sqe 1 0 0x00050000 0x4000 0x000f0001)) \<noteq> NVME_SUCCESS"
proof -
  obtain s1 n1 s2 n2 where
      eq: "nvme_admin_create_sq ctrl1 (kv_sqe 1 0 0 0x4000 0x000f0001) = (s1, n1)"
        "nvme_admin_create_sq ctrl1 (kv_sqe 1 0 0x00050000 0x4000 0x000f0001) = (s2, n2)"
    by (metis prod.exhaust)
  have "n_cq ctrl1 ! 5 = zero_cq"
    by (simp add: ctrl1_def nvme_cc_write_def nvme_enable_def Let_def)
  with create_sq_correct [OF ctrl1_inv eq(1) refl refl] create_sq_correct [OF ctrl1_inv eq(2) refl refl] eq
  show ?thesis by (simp add: kv_sqe_def zero_cq_def)
qed

section \<open>Registers\<close>

text \<open>C36: \<open>rd_le\<close> reads up to eight bytes as a little-endian number; on a longer access it shifts by the
  width of the operand, which C leaves undefined.\<close>

theorem rd_le_defined: "rd_le b = (if length b \<le> 8 then Inr (le_dec b) else Inl UB_shift)"
proof (cases "length b \<le> 8")
  case False
  then show ?thesis by (simp add: rd_le_def rd_le_loop_long)
qed (simp add: rd_le_eq)

text \<open>C35: What the host writes into a register it reads back: the 32-bit registers, and the 64-bit queue
  base addresses whether written as one quad word or as two double words.\<close>

theorem reg_write_read:
  assumes "length b4 = 4" and "length b8 = 8" and "length lo = 4" and "length hi = 4"
  shows "(\<forall>off \<in> {NVME_REG_INTMS, NVME_REG_INTMC, NVME_REG_CC, NVME_REG_AQA}.
      \<exists>n'. nvme_reg_write n off b4 = Inr n' \<and> nvme_reg_read n' off 4 = b4) \<and>
    (\<forall>off \<in> {NVME_REG_ASQ, NVME_REG_ACQ}.
      (\<exists>n'. nvme_reg_write n off b8 = Inr n' \<and> nvme_reg_read n' off 8 = b8) \<and>
      (\<exists>n1 n2. nvme_reg_write n off lo = Inr n1 \<and> nvme_reg_write n1 (off + 4) hi = Inr n2 \<and>
        nvme_reg_read n2 off 8 = lo @ hi))"
proof -
  have "(ucast (le_dec b4 :: u64) :: u32) = le_dec b4"
    by (rule bit_word_eqI) (simp add: bit_le_dec bit_simps)
  then have b4: "le_enc 4 (ucast (le_dec b4 :: u64) :: u32) = b4"
    using le_enc_dec [of b4, where 'a = 32] assms(1) by simp
  have b8: "le_enc 8 (le_dec b8 :: u64) = b8" using le_enc_dec [of b8, where 'a = 64] assms(2) by simp
  have m: "(0xffffffff :: u64) = mask 32" by (simp add: mask_eq_exp_minus_1)
  have short: "j < 32" if "bit (le_dec x :: u64) j" "length x = 4" for x j
    using that by (simp add: bit_le_dec div_less_iff_less_mult)
  have "reg_set_hi (reg_set_lo r (le_dec lo)) (le_dec hi) = le_dec lo OR push_bit 32 (le_dec hi)" for r
    unfolding reg_set_hi_def reg_set_lo_def m
    by (rule bit_word_eqI) (auto simp: bit_simps dest: short [OF _ assms(3)] short [OF _ assms(4)])
  then have halves: "reg_set_hi (reg_set_lo r (le_dec lo)) (le_dec hi) = le_dec (lo @ hi)" for r
    using assms(3) by (simp add: le_dec_append)
  have lh: "le_enc 8 (le_dec (lo @ hi) :: u64) = lo @ hi"
    using le_enc_dec [of "lo @ hi", where 'a = 64] assms(3,4) by simp
  show ?thesis
    using assms
    by (simp add: nvme_reg_write_def rd_le_eq nvme_reg_read_regs b4 b8 halves lh)
qed

theorem reg_write_read_witness:
  "\<exists>n1 n2. nvme_reg_write ctrl0 0x28 [1, 2, 3, 4] = Inr n1 \<and> nvme_reg_write n1 0x2c [5, 6, 7, 8] = Inr n2 \<and>
    nvme_reg_read n2 0x28 8 = [1, 2, 3, 4, 5, 6, 7, 8]"
  using reg_write_read [of "[0, 0, 0, 0]" "[0, 0, 0, 0, 0, 0, 0, 0]" "[1, 2, 3, 4]" "[5, 6, 7, 8]" ctrl0] by auto

text \<open>C14: After a write of \<open>CC\<close>, \<open>CSTS.RDY\<close> equals \<open>CC.EN\<close>; the shutdown status is complete right after
  \<open>CC.SHN\<close> leaves zero, normal when it is zero or when the controller is enabled or reset, and
  kept by a write that repeats \<open>SHN\<close>; and queues are enabled only while the status is exactly
  ready.\<close>

theorem cc_write_status:
  assumes "regs_inv n"
  shows "n_csts (nvme_cc_write n v) = (v AND NVME_CC_EN) OR
      (if v AND NVME_CC_SHN_MASK = 0 then 0
       else if n_cc n AND NVME_CC_SHN_MASK = 0 then NVME_CSTS_SHST_COMPLETE
       else if v AND NVME_CC_EN = n_cc n AND NVME_CC_EN then n_csts n AND NVME_CSTS_SHST_MASK
       else 0) \<and>
    (n_csts (nvme_cc_write n v) \<noteq> NVME_CSTS_RDY \<longrightarrow> queues_off (nvme_cc_write n v))"
  using nvme_cc_write_csts [OF assms] nvme_cc_write_off [OF assms] by blast

theorem cc_write_status_witness:
  "n_csts (nvme_cc_write ctrl1 0x4001) = 9 \<and> queues_off (nvme_cc_write ctrl1 0x4001)"
  using cc_write_status [OF ctrl_invD(6) [OF ctrl1_inv], of "0x4001"] by simp

text \<open>C19: An access to BAR0 of at most eight bytes returns its byte count without undefined behaviour and
  keeps the controller invariant, as long as an enabled submission queue is not rung with a
  tail outside its ring; a doorbell of a queue beyond the last one is accepted and changes nothing.\<close>

theorem bar0_access_safe:
  assumes "ctrl_inv n" and "length buf \<le> 8"
    and "w \<Longrightarrow> offset \<ge> NVME_REG_DOORBELL \<Longrightarrow> doorbell_in_ring n buf offset"
  shows "\<exists>buf' n' h'. nvme_bar0_access vfu n buf offset w h = Some (Inr (int (length buf), buf', n', h')) \<and>
    ctrl_inv n' \<and>
    (w \<and> offset \<ge> NVME_REG_DOORBELL \<and>
      NVME_MAX_QUEUES \<le> unat (word_of_nat ((offset - NVME_REG_DOORBELL) div 8) :: u16) \<longrightarrow>
      buf' = buf \<and> n' = n \<and> h' = h)"
proof -
  obtain buf' n' h' where r: "nvme_bar0_access vfu n buf offset w h = Some (Inr (int (length buf), buf', n', h'))"
    using nvme_bar0_access_returns [OF assms, where vfu = vfu and h = h] by blast
  then have "ctrl_inv n'" by (rule nvme_bar0_access_inv [OF assms(1)])
  with r nvme_bar0_access_no_queue [OF assms(2), of offset vfu n h] show ?thesis by auto
qed

theorem bar0_access_safe_witness:
  "\<exists>buf' n' h'. nvme_bar0_access id_vfu ctrl1 [3, 0, 0, 0] 0x1000 True host0 = Some (Inr (4, buf', n', h')) \<and>
    ctrl_inv n' \<and> nvme_bar0_access id_vfu ctrl1 [9, 0, 0, 0] 0x1208 True host0 = Some (Inr (4, [9, 0, 0, 0], ctrl1, host0))"
  using bar0_access_safe [OF ctrl1_inv, of "[3, 0, 0, 0]" True "0x1000" id_vfu host0]
    bar0_access_safe [OF ctrl1_inv, of "[9, 0, 0, 0]" True "0x1208" id_vfu host0]
  by (simp add: doorbell_in_ring_def zero_sq_def)

text \<open>The MSI-X region is plain memory: an access that reaches beyond its 4096 bytes is refused and
  changes nothing, any other write is what a later read of the same range returns.\<close>

lemma msix_write_read:
  assumes "length (n_msix_region n) = 4096"
  shows "(4096 < off + length b \<longrightarrow> nvme_msix_access n b off w = (-1, b, n)) \<and>
    (off + length b \<le> 4096 \<longrightarrow> length b' = length b \<longrightarrow>
      (\<exists>n'. nvme_msix_access n b off True = (int (length b), b, n') \<and>
        nvme_msix_access n' b' off False = (int (length b), b, n')))"
  using assms by (auto simp: nvme_msix_access_def Let_def take_drop_overwrite)

end
