(* ===== verification/NvmeTrace.thy ===== *)
theory NvmeTrace
  imports CommandLine
begin

text \<open>
  The trace output: the clock \<open>nvme_trace_us\<close> of \<^verbatim>\<open>src/nvme.c\<close> and the macro \<open>NVME_TRACE\<close> of
  \<^verbatim>\<open>src/nvme.h\<close>. The static variable \<open>origin_us\<close> and what has been written to \<open>stderr\<close> are state;
  the result of \<open>clock_gettime\<close> (seconds and nanoseconds, or a failure) and the message, already
  formatted, are arguments. The lemmas show that the lines carry the microseconds since the first
  of them.
\<close>

definition nvme_trace_us :: "(nat \<times> nat) option \<Rightarrow> u64 \<Rightarrow> u64 \<times> u64" where
  "nvme_trace_us ts origin_us =
     (case ts of
       None \<Rightarrow> (0, origin_us)
     | Some (tv_sec, tv_nsec) \<Rightarrow>
         (let now = of_nat tv_sec * 1000000 + of_nat tv_nsec div 1000;
              origin_us' = (if origin_us = 0 then now else origin_us)
          in (now - origin_us', origin_us')))"

lemma trace_first: "nvme_trace_us (Some t) 0 = (0, snd (nvme_trace_us (Some t) 0))"
  by (cases t) (simp add: nvme_trace_us_def Let_def)

text \<open>The microseconds of a reading, as long as they fit into 64 bits.\<close>

definition clock_us :: "nat \<times> nat \<Rightarrow> nat" where
  "clock_us = (\<lambda>(s, ns). s * 1000000 + ns div 1000)"

lemma clock_word:
  assumes "ns < 1000000000"
  shows "of_nat s * 1000000 + of_nat ns div 1000 = (of_nat (clock_us (s, ns)) :: u64)"
proof -
  have "unat (of_nat ns div 1000 :: u64) = unat (of_nat (ns div 1000) :: u64)"
    using assms by (simp add: unat_div_distrib unat_of_nat)
  then have "(of_nat ns div 1000 :: u64) = of_nat (ns div 1000)"
    by (simp only: word_unat_eq_iff)
  then show ?thesis by (simp add: clock_us_def)
qed

text \<open>Readings of a clock that does not run backwards are the microseconds since the first one.\<close>

lemma trace_elapsed:
  assumes "ns0 < 1000000000" and "ns < 1000000000" and "0 < clock_us (s0, ns0)"
    and "clock_us (s0, ns0) \<le> clock_us (s, ns)" and "clock_us (s, ns) < 2 ^ 64"
  shows "unat (fst (nvme_trace_us (Some (s, ns)) (snd (nvme_trace_us (Some (s0, ns0)) 0)))) =
    clock_us (s, ns) - clock_us (s0, ns0)"
proof -
  let ?w = "\<lambda>t. of_nat (clock_us t) :: u64"
  have u: "unat (?w (s0, ns0)) = clock_us (s0, ns0)" "unat (?w (s, ns)) = clock_us (s, ns)"
    using assms by (simp_all add: unat_of_nat)
  then have "?w (s0, ns0) \<noteq> 0" using assms(3) by (metis less_irrefl unsigned_0)
  moreover have "unat (?w (s, ns) - ?w (s0, ns0)) = clock_us (s, ns) - clock_us (s0, ns0)"
    using u assms(4) by (simp add: unat_sub word_le_nat_alt)
  ultimately show ?thesis
    by (simp add: nvme_trace_us_def clock_word [OF assms(1)] clock_word [OF assms(2)] Let_def)
qed

section \<open>Lines\<close>

text \<open>The conversion \<open>%9\<close> of a 64-bit unsigned number, and the line of one message.\<close>

definition format_u9 :: "u64 \<Rightarrow> string" where
  "format_u9 v = (let d = dec (unat v) in replicate (9 - length d) CHR '' '' @ d)"

definition trace_line :: "u64 \<Rightarrow> string \<Rightarrow> string" where
  "trace_line us msg = ''kvssd[trace +'' @ format_u9 us @ ''us] '' @ msg @ [CHR 0x0A]"

definition NVME_TRACE :: "bool \<Rightarrow> string \<Rightarrow> (nat \<times> nat) option \<Rightarrow> u64 \<times> string list \<Rightarrow> u64 \<times> string list" where
  "NVME_TRACE nvme_trace_enabled msg ts = (\<lambda>(origin_us, err).
     if nvme_trace_enabled then
       (let (us, origin_us') = nvme_trace_us ts origin_us in (origin_us', err @ [trace_line us msg]))
     else (origin_us, err))"

text \<open>The number in a line.\<close>

definition line_us :: "string \<Rightarrow> nat" where
  "line_us l = digits_value 10 (takeWhile (\<lambda>c. digit_val c < 10) (dropWhile is_space (drop 13 l)))"

lemma dec_nonempty: "dec n \<noteq> []"
  by (subst dec.simps) simp

lemma line_us_line: "line_us (trace_line us msg) = unat us"
proof -
  let ?d = "dec (unat us)" and ?r = "''us] '' @ msg @ [CHR 0x0A]"
  have "\<not> is_space (hd ?d)"
    using dec_digits [of "unat us"] dec_nonempty [of "unat us"]
    by (cases ?d) (auto simp: digit_val_def is_space_def split: if_splits)
  then have "dropWhile is_space (?d @ ?r) = ?d @ ?r"
    using dec_nonempty [of "unat us"] by (metis append_Cons dropWhile.simps(2) list.collapse)
  moreover have "dropWhile is_space (replicate k CHR '' '' @ xs) = dropWhile is_space xs" for k xs
    by (induction k) (simp_all add: is_space_def)
  moreover have "takeWhile (\<lambda>c. digit_val c < 10) (?d @ ?r) = ?d"
    by (rule takeWhile_dec) (simp add: digit_val_def)
  ultimately show ?thesis
    by (simp add: line_us_def trace_line_def format_u9_def Let_def digits_value_dec)
qed

lemma trace_fold:
  assumes "\<forall>(m, t) \<in> set cs. snd t < 1000000000 \<and> o0 \<le> clock_us t \<and> clock_us t < 2 ^ 64" and "0 < o0"
  shows "fold (\<lambda>(m, t). NVME_TRACE True m (Some t)) cs (of_nat o0, err) =
    (of_nat o0, err @ map (\<lambda>(m, t). trace_line (of_nat (clock_us t - o0)) m) cs)"
  using assms(1)
proof (induction cs arbitrary: err)
  case (Cons c cs)
  obtain m s ns where c: "c = (m, s, ns)" by (cases c)
  have b: "ns < 1000000000" "o0 \<le> clock_us (s, ns)" "clock_us (s, ns) < 2 ^ 64" using Cons.prems by (auto simp: c)
  have "unat (of_nat o0 :: u64) = o0" using b by (simp add: unsigned_of_nat take_bit_nat_eq_self)
  then have "(of_nat o0 :: u64) \<noteq> 0" using assms(2) by (metis less_irrefl unsigned_0)
  moreover have "of_nat (clock_us (s, ns)) - of_nat o0 = (of_nat (clock_us (s, ns) - o0) :: u64)"
    using b(2) by (simp add: of_nat_diff)
  ultimately have "NVME_TRACE True m (Some (s, ns)) (of_nat o0, err) =
      (of_nat o0, err @ [trace_line (of_nat (clock_us (s, ns) - o0)) m])"
    by (simp add: NVME_TRACE_def nvme_trace_us_def clock_word [OF b(1)] Let_def)
  then show ?case using Cons by (simp add: c)
qed simp

text \<open>C40: The trace of a run whose clock works, does not go backwards and starts at a positive number of
  microseconds: with tracing on there is one line per message,
  in order, and the number in it is the time in microseconds since the first message; with
  tracing off nothing is written.\<close>

theorem trace_lines:
  assumes "\<forall>(m, t) \<in> set cs. snd t < 1000000000 \<and> clock_us (snd (hd cs)) \<le> clock_us t \<and> clock_us t < 2 ^ 64"
    and "0 < clock_us (snd (hd cs))"
  shows "map line_us (snd (fold (\<lambda>(m, t). NVME_TRACE True m (Some t)) cs (0, []))) =
      map (\<lambda>(m, t). clock_us t - clock_us (snd (hd cs))) cs \<and>
    fold (\<lambda>(m, t). NVME_TRACE False m (Some t)) cs (o0, err) = (o0, err)"
proof
  let ?o = "clock_us (snd (hd cs))"
  have "fold (\<lambda>(m, t). NVME_TRACE True m (Some t)) cs (0, []) =
      (if cs = [] then 0 else of_nat ?o, map (\<lambda>(m, t). trace_line (of_nat (clock_us t - ?o)) m) cs)"
  proof (cases cs)
    case (Cons c ds)
    obtain m s ns where c: "c = (m, s, ns)" by (cases c)
    have "NVME_TRACE True m (Some (s, ns)) (0, []) = (of_nat ?o, [trace_line 0 m])"
      using assms(1) Cons by (simp add: c NVME_TRACE_def nvme_trace_us_def Let_def clock_word)
    then show ?thesis using trace_fold [of ds ?o] assms Cons by (simp add: c)
  qed simp
  moreover have "unat (of_nat (clock_us t - ?o) :: u64) = clock_us t - ?o" if "(m, t) \<in> set cs" for m t
    using assms(1) that by (auto simp: unsigned_of_nat intro!: take_bit_nat_eq_self)
  ultimately show "map line_us (snd (fold (\<lambda>(m, t). NVME_TRACE True m (Some t)) cs (0, []))) =
      map (\<lambda>(m, t). clock_us t - ?o) cs"
    by (auto simp: line_us_line)
  show "fold (\<lambda>(m, t). NVME_TRACE False m (Some t)) cs (o0, err) = (o0, err)"
    by (induction cs) (auto simp: NVME_TRACE_def)
qed

theorem trace_lines_witness:
  "map line_us (snd (fold (\<lambda>(m, t). NVME_TRACE True m (Some t)) [(''CC read: 0x0'', 7, 2000), (''reset'', 7, 1502000)] (0, []))) =
    [0, 1500]"
  using trace_lines [of "[(''CC read: 0x0'', 7, 2000), (''reset'', 7, 1502000)]"] by (simp add: clock_us_def)

end
