(* ===== verification/Device.thy ===== *)
theory Device
  imports MainProgram CtrlProperties NvmeTrace
begin

text \<open>
  The device as its environment drives it: a transition system whose states are the controller
  and the host, and whose steps are the callbacks that libvfio-user makes (BAR0 and MSI-X
  accesses, device reset) and anything the guest or the operating system does to memory in
  between. The generic part is a locale of step relations with an invariant.
\<close>

section \<open>Invariants of step relations\<close>

locale step_system =
  fixes step :: "'s \<Rightarrow> 's \<Rightarrow> bool" and init :: "'s \<Rightarrow> bool" and I :: "'s \<Rightarrow> bool"
  assumes init_inv: "init s \<Longrightarrow> I s"
    and step_inv: "I s \<Longrightarrow> step s s' \<Longrightarrow> I s'"
begin

lemma steps_inv: "step\<^sup>*\<^sup>* s s' \<Longrightarrow> I s \<Longrightarrow> I s'"
  by (induction rule: rtranclp_induct) (auto intro: step_inv)

lemma reachable_inv: "init s \<Longrightarrow> step\<^sup>*\<^sup>* s s' \<Longrightarrow> I s'"
  using steps_inv init_inv by blast

end

section \<open>Steps\<close>

inductive device_step :: "'sg vfu_ctx \<Rightarrow> nvme_ctrl \<times> host \<Rightarrow> nvme_ctrl \<times> host \<Rightarrow> bool" for vfu where
  bar0: "nvme_bar0_access vfu n buf offset w h = Some (Inr (ret, buf', n', h')) \<Longrightarrow>
     device_step vfu (n, h) (n', h')"
| msix: "nvme_msix_access n buf offset w = (ret, buf', n') \<Longrightarrow> device_step vfu (n, h) (n', h)"
| reset: "nvme_reset_cb n = (ret, n') \<Longrightarrow> device_step vfu (n, h) (n', h)"
| guest: "device_step vfu (n, h) (n, h')"

inductive_cases device_stepE: "device_step vfu s s'"

inductive_simps device_step_simps: "device_step vfu (n, h) (n', h')"

text \<open>A device starts as \<open>nvme_ctrl_init\<close> leaves it, on any heap and for a capacity in the supported range.\<close>

definition device_init :: "nvme_ctrl \<times> host \<Rightarrow> bool" where
  "device_init s \<longleftrightarrow> (\<exists>mx h. unat mx \<le> 2 ^ 31 \<and> nvme_ctrl_init mx h = (0, s))"

interpretation device: step_system "device_step vfu" device_init "\<lambda>s. ctrl_inv (fst s)"
  for vfu :: "'sg vfu_ctx"
proof
  show "ctrl_inv (fst s)" if "device_init s" for s :: "nvme_ctrl \<times> host"
    using that nvme_ctrl_init_inv(1) by (cases s) (auto simp: device_init_def)
  show "ctrl_inv (fst s')" if "ctrl_inv (fst s)" "device_step vfu s s'" for s s' :: "nvme_ctrl \<times> host"
    using that(2,1)
    by cases (auto dest: nvme_bar0_access_inv nvme_msix_access_inv nvme_ctrl_reset_inv simp: nvme_reset_cb_def)
qed

end
