(* ===== verification/DeviceRun.thy ===== *)
theory DeviceRun
  imports Device
begin

text \<open>
  What a run of the device executes. A run is labelled with the commands that the queue engine
  fetched and executed: the identifier of the queue, the submission entry, and the host as it was
  when the command was executed. The generic part is a closure of labelled steps and the
  locale that relates it to an unlabelled step relation with an invariant; every run of the device
  has such a label.
\<close>

section \<open>Labelled runs\<close>

text \<open>The steps of a labelled system each carry a list of events; a run carries their concatenation.\<close>

inductive lruns :: "('s \<Rightarrow> 'e list \<Rightarrow> 's \<Rightarrow> bool) \<Rightarrow> 's \<Rightarrow> 'e list \<Rightarrow> 's \<Rightarrow> bool" for step s0 where
  start: "lruns step s0 [] s0"
| more: "lruns step s0 es s \<Longrightarrow> step s fs s' \<Longrightarrow> lruns step s0 (es @ fs) s'"

lemma lruns_step: "step s es s' \<Longrightarrow> lruns step s es s'"
  using lruns.more [OF lruns.start] by fastforce

lemma lruns_trans: "lruns step s1 fs s2 \<Longrightarrow> lruns step s0 es s1 \<Longrightarrow> lruns step s0 (es @ fs) s2"
proof (induction rule: lruns.induct)
  case (more fs s gs s')
  then show ?case using lruns.more [of step s0 "es @ fs" s gs s'] by simp
qed simp

text \<open>Labels and an invariant for a step relation: every step has a label, and only steps have.\<close>

locale labelled_system = step_system step init I
  for step :: "'s \<Rightarrow> 's \<Rightarrow> bool" and init :: "'s \<Rightarrow> bool" and I :: "'s \<Rightarrow> bool" +
  fixes event :: "'s \<Rightarrow> 'e list \<Rightarrow> 's \<Rightarrow> bool"
  assumes event_step: "event s es s' \<Longrightarrow> step s s'"
    and step_event: "I s \<Longrightarrow> step s s' \<Longrightarrow> \<exists>es. event s es s'"
begin

lemma runs_steps: "lruns event s0 es s \<Longrightarrow> step\<^sup>*\<^sup>* s0 s"
  by (induction rule: lruns.induct) (auto intro: rtranclp.intros event_step)

lemma runs_inv: "lruns event s0 es s \<Longrightarrow> I s0 \<Longrightarrow> I s"
  using runs_steps steps_inv by blast

lemma steps_runs: "step\<^sup>*\<^sup>* s0 s \<Longrightarrow> I s0 \<Longrightarrow> \<exists>es. lruns event s0 es s"
proof (induction rule: rtranclp_induct)
  case (step s s')
  then show ?case using step_event [OF steps_inv] by (blast intro: lruns.more)
qed (blast intro: lruns.start)

end

section \<open>The commands of a run\<close>

text \<open>
  The entry that an iteration of \<open>nvme_process_sq\<close> fetches, if the transfer succeeds, and the host
  on which it is executed.
\<close>

definition nvme_fetch :: "'sg vfu_ctx \<Rightarrow> u16 \<Rightarrow> nvme_ctrl \<times> host \<Rightarrow> (NvmeSqe \<times> host) option" where
  "nvme_fetch vfu qid = (\<lambda>(n, h).
     let sq = n_sq n ! unat qid;
         (rc, b, h1) = nvme_gpa_xfer vfu (sq_dma sq + ucast (sq_head sq) * 64) (map (junk h) [0..<64]) 64 False h
     in if rc \<noteq> 0 then None else Some (decode_sqe b, h1))"

text \<open>The loop as a big-step relation, labelled with the entries it executes.\<close>

inductive sq_run ::
    "'sg vfu_ctx \<Rightarrow> u16 \<Rightarrow> nvme_ctrl \<times> host \<Rightarrow> (NvmeSqe \<times> host) list \<Rightarrow> nvme_ctrl \<times> host \<Rightarrow> bool"
  for vfu qid where
  empty: "sq_head (n_sq (fst s) ! unat qid) = sq_tail (n_sq (fst s) ! unat qid) \<Longrightarrow> sq_run vfu qid s [] s"
| fault: "sq_head (n_sq (fst s) ! unat qid) \<noteq> sq_tail (n_sq (fst s) ! unat qid) \<Longrightarrow>
    nvme_process_one vfu qid s = Inr (False, s') \<Longrightarrow> sq_run vfu qid s [] s'"
| ran: "sq_head (n_sq (fst s) ! unat qid) \<noteq> sq_tail (n_sq (fst s) ! unat qid) \<Longrightarrow>
    nvme_fetch vfu qid s = Some c \<Longrightarrow> nvme_process_one vfu qid s = Inr (True, s1) \<Longrightarrow>
    sq_run vfu qid s1 cs s' \<Longrightarrow> sq_run vfu qid s (c # cs) s'"

text \<open>The enabled submission queue whose doorbell an access to BAR0 rings, if any.\<close>

definition rung_queue :: "nvme_ctrl \<Rightarrow> nat \<Rightarrow> bool \<Rightarrow> u16 option" where
  "rung_queue n offset w =
     (let idx = (offset - NVME_REG_DOORBELL) div 4; qid = word_of_nat (idx div 2) :: u16 in
      if w \<and> offset \<ge> NVME_REG_DOORBELL \<and> even idx \<and> unat qid < NVME_MAX_QUEUES \<and>
         sq_enabled (n_sq n ! unat qid)
      then Some qid else None)"

type_synonym command = "u16 \<times> NvmeSqe \<times> host"

text \<open>A step of the device with the commands it executes: only a submission doorbell executes any.\<close>

inductive device_event :: "'sg vfu_ctx \<Rightarrow> nvme_ctrl \<times> host \<Rightarrow> command list \<Rightarrow> nvme_ctrl \<times> host \<Rightarrow> bool"
  for vfu where
  quiet: "nvme_bar0_access vfu n buf offset w h = Some (Inr (ret, buf', n', h')) \<Longrightarrow>
    rung_queue n offset w = None \<Longrightarrow> device_event vfu (n, h) [] (n', h')"
| doorbell: "nvme_bar0_access vfu n buf offset w h = Some (Inr (ret, buf', n', h')) \<Longrightarrow>
    rung_queue n offset w = Some qid \<Longrightarrow> rd_le buf = Inr v \<Longrightarrow>
    sq_run vfu qid (n\<lparr>n_sq := (n_sq n)[unat qid := (n_sq n ! unat qid)\<lparr>sq_tail := ucast (ucast v :: u32)\<rparr>]\<rparr>, h) cs (n', h') \<Longrightarrow>
    device_event vfu (n, h) (map (Pair qid) cs) (n', h')"
| msix: "nvme_msix_access n buf offset w = (ret, buf', n') \<Longrightarrow> device_event vfu (n, h) [] (n', h)"
| reset: "nvme_reset_cb n = (ret, n') \<Longrightarrow> device_event vfu (n, h) [] (n', h)"
| guest: "device_event vfu (n, h) [] (n, h')"

inductive_cases device_eventE: "device_event vfu s es s'"

definition device_run :: "'sg vfu_ctx \<Rightarrow> nvme_ctrl \<times> host \<Rightarrow> command list \<Rightarrow> nvme_ctrl \<times> host \<Rightarrow> bool" where
  "device_run vfu = lruns (device_event vfu)"

lemma device_run_start: "device_run vfu s [] s"
  by (simp add: device_run_def lruns.start)

lemma device_run_guest: "device_run vfu (n, h) [] (n, h')"
  unfolding device_run_def by (rule lruns_step) (rule device_event.guest)

section \<open>Every step has a label\<close>

lemma nvme_process_one_fetch:
  "nvme_process_one vfu qid s = Inr (True, s') \<Longrightarrow> \<exists>c. nvme_fetch vfu qid s = Some c"
  by (cases s) (auto simp: nvme_process_one_def nvme_fetch_def Let_def split_def split: if_splits)

text \<open>The big-step relation is the loop.\<close>

lemma sq_run_loop: "sq_run vfu qid s cs s' \<Longrightarrow> nvme_process_sq_loop vfu qid s = Some (Inr s')"
  by (induction rule: sq_run.induct; subst nvme_process_sq_loop.simps) simp_all

lemma loop_sq_run:
  assumes "nvme_process_sq_loop vfu qid s = Some (Inr s')"
  shows "\<exists>cs. sq_run vfu qid s cs s'"
proof -
  have "r = Inr s' \<longrightarrow> (\<exists>cs. sq_run vfu qid s cs s')" if "nvme_process_sq_loop vfu qid s = Some r" for r
    using that
  proof (induction rule: nvme_process_sq_loop_induct)
    case (ran s s1 r)
    then show ?case using nvme_process_one_fetch [OF ran(2)] by (metis sq_run.ran)
  qed (auto intro: sq_run.empty sq_run.fault)
  then show ?thesis using assms by blast
qed

lemma nvme_bar0_access_rung:
  assumes "nvme_bar0_access vfu n buf offset w h = Some (Inr (ret, buf', n', h'))"
    and "rung_queue n offset w = Some qid" and "ctrl_inv n"
  obtains v where "rd_le buf = Inr v" "unat qid < 64" "sq_enabled (n_sq n ! unat qid)"
    "nvme_process_sq_loop vfu qid
      (n\<lparr>n_sq := (n_sq n)[unat qid := (n_sq n ! unat qid)\<lparr>sq_tail := ucast (ucast v :: u32)\<rparr>]\<rparr>, h) = Some (Inr (n', h'))"
proof -
  have len: "length (n_sq n) = 64" using ctrl_invD(1) [OF assms(3)] .
  show ?thesis
    using assms(1,2) len that
    by (auto simp: nvme_bar0_access_def rung_queue_def Let_def nvme_process_sq_def
        split: if_splits sum.splits option.splits)
qed

interpretation device_runs: labelled_system "device_step vfu" device_init "\<lambda>s. ctrl_inv (fst s)" "device_event vfu"
  for vfu :: "'sg vfu_ctx"
proof
  show "device_step vfu s s'" if "device_event vfu s es s'" for s es s'
    using that by cases (auto intro: device_step.intros)
  show "\<exists>es. device_event vfu s es s'" if inv: "ctrl_inv (fst s)" and step: "device_step vfu s s'" for s s'
    using step
  proof cases
    case (bar0 n buf offset w h ret buf' n' h')
    show ?thesis
    proof (cases "rung_queue n offset w")
      case None
      then show ?thesis using bar0 by (blast intro: device_event.quiet)
    next
      case (Some qid)
      obtain v where v: "rd_le buf = Inr v" "nvme_process_sq_loop vfu qid
          (n\<lparr>n_sq := (n_sq n)[unat qid := (n_sq n ! unat qid)\<lparr>sq_tail := ucast (ucast v :: u32)\<rparr>]\<rparr>, h) = Some (Inr (n', h'))"
        by (rule nvme_bar0_access_rung [OF bar0(3) Some]) (use inv bar0 in auto)
      obtain cs where "sq_run vfu qid
          (n\<lparr>n_sq := (n_sq n)[unat qid := (n_sq n ! unat qid)\<lparr>sq_tail := ucast (ucast v :: u32)\<rparr>]\<rparr>, h) cs (n', h')"
        using loop_sq_run [OF v(2)] by blast
      then show ?thesis using device_event.doorbell [OF bar0(3) Some v(1)] bar0 by blast
    qed
  qed (blast intro: device_event.intros)+
qed

lemmas device_run_inv = device_runs.runs_inv [folded device_run_def]
  and device_run_steps = device_runs.runs_steps [folded device_run_def]
  and device_run_exists = device_runs.steps_runs [folded device_run_def]

end
