(* ===== verification/MapMachine.thy ===== *)
theory MapMachine
  imports DeviceRun
begin

text \<open>
  The device as a map. The abstract machine has a capacity and a finite map, and is driven by the
  same commands as the device: a store and a delete on an I/O queue do what their specifications
  say, every other command leaves the map alone. A simulation shows that whatever the guest and
  libvfio-user do, the stored pairs of the device are the result of running exactly the commands that its
  queue engine executed; what executes no command (register accesses, resets, guest memory)
  changes nothing.
\<close>

section \<open>Simulations\<close>

text \<open>
  A labelled system whose steps are runs of an abstract labelled system with the same events, by a
  function from states to abstract states.
\<close>

locale simulation = labelled_system step init I event
  for step :: "'s \<Rightarrow> 's \<Rightarrow> bool" and init :: "'s \<Rightarrow> bool" and I :: "'s \<Rightarrow> bool"
    and event :: "'s \<Rightarrow> 'e list \<Rightarrow> 's \<Rightarrow> bool" +
  fixes astep :: "'a \<Rightarrow> 'e list \<Rightarrow> 'a \<Rightarrow> bool" and abs :: "'s \<Rightarrow> 'a"
  assumes event_sim: "I s \<Longrightarrow> event s es s' \<Longrightarrow> lruns astep (abs s) es (abs s')"
begin

lemma runs_sim: "lruns event s0 es s \<Longrightarrow> I s0 \<Longrightarrow> lruns astep (abs s0) es (abs s)"
proof (induction rule: lruns.induct)
  case (more es s fs s')
  then show ?case using lruns_trans [OF event_sim] runs_inv by blast
qed (rule lruns.start)

lemma reachable_sim: "init s0 \<Longrightarrow> step\<^sup>*\<^sup>* s0 s \<Longrightarrow> \<exists>es. lruns event s0 es s \<and> lruns astep (abs s0) es (abs s)"
  using steps_runs runs_sim init_inv by blast

end

section \<open>The abstract machine\<close>

type_synonym kv_machine = "nat \<times> (bytes \<rightharpoonup> bytes)"

text \<open>
  The event is the command, with the host whose memory and allocator it finds. The specification
  of a store asks whether the table has to grow, which the machine leaves open.
\<close>

inductive kv_step :: "'sg vfu_ctx \<Rightarrow> kv_machine \<Rightarrow> command list \<Rightarrow> kv_machine \<Rightarrow> bool" for vfu where
  store: "qid \<noteq> 0 \<Longrightarrow> sqe_opcode sqe = NVME_CMD_KV_STORE \<Longrightarrow>
    spec_store (kvdma vfu) (kvcmd_of_sqe sqe) mx full m h = (st, m', h') \<Longrightarrow>
    kv_step vfu (mx, m) [(qid, sqe, h)] (mx, m')"
| delete: "qid \<noteq> 0 \<Longrightarrow> sqe_opcode sqe = NVME_CMD_KV_DELETE \<Longrightarrow>
    spec_delete (kvcmd_of_sqe sqe) err_if_absent m = (st, m') \<Longrightarrow>
    kv_step vfu (mx, m) [(qid, sqe, h)] (mx, m')"
| other: "qid = 0 \<or> sqe_opcode sqe \<notin> {NVME_CMD_KV_STORE, NVME_CMD_KV_DELETE} \<Longrightarrow>
    kv_step vfu a [(qid, sqe, h)] a"

inductive_cases kv_stepE: "kv_step vfu a es a'"

definition kv_run :: "'sg vfu_ctx \<Rightarrow> kv_machine \<Rightarrow> command list \<Rightarrow> kv_machine \<Rightarrow> bool" where
  "kv_run vfu = lruns (kv_step vfu)"

text \<open>What every state of the machine satisfies.\<close>

definition map_ok :: "kv_machine \<Rightarrow> bool" where
  "map_ok = (\<lambda>(mx, m). finite (dom m) \<and> card (dom m) \<le> mx \<and>
     (\<forall>k v. m k = Some v \<longrightarrow> length k \<le> 16 \<and> length v = 4096))"

lemma map_ok_put:
  assumes "map_ok (mx, m)" and "length k \<le> 16" and "length v = 4096"
    and "m k \<noteq> None \<or> card (dom m) < mx"
  shows "map_ok (mx, m(k \<mapsto> v))"
  using assms by (auto simp: map_ok_def card_insert_if)

lemma map_ok_delete: "map_ok (mx, m) \<Longrightarrow> map_ok (mx, m(k := None))"
  using card_Diff1_le [of "dom m" k] by (auto simp: map_ok_def)

lemma kvdma_h2c_length:
  "h2c (kvdma vfu) cmd v n s = (rc, v', s') \<Longrightarrow> n \<le> length v \<Longrightarrow> length v' = length v"
  using kvdma.h2c_frame by blast

text \<open>A store leaves the map alone or puts a value of full size under the key of the command.\<close>

lemma spec_store_cases:
  assumes "spec_store (kvdma vfu) cmd mx full m h = (st, m', h')" and "map_ok (mx, m)"
  obtains "m' = m"
    | v where "m' = m(cmd_key cmd \<mapsto> v)" "length v = 4096" "length (cmd_key cmd) \<le> 16"
        "m (cmd_key cmd) \<noteq> None \<or> card (dom m) < mx"
proof (cases "m' = m")
  case False
  let ?n = "unat (kvc_hbs cmd)"
  have kl: "unat (kl (kvc_cdw11 cmd)) \<le> 16" and n: "?n \<le> 4096"
    using assms(1) False by (auto simp: spec_store_def Let_def split: if_splits)
  have len: "length v = 4096 \<Longrightarrow> length (fst (snd (h2c (kvdma vfu) cmd v ?n s))) = 4096" for v s
    using kvdma_h2c_length [of vfu cmd v ?n s] n by (metis prod.collapse)
  have "length v = 4096" if "m (cmd_key cmd) = Some v" for v
    using assms(2) that by (simp add: map_ok_def)
  then have "\<exists>v. m' = m(cmd_key cmd \<mapsto> v) \<and> length v = 4096 \<and> (m (cmd_key cmd) \<noteq> None \<or> card (dom m) < mx)"
    using assms(1) False len [of "replicate 4096 0"] len
    by (auto simp: spec_store_def Let_def split_def split: if_splits option.splits)
  then show ?thesis using that length_cmd_key [OF kl] kl by simp blast
qed (rule that)

lemma kv_step_ok: "kv_step vfu a es a' \<Longrightarrow> map_ok a \<Longrightarrow> map_ok a'"
proof (induction rule: kv_step.induct)
  case (store qid sqe mx full m h st m' h')
  show ?case
    by (rule spec_store_cases [OF store(3)]) (use store map_ok_put in auto)
next
  case (delete qid sqe e m st m' mx h)
  then show ?case by (auto simp: spec_delete_def map_ok_delete split: if_splits)
qed

interpretation machine: labelled_system "\<lambda>a a'. \<exists>es. kv_step vfu a es a'" "\<lambda>(mx, m). m = Map.empty" map_ok "kv_step vfu"
  for vfu :: "'sg vfu_ctx"
proof
  show "map_ok a" if "case a of (mx, m) \<Rightarrow> m = Map.empty" for a
    using that by (auto simp: map_ok_def)
qed (auto intro: kv_step_ok)

text \<open>Without commands nothing happens to the map.\<close>

lemma kv_run_Nil: "kv_run vfu a [] a' \<Longrightarrow> a' = a"
proof -
  have "es = [] \<longrightarrow> b = a" if "lruns (kv_step vfu) a es b" for es b
    using that by (induction rule: lruns.induct) (auto elim: kv_stepE)
  then show "kv_run vfu a [] a' \<Longrightarrow> a' = a" by (simp add: kv_run_def)
qed

lemma kv_run_capacity:
  assumes "kv_run vfu a es a'"
  shows "fst a' = fst a"
  using assms unfolding kv_run_def by (induction rule: lruns.induct) (auto elim: kv_stepE)

section \<open>The device simulates it\<close>

definition ctrl_map :: "nvme_ctrl \<Rightarrow> kv_machine" where
  "ctrl_map n = (unat (max_num_keys (n_ns n)), kv_abs (n_ns n))"

lemma ctrl_map_upd [simp]:
  "ctrl_map (n\<lparr>n_sq := x\<rparr>) = ctrl_map n" "ctrl_map (n\<lparr>n_cq := y\<rparr>) = ctrl_map n"
  by (simp_all add: ctrl_map_def)

lemma ctrl_map_ns: "n_ns n' = n_ns n \<Longrightarrow> ctrl_map n' = ctrl_map n"
  by (simp add: ctrl_map_def)

lemma nvme_io_kv_step:
  assumes inv: "ctrl_inv n" and io: "nvme_io_kv vfu n sqe h = Inr (st, n', h')" and q: "qid \<noteq> 0"
  shows "kv_step vfu (ctrl_map n) [(qid, sqe, h)] (ctrl_map n')"
proof -
  note kv = ctrl_invD(7) [OF inv]
  let ?cmd = "kvcmd_of_sqe sqe" and ?mx = "unat (max_num_keys (n_ns n))" and ?m = "kv_abs (n_ns n)"
  have op: "kvc_opcode ?cmd = sqe_opcode sqe" by (simp add: kvcmd_of_sqe_fields)
  have put: "kv_step vfu (?mx, ?m) [(qid, sqe, h)] (unat (max_num_keys ns1), kv_abs ns1)"
    if "kv_store (kvdma vfu) ?cmd (n_ns n) h = Inr (s1, ns1, h1)" "sqe_opcode sqe = NVME_CMD_KV_STORE" for s1 ns1 h1
    using kvdma.kv_store_refines [OF kv, of vfu ?cmd h] that q
    by (auto simp: refines_def prod_eq_iff intro!: kv_step.store)
  have del: "kv_step vfu (?mx, ?m) [(qid, sqe, g)] (unat (max_num_keys ns1), kv_abs ns1)"
    if "kv_delete ?cmd (n_ns n) = Inr (s1, ns1)" "sqe_opcode sqe = NVME_CMD_KV_DELETE" for s1 ns1 g
    by (rule kv_delete_refines [OF kv, of ?cmd])
      (use that q in \<open>auto simp: prod_eq_iff intro!: kv_step.delete\<close>)
  show ?thesis
    using io unfolding ctrl_map_def
    by (auto simp: nvme_io_kv_def op Let_def split_def split: if_splits sum.splits
        intro: put del kv_step.other)
qed

lemma nvme_exec_step:
  assumes "ctrl_inv n" and "n_csts n = 1" and "nvme_exec vfu qid n sqe h = Inr (st, c, n', h')"
  shows "kv_step vfu (ctrl_map n) [(qid, sqe, h)] (ctrl_map n')"
proof (cases "qid = 0")
  case True
  obtain st1 c1 n1 h1 where a: "nvme_admin_cmd vfu n sqe h = Inr (st1, c1, n1, h1)" "admin_frame n n1"
    by (rule nvme_admin_cmd_inv [OF assms(1,2)])
  then have "n' = n1" using assms(3) True by (simp add: nvme_exec_def)
  then have "ctrl_map n' = ctrl_map n" using a(2) by (simp add: admin_frame_def ctrl_map_def)
  then show ?thesis using True by (simp add: kv_step.other)
next
  case False
  then have "nvme_io_kv vfu n sqe h = Inr (st, n', h')"
    using assms(3) by (auto simp: nvme_exec_def split: sum.splits)
  then show ?thesis by (rule nvme_io_kv_step [OF assms(1) _ False])
qed

lemma nvme_post_cqe_map:
  "nvme_post_cqe vfu n cqid sqid hd0 cid cdw0 st h = Inr (n', h') \<Longrightarrow> n_ns n' = n_ns n"
  by (auto simp: nvme_post_cqe_def Let_def split_def split: if_splits)

lemma nvme_process_one_step:
  assumes live: "sq_live qid n" and one: "nvme_process_one vfu qid (n, h) = Inr (True, n', h')"
    and f: "nvme_fetch vfu qid (n, h) = Some c"
  shows "kv_step vfu (ctrl_map n) [(qid, c)] (ctrl_map n')"
proof -
  let ?n1 = "n\<lparr>n_sq := (n_sq n)[unat qid := (n_sq n ! unat qid)\<lparr>sq_head :=
    ucast ((ucast (sq_head (n_sq n ! unat qid)) + 1 :: u32) mod sq_size (n_sq n ! unat qid))\<rparr>]\<rparr>"
  have inv: "ctrl_inv ?n1" "n_csts ?n1 = 1"
    using ctrl_inv_sq_head [OF live] sq_liveD(3) [OF live] by simp_all
  have ex: "kv_step vfu (ctrl_map n) [(qid, sqe, h1)] (ctrl_map n2)"
    if "nvme_exec vfu qid ?n1 sqe h1 = Inr (st, c, n2, h2)" for sqe h1 st c n2 h2
    using nvme_exec_step [OF inv that] by simp
  have "kv_step vfu (ctrl_map n) [(qid, sqe, h1)] (ctrl_map n3)"
    if "nvme_exec vfu qid ?n1 sqe h1 = Inr (st, c, n2, h2)"
      "nvme_post_cqe vfu n2 cqid sqid hd0 cid cdw0 st2 h2 = Inr (n3, h3)"
    for sqe h1 st c n2 cqid sqid hd0 cid cdw0 st2 h2 n3 h3
    using ex [OF that(1)] ctrl_map_ns [OF nvme_post_cqe_map [OF that(2)]] by simp
  with ex show ?thesis
    using one f by (auto simp: nvme_process_one_def nvme_fetch_def Let_def split_def split: if_splits sum.splits)
qed

lemma sq_run_sim:
  assumes "sq_run vfu qid s cs s'" and "sq_live qid (fst s)"
  shows "lruns (kv_step vfu) (ctrl_map (fst s)) (map (Pair qid) cs) (ctrl_map (fst s'))"
  using assms
proof (induction rule: sq_run.induct)
  case (fault s s')
  have "fst s' = fst s"
    by (rule nvme_process_one_live [OF fault(3), of vfu "snd s"]) (use fault(2) in auto)
  then show ?case by (simp add: lruns.start)
next
  case (ran s c s1 cs s')
  have live: "sq_live qid (fst s1)" using sq.step_inv [of qid s vfu] ran by blast
  have "kv_step vfu (ctrl_map (fst s)) [(qid, c)] (ctrl_map (fst s1))"
    using nvme_process_one_step [of qid "fst s" vfu "snd s" "fst s1" "snd s1" c] ran by simp
  from lruns_trans [OF ran.IH [OF live] lruns_step [of "kv_step vfu", OF this]] show ?case by simp
qed (simp add: lruns.start)

text \<open>Register writes and doorbells of completion queues do not touch the namespace.\<close>

lemma nvme_cc_write_ns [simp]: "n_ns (nvme_cc_write n v) = n_ns n"
  by (simp add: nvme_cc_write_def nvme_enable_def nvme_disable_def nvme_queues_down_def Let_def)

lemma nvme_reg_write_ns: "nvme_reg_write n offset buf = Inr n' \<Longrightarrow> n_ns n' = n_ns n"
  by (auto simp: nvme_reg_write_def split: sum.splits if_splits)

text \<open>An access that rings no submission queue leaves the namespace alone.\<close>

lemma nvme_bar0_access_quiet:
  assumes "nvme_bar0_access vfu n buf offset w h = Some (Inr (ret, buf', n', h'))"
    and "rung_queue n offset w = None" and "ctrl_inv n"
  shows "n_ns n' = n_ns n"
proof -
  have len: "length (n_sq n) = 64" using ctrl_invD(1) [OF assms(3)] .
  show ?thesis
    using assms(1,2) len nvme_reg_write_ns [of n offset buf]
    by (auto simp: nvme_bar0_access_def rung_queue_def Let_def nvme_process_sq_def
        split: if_splits sum.splits option.splits)
qed

interpretation device_map: simulation "device_step vfu" device_init "\<lambda>s. ctrl_inv (fst s)" "device_event vfu"
    "kv_step vfu" "\<lambda>s. ctrl_map (fst s)"
  for vfu :: "'sg vfu_ctx"
proof
  show "lruns (kv_step vfu) (ctrl_map (fst s)) es (ctrl_map (fst s'))"
    if inv: "ctrl_inv (fst s)" and event: "device_event vfu s es s'" for s es s'
    using event
  proof cases
    case (quiet n buf offset w h ret buf' n' h')
    have "n_ns n' = n_ns n" by (rule nvme_bar0_access_quiet [OF quiet(4,5)]) (use inv quiet(1) in simp)
    then have "ctrl_map n' = ctrl_map n" by (rule ctrl_map_ns)
    then show ?thesis by (simp add: quiet(1-3) lruns.start)
  next
    case (doorbell n buf offset w h ret buf' n' h' qid v cs)
    then have inv': "ctrl_inv n" using inv by simp
    obtain "unat qid < 64" "sq_enabled (n_sq n ! unat qid)"
      by (rule nvme_bar0_access_rung [OF doorbell(4,5) inv'])
    then have "sq_live qid (n\<lparr>n_sq := (n_sq n)[unat qid := (n_sq n ! unat qid)\<lparr>sq_tail := ucast (ucast v :: u32)\<rparr>]\<rparr>)"
      using ctrl_inv_doorbell(2) [OF inv'] ctrl_invD(1) [OF inv'] by (simp add: sq_live_def)
    from sq_run_sim [OF doorbell(7)] this show ?thesis by (simp add: doorbell(1-3))
  next
    case (msix n buf offset w ret buf' n' h)
    then have "n_ns n' = n_ns n" by (auto simp: nvme_msix_access_def Let_def split: if_splits)
    then have "ctrl_map n' = ctrl_map n" by (rule ctrl_map_ns)
    then show ?thesis by (simp add: msix(1-3) lruns.start)
  next
    case (reset n ret n' h)
    then have "n_ns n' = n_ns n"
      by (auto simp: nvme_reset_cb_def nvme_ctrl_reset_def nvme_disable_def nvme_queues_down_def Let_def)
    then have "ctrl_map n' = ctrl_map n" by (rule ctrl_map_ns)
    then show ?thesis by (simp add: reset(1-3) lruns.start)
  next
    case (guest n h h')
    then show ?thesis by (simp add: lruns.start)
  qed
qed

lemmas device_run_sim = device_map.runs_sim [folded device_run_def kv_run_def]
  and machine_runs_inv = machine.runs_inv [folded kv_run_def]

text \<open>A new device stands for the empty map.\<close>

lemma device_init_map:
  assumes "device_init s"
  shows "kv_abs (n_ns (fst s)) = Map.empty" and "map_ok (ctrl_map (fst s))"
proof -
  show *: "kv_abs (n_ns (fst s)) = Map.empty"
    using assms nvme_ctrl_init_inv(2) by (cases s) (auto simp: device_init_def)
  show "map_ok (ctrl_map (fst s))"
    by (rule machine.init_inv) (simp add: ctrl_map_def *)
qed

end
