(* ===== verification/Durability.thy ===== *)
theory Durability
  imports MapMachine
begin

text \<open>
  Which commands can change the value under a key: stores and deletes on an I/O queue that name it.
  The frame is a fact about the abstract machine; the simulation carries it to the device.
\<close>

definition writes_key :: "bytes \<Rightarrow> command \<Rightarrow> bool" where
  "writes_key k = (\<lambda>(qid, sqe, h). qid \<noteq> 0 \<and> cmd_key (kvcmd_of_sqe sqe) = k \<and>
     (sqe_opcode sqe = NVME_CMD_KV_STORE \<or> sqe_opcode sqe = NVME_CMD_KV_DELETE))"

lemma spec_store_frame:
  "spec_store dma cmd mx full m s = (st, m', s') \<Longrightarrow> k \<noteq> cmd_key cmd \<Longrightarrow> m' k = m k"
  by (auto simp: spec_store_def Let_def split_def split: if_splits option.splits)

lemma spec_delete_frame: "spec_delete cmd e m = (st, m') \<Longrightarrow> k \<noteq> cmd_key cmd \<Longrightarrow> m' k = m k"
  by (auto simp: spec_delete_def split: if_splits)

lemma kv_step_frame:
  "kv_step vfu a es a' \<Longrightarrow> \<forall>e \<in> set es. \<not> writes_key k e \<Longrightarrow> snd a' k = snd a k"
  by (induction rule: kv_step.induct) (auto simp: writes_key_def intro: spec_store_frame spec_delete_frame)

lemma kv_run_frame:
  assumes "kv_run vfu a es a'" and "\<forall>e \<in> set es. \<not> writes_key k e"
  shows "snd a' k = snd a k"
  using assms unfolding kv_run_def
proof (induction rule: lruns.induct)
  case (more es b fs c)
  then show ?case using kv_step_frame [OF more(2), of k] by simp
qed simp

lemma device_run_frame:
  assumes "device_run vfu s0 es s" and "ctrl_inv (fst s0)" and "\<forall>e \<in> set es. \<not> writes_key k e"
  shows "kv_abs (n_ns (fst s)) k = kv_abs (n_ns (fst s0)) k"
  using kv_run_frame [OF device_run_sim [OF assms(1,2)] assms(3)] by (simp add: ctrl_map_def)

end
