(* ===== verification/Driver.thy ===== *)
theory Driver
  imports Durability KvProperties
begin

text \<open>
  The device as a host driver sees it, along \<^verbatim>\<open>tests/client_harness.c\<close>: register and doorbell
  accesses of four or eight bytes, the admin and I/O queue pairs in guest memory, completions read
  back from guest memory. The socket between client and device is libvfio-user; an access of the
  client is the call of \<open>nvme_bar0_access\<close> that the library makes for it. The lemmas compose the
  components: from a doorbell write through fetch, execution and completion to what the host
  finds in its memory.
\<close>

section \<open>Accesses of the client\<close>

definition reg_wr32 :: "'sg vfu_ctx \<Rightarrow> nat \<Rightarrow> u32 \<Rightarrow> nvme_ctrl \<times> host \<Rightarrow> (nvme_ctrl \<times> host) option" where
  "reg_wr32 vfu off v = (\<lambda>(n, h).
     case nvme_bar0_access vfu n (le_enc 4 v) off True h of
       Some (Inr (ret, buf, n', h')) \<Rightarrow> Some (n', h')
     | _ \<Rightarrow> None)"

definition reg_wr64 :: "'sg vfu_ctx \<Rightarrow> nat \<Rightarrow> u64 \<Rightarrow> nvme_ctrl \<times> host \<Rightarrow> (nvme_ctrl \<times> host) option" where
  "reg_wr64 vfu off v = (\<lambda>(n, h).
     case nvme_bar0_access vfu n (le_enc 8 v) off True h of
       Some (Inr (ret, buf, n', h')) \<Rightarrow> Some (n', h')
     | _ \<Rightarrow> None)"

definition reg_rd32 :: "'sg vfu_ctx \<Rightarrow> nat \<Rightarrow> nvme_ctrl \<times> host \<Rightarrow> u32 option" where
  "reg_rd32 vfu off = (\<lambda>(n, h).
     case nvme_bar0_access vfu n (replicate 4 0) off False h of
       Some (Inr (ret, buf, n', h')) \<Rightarrow> Some (le_dec buf)
     | _ \<Rightarrow> None)"

text \<open>The test of a completion: phase bit set, status zero, the expected command identifier.\<close>

definition check_cqe :: "NvmeCqe \<Rightarrow> u16 \<Rightarrow> bool" where
  "check_cqe cqe expect_cid \<longleftrightarrow>
     cqe_status cqe AND 1 = 1 \<and> drop_bit 1 (cqe_status cqe) = 0 \<and> cqe_cid cqe = expect_cid"

section \<open>Mapped guest memory\<close>

text \<open>
  The client maps its memory as one DMA region that starts at address 0 and has \<open>lim\<close> bytes
  (\<open>map_dma\<close>): a request inside it is served by one segment, for reading and for writing, and
  segments of the region can be mapped.
\<close>

definition region_seg :: "nat \<Rightarrow> 'sg vfu_ctx \<Rightarrow> 'sg \<Rightarrow> bool" where
  "region_seg lim vfu g \<longleftrightarrow> (\<exists>a n m w. unat a + n \<le> lim \<and> vfu_addr_to_sgl vfu a n m w = Some [g])"

definition vfu_mapped :: "nat \<Rightarrow> 'sg vfu_ctx \<Rightarrow> bool" where
  "vfu_mapped lim vfu \<longleftrightarrow> lim \<le> 2 ^ 64 \<and>
     (\<forall>a n m w. 0 < n \<longrightarrow> 0 < m \<longrightarrow> unat a + n \<le> lim \<longrightarrow> (\<exists>g. vfu_addr_to_sgl vfu a n m w = Some [g])) \<and>
     (\<forall>gs. list_all (region_seg lim vfu) gs \<longrightarrow> vfu_sgl_get vfu gs \<noteq> None)"

lemma vfu_mapped_seg:
  assumes "vfu_mapped lim vfu" and "0 < n" and "0 < m" and "unat a + n \<le> lim"
  obtains g where "vfu_addr_to_sgl vfu a n m w = Some [g]" "region_seg lim vfu g"
proof -
  have "\<exists>g. vfu_addr_to_sgl vfu a n m w = Some [g]"
    using assms unfolding vfu_mapped_def by blast
  then obtain g where g: "vfu_addr_to_sgl vfu a n m w = Some [g]" by blast
  then have "region_seg lim vfu g" using assms(4) unfolding region_seg_def by blast
  with that g show ?thesis by blast
qed

lemma vfu_mapped_get:
  assumes "vfu_mapped lim vfu" and "list_all (region_seg lim vfu) gs"
  obtains iov where "vfu_sgl_get vfu gs = Some iov"
  using assms unfolding vfu_mapped_def by blast

lemma vfu_mapped_gpa:
  assumes ok: "vfu_ok vfu tr" and m: "vfu_mapped lim vfu" and hp: "heap_ok h"
    and len: "0 < len" and fits: "unat a + len \<le> lim"
  shows "fst (nvme_gpa_xfer vfu a buf len w h) = 0"
proof -
  obtain g where g: "vfu_addr_to_sgl vfu a len 8 w = Some [g]" "region_seg lim vfu g"
    by (rule vfu_mapped_seg [OF m len _ fits, of 8]) simp
  obtain iov where "vfu_sgl_get vfu [g] = Some iov"
    by (rule vfu_mapped_get [OF m, of "[g]"]) (simp add: g)
  then show ?thesis
    using nvme_gpa_xfer_rc [OF ok heap_ok_alloc_fst [OF hp] len g(1)] by simp
qed

lemma id_vfu_mapped: "lim \<le> 2 ^ 64 \<Longrightarrow> vfu_mapped lim id_vfu"
  by (simp add: vfu_mapped_def id_vfu_def)

text \<open>The two extents of a PRP transfer lie in the region.\<close>

definition prp_fits :: "nat \<Rightarrow> u64 \<Rightarrow> u64 \<Rightarrow> nat \<Rightarrow> bool" where
  "prp_fits lim p1 p2 len \<longleftrightarrow> unat p1 + prp_first p1 len \<le> lim \<and>
     (prp_first p1 len < len \<longrightarrow> unat p2 + (len - prp_first p1 len) \<le> lim)"

lemma vfu_mapped_prp:
  assumes ok: "vfu_ok vfu tr" and m: "vfu_mapped lim vfu" and hp: "heap_ok h" and len: "len \<le> 4096"
    and fits: "prp_fits lim p1 p2 len"
  shows "fst (nvme_prp_xfer vfu p1 p2 buf len w h) = 0"
proof (cases "len = 0")
  case False
  let ?f = "prp_first p1 len"
  have f: "0 < ?f" using False word_and_le1 [of p1 4095]
    by (simp add: prp_first_def word_le_nat_alt)
  have fl: "unat p1 + ?f \<le> lim" using fits by (simp add: prp_fits_def)
  obtain g where g: "vfu_addr_to_sgl vfu p1 ?f 16 w = Some [g]" and seg: "region_seg lim vfu g"
    by (rule vfu_mapped_seg [OF m f _ fl, of 16]) simp
  have copy: "fst (nvme_sgl_copy vfu gs buf len w h') = 0"
    if gs: "gs \<noteq> []" "length gs \<le> 16" "sgl_covers vfu gs as" "length as = len" "list_all (region_seg lim vfu) gs"
    for gs as h'
  proof -
    obtain iov where "vfu_sgl_get vfu gs = Some iov" by (rule vfu_mapped_get [OF m gs(5)])
    then show ?thesis using gs(3,4) nvme_sgl_copy_rc [OF gs(1,2)] by (simp add: sgl_covers_def)
  qed
  show ?thesis
  proof (cases "len - ?f = 0")
    case True
    then have "?f = len" using prp_first_le [of p1 len] by simp
    then show ?thesis
      using g seg heap_ok_alloc_fst [OF hp] False copy [OF _ _ vfu_ok_covers(1) [OF ok g]]
      by (simp add: nvme_prp_xfer_def split_def)
  next
    case rest: False
    then have "0 < len - ?f" "unat p2 + (len - ?f) \<le> lim" using fits by (simp_all add: prp_fits_def)
    then obtain g2 where g2: "vfu_addr_to_sgl vfu p2 (len - ?f) 15 w = Some [g2]" "region_seg lim vfu g2"
      by (rule vfu_mapped_seg [OF m _ zero_less_numeral])
    then show ?thesis
      using g seg rest heap_ok_alloc_fst [OF hp] False len copy [OF _ _ vfu_ok_covers(3) [OF ok g g2(1)]]
      by (simp add: nvme_prp_xfer_def split_def Let_def)
  qed
qed (simp add: nvme_prp_xfer_def)

text \<open>The slots of a ring that lies in the region.\<close>

lemma ring_slot_unat:
  assumes "unat (base :: u64) + sz * unat n \<le> 2 ^ 64" and "unat (i :: u16) < unat (n :: u32)" and "0 < sz"
  shows "unat (base + ucast i * of_nat sz) = unat base + sz * unat i"
proof -
  have "sz * Suc (unat i) \<le> sz * unat n" using assms(2) by (intro mult_le_mono2) simp
  then have b: "unat base + sz * unat i < 2 ^ 64" using assms(1,3) by simp
  have u: "unat (ucast i :: u64) = unat i" by (rule unat_ucast_up) simp
  have "ucast i * of_nat sz = (of_nat (sz * unat i) :: u64)"
    by (simp add: mult.commute flip: u)
  moreover have "unat (of_nat (sz * unat i) :: u64) = sz * unat i" using b by (simp add: unsigned_of_nat take_bit_nat_eq_self del: of_nat_mult)
  ultimately have "unat (ucast i * of_nat sz :: u64) = sz * unat i" by (simp only:)
  then show ?thesis using b by (simp add: unat_word_ariths(1))
qed

definition sq_fits :: "nat \<Rightarrow> nvme_sq \<Rightarrow> bool" where
  "sq_fits lim sq \<longleftrightarrow> unat (sq_dma sq) + 64 * unat (sq_size sq) \<le> lim"

definition cq_fits :: "nat \<Rightarrow> nvme_cq \<Rightarrow> bool" where
  "cq_fits lim cq \<longleftrightarrow> unat (cq_dma cq) + 16 * unat (cq_size cq) \<le> lim"

lemma vfu_mapped_ring:
  assumes ok: "vfu_ok vfu tr" and m: "vfu_mapped lim vfu" and fits: "sq_fits lim sq"
  shows "ring_mapped vfu sq"
proof -
  have "fetchable vfu (sq_dma sq + ucast i * 64)" if i: "unat i < unat (sq_size sq)" for i :: u16
  proof -
    have lim: "lim \<le> 2 ^ 64" using m by (simp add: vfu_mapped_def)
    have "64 * Suc (unat i) \<le> 64 * unat (sq_size sq)" using i by (intro mult_le_mono2) simp
    then have "unat (sq_dma sq + ucast i * 64) + 64 \<le> lim"
      using ring_slot_unat [of "sq_dma sq" 64 "sq_size sq" i] i fits lim by (simp add: sq_fits_def)
    then obtain g where g: "vfu_addr_to_sgl vfu (sq_dma sq + ucast i * 64) 64 8 False = Some [g]" "region_seg lim vfu g"
      by (rule vfu_mapped_seg [OF m zero_less_numeral zero_less_numeral])
    obtain iov where iov: "vfu_sgl_get vfu [g] = Some iov"
      by (rule vfu_mapped_get [OF m, of "[g]"]) (simp add: g)
    then have "length (iov_addrs iov) = 64"
      using vfu_ok_covers(1) [OF ok g(1)] by (simp add: sgl_covers_def)
    then show ?thesis using g iov by (simp add: fetchable_def)
  qed
  then show ?thesis by (simp add: ring_mapped_def)
qed

lemma cq_slot_fits:
  assumes "vfu_mapped lim vfu" and "cq_fits lim cq" and "cq_wf cq" and "cq_enabled cq"
  shows "unat (cq_dma cq + ucast (cq_tail cq) * 16) + 16 \<le> lim"
proof -
  have i: "unat (cq_tail cq) < unat (cq_size cq)" using assms(3,4) by (simp add: cq_wf_def)
  have "16 * Suc (unat (cq_tail cq)) \<le> 16 * unat (cq_size cq)" using i by (intro mult_le_mono2) simp
  then show ?thesis
    using ring_slot_unat [of "cq_dma cq" 16 "cq_size cq" "cq_tail cq"] i assms(1,2)
    by (simp add: cq_fits_def vfu_mapped_def)
qed

section \<open>Ringing a doorbell\<close>

text \<open>A write of a submission doorbell is the tail update followed by \<open>nvme_process_sq\<close>.\<close>

lemma reg_wr32_doorbell:
  assumes "unat (qid :: u16) < 64"
  shows "reg_wr32 vfu (0x1000 + 8 * unat qid) v (n, h) =
    (case nvme_process_sq vfu qid
        (n\<lparr>n_sq := (n_sq n)[unat qid := (n_sq n ! unat qid)\<lparr>sq_tail := ucast v\<rparr>]\<rparr>) h of
      Some (Inr s) \<Rightarrow> Some s | _ \<Rightarrow> None)"
proof -
  have rd: "rd_le (le_enc 4 v) = Inr (ucast v)"
    by (simp add: rd_le_eq le_dec_enc_ucast take_bit_word_eq_self)
  have v: "ucast (ucast v :: u64) = v" by (rule bit_word_eqI) (simp add: bit_simps)
  have idx: "(8 * unat qid) div 4 = 2 * unat qid" "word_of_nat (unat qid) = qid" by simp_all
  show ?thesis
    using assms
    by (auto simp: reg_wr32_def nvme_bar0_access_def rd v idx Let_def split: option.splits sum.splits)
qed

text \<open>One new entry: the engine executes exactly that entry.\<close>

lemma submit_one:
  assumes ok: "vfu_ok vfu tr" and m: "vfu_mapped lim vfu" and hp: "heap_ok h" and live: "sq_live qid n"
    and sq: "sq = n_sq n ! unat qid" "2 \<le> unat (sq_size sq)" "sq_fits lim sq"
    and tail: "tail = ucast ((ucast (sq_head sq) + 1 :: u32) mod sq_size sq)"
    and nt: "nt = n\<lparr>n_sq := (n_sq n)[unat qid := sq\<lparr>sq_tail := tail\<rparr>]\<rparr>"
  obtains n' h' where "reg_wr32 vfu (0x1000 + 8 * unat qid) (ucast tail) (n, h) = Some (n', h')"
    "nvme_process_one vfu qid (nt, h) = Inr (True, n', h')" "sq_live qid nt"
    "n_sq nt ! unat qid = sq\<lparr>sq_tail := tail\<rparr>" "sq_live qid n'" "heap_ok h'"
    "n_sq n' ! unat qid = sq\<lparr>sq_tail := tail, sq_head := tail\<rparr>"
proof -
  note D = sq_liveD [OF live]
  have nq: "n_sq nt ! unat qid = sq\<lparr>sq_tail := tail\<rparr>"
    using ctrl_invD(1) [OF D(1)] D(2) by (simp add: nt)
  have lt: "sq_live qid nt"
    using D ctrl_inv_doorbell(2) [OF D(1,2), of tail] nq by (simp add: sq_live_def nt sq(1))
  have wf: "unat (sq_head sq) < unat (sq_size sq)" "unat (sq_size sq) \<le> 65536"
    using D(4,5) by (simp_all add: sq_wf_def sq(1))
  have t: "unat tail = Suc (unat (sq_head sq)) mod unat (sq_size sq)"
    unfolding tail by (rule sq_head_next) (use sq(2) wf in simp_all)
  then have tl: "unat tail < unat (sq_size sq)" using sq(2) by simp
  have "unat (sq_head sq) \<noteq> unat tail" using t wf(1) sq(2) by (auto simp: mod_if split: if_splits)
  then have rd: "ring_dist (unat (sq_size sq)) (unat (sq_head sq)) (unat tail) = 1"
    using ring_dist_Suc [OF wf(1) tl] t ring_dist_0 [OF tl tl] by simp
  obtain n' h' where one: "nvme_process_one vfu qid (nt, h) = Inr (True, n', h')" "sq_live qid n'" "heap_ok h'"
      "n_sq n' ! unat qid = (n_sq nt ! unat qid)\<lparr>sq_head :=
        ucast ((ucast (sq_head (n_sq nt ! unat qid)) + 1 :: u32) mod sq_size (n_sq nt ! unat qid))\<rparr>"
    by (rule nvme_process_one_fetched [OF lt hp vfu_mapped_ring [OF ok m, of "n_sq nt ! unat qid"]])
      (use sq(3) in \<open>simp_all add: nq sq_fits_def\<close>)
  have "nvme_process_sq_loop vfu qid (nt, h) = Some (Inr (n', h'))"
    using sq.loop_runs [of qid "(nt, h)" vfu] lt nq rd tl one(1) by simp
  then have "nvme_process_sq vfu qid nt h = Some (Inr (n', h'))"
    using sq_liveD(2,5) [OF lt] by (simp add: nvme_process_sq_def)
  moreover have "ucast (ucast tail :: u32) = tail" by (rule bit_word_eqI) (simp add: bit_simps)
  ultimately have "reg_wr32 vfu (0x1000 + 8 * unat qid) (ucast tail) (n, h) = Some (n', h')"
    using D(2) by (simp add: reg_wr32_doorbell nt sq(1))
  then show ?thesis using that [of n' h'] one lt nq by (simp add: tail)
qed

section \<open>A KV command\<close>

text \<open>
  A KV command placed in the next slot of an I/O queue and its doorbell: the command is executed on
  the guest memory of that moment, and its completion is written to the next slot of the
  completion queue.
\<close>

lemma submit_io:
  assumes ok: "vfu_ok vfu tr" and m: "vfu_mapped lim vfu" and hp: "heap_ok h" and live: "sq_live qid n"
    and io: "qid \<noteq> 0" and sq: "sq = n_sq n ! unat qid" "2 \<le> unat (sq_size sq)" "sq_fits lim sq"
    and tail: "tail = ucast ((ucast (sq_head sq) + 1 :: u32) mod sq_size sq)"
    and slot: "slot = sq_dma sq + ucast (sq_head sq) * 64"
    and sqe: "encode_sqe sqe = map (\<lambda>a. hmem h (tr a)) [unat slot..<unat slot + 64]"
    and cq: "cq = n_cq n ! unat (sq_cqid sq)" "cq_enabled cq" "0 \<le> cq_irq cq" "cq_fits lim cq"
    and cslot: "cslot = cq_dma cq + ucast (cq_tail cq) * 16"
    and n1: "n1 = n\<lparr>n_sq := (n_sq n)[unat qid := sq\<lparr>sq_tail := tail, sq_head := tail\<rparr>]\<rparr>"
  obtains n' h' st ns' h1 h2 where
    "reg_wr32 vfu (0x1000 + 8 * unat qid) (ucast tail) (n, h) = Some (n', h')" "sq_live qid n'" "heap_ok h'"
    "nvme_io_kv vfu n1 sqe h1 = Inr (st, n1\<lparr>n_ns := ns'\<rparr>, h2)" "hmem h1 = hmem h" "heap_ok h1"
    "n' = n1\<lparr>n_ns := ns', n_cq := (n_cq n)[unat (sq_cqid sq) := cq_advance cq]\<rparr>" "ctrl_inv n1"
    "hmem h' = mem_writes (hmem h2) (map tr [unat cslot..<unat cslot + 16])
      (encode_cqe \<lparr>cqe_cdw0 = 0, cqe_cdw1 = 0, cqe_sq_head = tail, cqe_sq_id = qid, cqe_cid = sqe_cid sqe,
       cqe_status = push_bit 1 st OR ucast (cq_phase cq AND 1)\<rparr>)"
proof -
  define nt where "nt = n\<lparr>n_sq := (n_sq n)[unat qid := sq\<lparr>sq_tail := tail\<rparr>]\<rparr>"
  obtain n' h' where w: "reg_wr32 vfu (0x1000 + 8 * unat qid) (ucast tail) (n, h) = Some (n', h')"
    and one: "nvme_process_one vfu qid (nt, h) = Inr (True, n', h')" "sq_live qid nt"
      "n_sq nt ! unat qid = sq\<lparr>sq_tail := tail\<rparr>" "sq_live qid n'" "heap_ok h'"
    by (rule submit_one [OF ok m hp live sq tail nt_def])
  let ?sq = "sq\<lparr>sq_tail := tail\<rparr>"
  have n1': "n1 = nt\<lparr>n_sq := (n_sq nt)[unat qid := ?sq\<lparr>sq_head := ucast ((ucast (sq_head ?sq) + 1 :: u32) mod sq_size ?sq)\<rparr>]\<rparr>"
    by (simp add: n1 nt_def tail)
  have slot': "slot = sq_dma ?sq + ucast (sq_head ?sq) * 64" by (simp add: slot)
  have cq': "cq = n_cq nt ! unat (sq_cqid ?sq)" by (simp add: cq(1) nt_def)
  obtain sqe' st ns' h1 h2 where r:
    "encode_sqe sqe' = map (\<lambda>a. hmem h (tr a)) [unat slot..<unat slot + 64]" "hmem h1 = hmem h"
    "nvme_io_kv vfu n1 sqe' h1 = Inr (st, n1\<lparr>n_ns := ns'\<rparr>, h2)"
    "n' = n1\<lparr>n_ns := ns', n_cq := (n_cq nt)[unat (sq_cqid ?sq) := cq_advance cq]\<rparr>" "heap_ok h \<longrightarrow> heap_ok h1"
    "nvme_post_cqe vfu (n1\<lparr>n_ns := ns'\<rparr>) (sq_cqid ?sq) qid
       (ucast ((ucast (sq_head ?sq) + 1 :: u32) mod sq_size ?sq)) (sqe_cid sqe') 0 st h2 = Inr (n', h')"
    by (rule nvme_process_one_io [OF ok one(2) io one(3) [symmetric] slot' cq' cq(2,3) one(1) n1'])
  have sqe': "sqe' = sqe" using r(1) sqe decode_encode_sqe by metis
  have inv1: "ctrl_inv n1" using ctrl_inv_sq_head [OF one(2)] by (simp add: n1' one(3))
  have h2: "heap_ok h2" using heap.io_kv [OF _ inv1 r(3)] r(5) hp by simp
  have cqid: "unat (sq_cqid sq) < 64" using sq_liveD(4,5) [OF live] by (simp add: sq_wf_def sq(1))
  have "cq_wf cq" using ctrl_invD(2,5) [OF sq_liveD(1) [OF live]] cqid by (simp add: cq(1) list_all_length)
  then have fits: "unat cslot + 16 \<le> lim" unfolding cslot by (rule cq_slot_fits [OF m cq(4) _ cq(2)])
  have cqn: "cq = n_cq (n1\<lparr>n_ns := ns'\<rparr>) ! unat (sq_cqid sq)" by (simp add: n1 cq(1))
  have "hmem h' = mem_writes (hmem h2) (map tr [unat cslot..<unat cslot + 16])
      (encode_cqe \<lparr>cqe_cdw0 = 0, cqe_cdw1 = 0, cqe_sq_head = tail, cqe_sq_id = qid, cqe_cid = sqe_cid sqe,
       cqe_status = push_bit 1 st OR ucast (cq_phase cq AND 1)\<rparr>)"
    using nvme_post_cqe_memory(1) [OF ok cqid cqn cq(2,3) cslot _ r(6) [simplified]]
      vfu_mapped_gpa [OF ok m h2 _ fits] by (simp add: tail sqe')
  then show ?thesis
    using that [of n' h' h1 st ns' h2] w one r inv1 hp sqe' by (simp add: nt_def)
qed

text \<open>
  One iteration of the queue engine on the admin queue, with a command that is completed, that is,
  any but Asynchronous Event Request; then a driver that submits one such command.
\<close>

lemma step_admin:
  assumes ok: "vfu_ok vfu tr" and m: "vfu_mapped lim vfu" and hp: "heap_ok h" and live: "sq_live 0 n"
    and sq: "sq = n_sq n ! 0" "sq_fits lim sq" "sq_cqid sq = 0"
    and nxt: "nxt = ucast ((ucast (sq_head sq) + 1 :: u32) mod sq_size sq)"
    and slot: "slot = sq_dma sq + ucast (sq_head sq) * 64"
    and sqe: "encode_sqe sqe = map (\<lambda>a. hmem h (tr a)) [unat slot..<unat slot + 64]"
    and opc: "sqe_opcode sqe \<noteq> NVME_ADM_ASYNC_EVENT"
    and cq: "cq = n_cq n ! 0" "cq_enabled cq" "0 \<le> cq_irq cq" "cq_fits lim cq"
    and cslot: "cslot = cq_dma cq + ucast (cq_tail cq) * 16"
    and n1: "n1 = n\<lparr>n_sq := (n_sq n)[0 := sq\<lparr>sq_head := nxt\<rparr>]\<rparr>"
  obtains n' h' st c n2 h1 h2 where
    "nvme_process_one vfu 0 (n, h) = Inr (True, n', h')" "heap_ok h'" "ctrl_inv n'"
    "nvme_admin_cmd vfu n1 sqe h1 = Inr (st, c, n2, h2)" "hmem h1 = hmem h" "heap_ok h1"
    "n' = n2\<lparr>n_cq := (n_cq n2)[0 := cq_advance cq]\<rparr>" "ctrl_inv n1" "ctrl_inv n2" "admin_frame n1 n2"
    "hmem h' = mem_writes (hmem h2) (map tr [unat cslot..<unat cslot + 16])
      (encode_cqe \<lparr>cqe_cdw0 = c, cqe_cdw1 = 0, cqe_sq_head = nxt, cqe_sq_id = 0, cqe_cid = sqe_cid sqe,
       cqe_status = push_bit 1 st OR ucast (cq_phase cq AND 1)\<rparr>)"
proof -
  have sq0: "sq = n_sq n ! unat (0 :: u16)" using sq(1) by simp
  obtain n' h' where one: "nvme_process_one vfu 0 (n, h) = Inr (True, n', h')" "sq_live 0 n'" "heap_ok h'"
    by (rule nvme_process_one_fetched [OF live hp vfu_mapped_ring [OF ok m, of "n_sq n ! unat (0 :: u16)"]])
      (use sq(2) in \<open>simp_all add: sq0\<close>)
  let ?sq1 = "sq\<lparr>sq_head := ucast ((ucast (sq_head sq) + 1 :: u32) mod sq_size sq)\<rparr>"
  have n1': "n1 = n\<lparr>n_sq := (n_sq n)[unat (0 :: u16) := ?sq1]\<rparr>" by (simp add: n1 nxt)
  obtain sqe' st c n2 h1 h2 where e:
    "encode_sqe sqe' = map (\<lambda>a. hmem h (tr a)) [unat slot..<unat slot + 64]"
    "hmem h1 = hmem h" "heap_ok h \<longrightarrow> heap_ok h1" "nvme_exec vfu 0 n1 sqe' h1 = Inr (st, c, n2, h2)" "ctrl_inv n1"
    "st = NVME_NO_COMPLETE \<and> n' = n2 \<and> h' = h2 \<or> st \<noteq> NVME_NO_COMPLETE \<and>
     nvme_post_cqe vfu n2 (sq_cqid sq) 0 (sq_head ?sq1) (sqe_cid sqe') c st h2 = Inr (n', h')"
    by (rule nvme_process_one_exec [OF ok live sq0 slot one(1) refl n1'])
  have sqe': "sqe' = sqe" using e(1) sqe decode_encode_sqe by metis
  have ex: "nvme_admin_cmd vfu n1 sqe h1 = Inr (st, c, n2, h2)" using e(4) by (simp add: nvme_exec_def sqe')
  have rdy: "n_csts n1 = 1" using sq_liveD(3) [OF live] by (simp add: n1)
  have fr: "ctrl_inv n2" "admin_frame n1 n2" "st \<noteq> NVME_NO_COMPLETE"
    using nvme_admin_cmd_inv [OF e(5) rdy, of vfu sqe h1] ex opc by (metis Inr_inject Pair_inject)+
  have cq2: "cq = n_cq n2 ! unat (0 :: u16)" using fr(2) by (simp add: admin_frame_def n1 cq(1))
  have post: "nvme_post_cqe vfu n2 0 0 nxt (sqe_cid sqe) c st h2 = Inr (n', h')"
    using e(6) fr(3) by (simp add: sqe' sq(3) nxt)
  have hp2: "heap_ok h2" using heap.exec [OF _ e(5) e(4)] e(3) hp by simp
  have "cq_wf cq" using ctrl_invD(2,5) [OF sq_liveD(1) [OF live]] by (simp add: cq(1) list_all_length)
  then have fits: "unat cslot + 16 \<le> lim" unfolding cslot by (rule cq_slot_fits [OF m cq(4) _ cq(2)])
  have z: "unat (0 :: u16) < 64" by simp
  note mem = nvme_post_cqe_memory(1,2) [OF ok z cq2 cq(2,3) cslot vfu_mapped_gpa [OF ok m hp2 zero_less_numeral fits] post]
  show ?thesis
    using that [of n' h' h1 st c n2 h2] one sq_liveD(1) [OF one(2)] ex e(2,3,5) hp fr(1,2) mem by simp
qed

lemma submit_admin:
  assumes ok: "vfu_ok vfu tr" and m: "vfu_mapped lim vfu" and hp: "heap_ok h" and live: "sq_live 0 n"
    and sq: "sq = n_sq n ! 0" "2 \<le> unat (sq_size sq)" "sq_fits lim sq" "sq_cqid sq = 0"
    and tail: "tail = ucast ((ucast (sq_head sq) + 1 :: u32) mod sq_size sq)"
    and slot: "slot = sq_dma sq + ucast (sq_head sq) * 64"
    and sqe: "encode_sqe sqe = map (\<lambda>a. hmem h (tr a)) [unat slot..<unat slot + 64]"
    and opc: "sqe_opcode sqe \<noteq> NVME_ADM_ASYNC_EVENT"
    and cq: "cq = n_cq n ! 0" "cq_enabled cq" "0 \<le> cq_irq cq" "cq_fits lim cq"
    and cslot: "cslot = cq_dma cq + ucast (cq_tail cq) * 16"
    and n1: "n1 = n\<lparr>n_sq := (n_sq n)[0 := sq\<lparr>sq_tail := tail, sq_head := tail\<rparr>]\<rparr>"
  obtains n' h' st c n2 h1 h2 where
    "reg_wr32 vfu 0x1000 (ucast tail) (n, h) = Some (n', h')" "heap_ok h'" "ctrl_inv n'"
    "nvme_admin_cmd vfu n1 sqe h1 = Inr (st, c, n2, h2)" "hmem h1 = hmem h" "heap_ok h1"
    "n' = n2\<lparr>n_cq := (n_cq n2)[0 := cq_advance cq]\<rparr>" "ctrl_inv n1" "ctrl_inv n2" "admin_frame n1 n2"
    "hmem h' = mem_writes (hmem h2) (map tr [unat cslot..<unat cslot + 16])
      (encode_cqe \<lparr>cqe_cdw0 = c, cqe_cdw1 = 0, cqe_sq_head = tail, cqe_sq_id = 0, cqe_cid = sqe_cid sqe,
       cqe_status = push_bit 1 st OR ucast (cq_phase cq AND 1)\<rparr>)"
proof -
  have sq0: "sq = n_sq n ! unat (0 :: u16)" using sq(1) by simp
  let ?sq = "sq\<lparr>sq_tail := tail\<rparr>"
  define nt where "nt = n\<lparr>n_sq := (n_sq n)[unat (0 :: u16) := ?sq]\<rparr>"
  obtain n' h' where w: "reg_wr32 vfu (0x1000 + 8 * unat (0 :: u16)) (ucast tail) (n, h) = Some (n', h')"
    and one: "nvme_process_one vfu 0 (nt, h) = Inr (True, n', h')" "sq_live 0 nt" "n_sq nt ! unat (0 :: u16) = ?sq"
    by (rule submit_one [OF ok m hp live sq0 sq(2,3) tail nt_def])
  have g: "?sq = n_sq nt ! 0" "sq_fits lim ?sq" "sq_cqid ?sq = 0"
    "tail = ucast ((ucast (sq_head ?sq) + 1 :: u32) mod sq_size ?sq)" "slot = sq_dma ?sq + ucast (sq_head ?sq) * 64"
    "cq = n_cq nt ! 0" "n1 = nt\<lparr>n_sq := (n_sq nt)[0 := ?sq\<lparr>sq_head := tail\<rparr>]\<rparr>"
    using one(3) sq(3,4) cq(1) tail slot by (simp_all add: sq_fits_def nt_def n1)
  show ?thesis
    by (rule step_admin [OF ok m hp one(2) g(1-5) sqe opc g(6) cq(2-4) cslot g(7)])
      (use that w one(1) in fastforce)
qed

text \<open>On mapped memory a store without options and with room succeeds, and so does a retrieve of a stored key.\<close>

lemma mapped_store:
  assumes ok: "vfu_ok vfu tr" and m: "vfu_mapped lim vfu" and hp: "heap_ok h" and inv: "kv_inv ns"
    and kl: "unat (kl (kvc_cdw11 cmd)) \<le> 16" and hbs: "unat (kvc_hbs cmd) \<le> 4096"
    and ro: "ro (kvc_cdw11 cmd) = 0" and fits: "prp_fits lim (kvc_prp1 cmd) (kvc_prp2 cmd) (unat (kvc_hbs cmd))"
    and room: "kv_abs ns (cmd_key cmd) \<noteq> None \<or> card (dom (kv_abs ns)) < unat (max_num_keys ns)"
  obtains ns' h' where "kv_store (kvdma vfu) cmd ns h = Inr (NVME_SUCCESS, ns', h')" "kv_inv ns'"
    "kv_abs ns' (cmd_key cmd) =
      Some (guest_bytes tr h cmd (unat (kvc_hbs cmd)) @ drop (unat (kvc_hbs cmd)) (old_value ns (cmd_key cmd)))"
    "hmem h' = hmem h"
proof -
  have rc: "fst (h2c (kvdma vfu) cmd v (unat (kvc_hbs cmd)) s) = 0" if "heap_ok s" for v s
    using vfu_mapped_prp [OF ok m that hbs fits] by (simp add: kvdma_def kvdma_h2c_def)
  have "fst (alloc h)" "heap_ok (snd (alloc h))"
    using heap_ok_alloc_fst [OF hp] heap.P_alloc [OF hp] by simp_all
  then have "fst (spec_store (kvdma vfu) cmd (unat (max_num_keys ns)) (kv_full ns) (kv_abs ns) h) = NVME_SUCCESS"
    using kl hbs ro room rc [OF hp] rc [of "snd (alloc h)"]
    by (auto simp: spec_store_def Let_def split_def split: option.splits)
  with kvdma.kv_store_refines [OF inv, of vfu cmd h] obtain ns' h' where
    st: "kv_store (kvdma vfu) cmd ns h = Inr (NVME_SUCCESS, ns', h')" by (auto simp: refines_def)
  with that kv_store_put [OF inv ok st] show ?thesis by simp
qed

lemma mapped_retrieve:
  assumes ok: "vfu_ok vfu tr" and m: "vfu_mapped lim vfu" and hp: "heap_ok h" and inv: "kv_inv ns"
    and kl: "unat (kl (kvc_cdw11 cmd)) \<le> 16" and v: "kv_abs ns (cmd_key cmd) = Some v"
    and fits: "prp_fits lim (kvc_prp1 cmd) (kvc_prp2 cmd) (min (unat (kvc_hbs cmd)) 4096)"
  obtains h' where "kv_retrieve (kvdma vfu) cmd ns h = (NVME_SUCCESS, h')"
    "hmem h' = mem_writes (hmem h) (map tr (prp_addrs (kvc_prp1 cmd) (kvc_prp2 cmd)
       (min (unat (kvc_hbs cmd)) 4096))) v"
proof -
  have "fst (c2h (kvdma vfu) cmd v (min (unat (kvc_hbs cmd)) 4096) h) = 0"
    using vfu_mapped_prp [OF ok m hp _ fits]
    by (simp add: kvdma_def kvdma_c2h_def split_def Let_def)
  then obtain h' where r: "kv_retrieve (kvdma vfu) cmd ns h = (NVME_SUCCESS, h')"
    using kv_retrieve_refines [OF inv, of "kvdma vfu" cmd h] kl v
    by (simp add: spec_retrieve_def Let_def split_def)
  obtain v' where "kv_abs ns (cmd_key cmd) = Some v'"
      "hmem h' = mem_writes (hmem h) (map tr (prp_addrs (kvc_prp1 cmd) (kvc_prp2 cmd)
       (min (unat (kvc_hbs cmd)) 4096))) v'"
    by (rule kv_retrieve_success [OF inv ok r])
  with v that r show ?thesis by simp
qed

section \<open>Transactions\<close>

text \<open>What a driver keeps of a queue pair: the next slots, and the doorbell value for one new command.\<close>

definition sq_slot :: "nvme_ctrl \<Rightarrow> u16 \<Rightarrow> u64" where
  "sq_slot n qid = sq_dma (n_sq n ! unat qid) + ucast (sq_head (n_sq n ! unat qid)) * 64"

definition cq_of :: "nvme_ctrl \<Rightarrow> u16 \<Rightarrow> nvme_cq" where
  "cq_of n qid = n_cq n ! unat (sq_cqid (n_sq n ! unat qid))"

definition cq_slot :: "nvme_ctrl \<Rightarrow> u16 \<Rightarrow> u64" where
  "cq_slot n qid = cq_dma (cq_of n qid) + ucast (cq_tail (cq_of n qid)) * 16"

definition next_tail :: "nvme_ctrl \<Rightarrow> u16 \<Rightarrow> u16" where
  "next_tail n qid = ucast ((ucast (sq_head (n_sq n ! unat qid)) + 1 :: u32) mod sq_size (n_sq n ! unat qid))"

definition ring :: "'sg vfu_ctx \<Rightarrow> u16 \<Rightarrow> nvme_ctrl \<times> host \<Rightarrow> (nvme_ctrl \<times> host) option" where
  "ring vfu qid s = reg_wr32 vfu (0x1000 + 8 * unat qid) (ucast (next_tail (fst s) qid)) s"

lemma ring_device_step: "ring vfu qid s = Some s' \<Longrightarrow> device_step vfu s s'"
  by (cases s) (auto simp: ring_def reg_wr32_def split: option.splits sum.splits intro: device_step.bar0)

definition guest_read :: "(nat \<Rightarrow> nat) \<Rightarrow> (nat \<Rightarrow> u8) \<Rightarrow> u64 \<Rightarrow> nat \<Rightarrow> bytes" where
  "guest_read tr mem a len = map (\<lambda>a. mem (tr a)) [unat a..<unat a + len]"

lemma guest_read_mem_writes:
  assumes "inj tr" and "length bs = len"
  shows "guest_read tr (mem_writes mem (map tr [unat a..<unat a + len]) bs) a len = bs"
proof -
  have "distinct (map tr [unat a..<unat a + len])" using assms(1) by (simp add: distinct_map inj_on_def inj_def)
  from mem_writes_read_map [OF this, of bs] show ?thesis by (simp add: guest_read_def assms(2))
qed

lemma mem_writes_guest_other:
  assumes "inj tr" and "x \<notin> {unat a..<unat a + len}"
  shows "mem_writes mem (map tr [unat (a :: u64)..<unat a + len]) bs (tr x) = mem (tr x)"
  by (rule mem_writes_other) (use assms in \<open>simp add: inj_image_mem_iff [OF assms(1)]\<close>)

text \<open>A live I/O queue of at least two entries with an enabled completion queue and an interrupt, both inside the region.\<close>

definition io_queue :: "nat \<Rightarrow> u16 \<Rightarrow> nvme_ctrl \<Rightarrow> bool" where
  "io_queue lim qid n \<longleftrightarrow> qid \<noteq> 0 \<and> sq_live qid n \<and> 2 \<le> unat (sq_size (n_sq n ! unat qid)) \<and>
     cq_enabled (cq_of n qid) \<and> 0 \<le> cq_irq (cq_of n qid) \<and>
     sq_fits lim (n_sq n ! unat qid) \<and> cq_fits lim (cq_of n qid)"

definition completed :: "nvme_ctrl \<Rightarrow> u16 \<Rightarrow> u16 \<Rightarrow> u16 \<Rightarrow> NvmeCqe" where
  "completed n qid cid st = \<lparr>cqe_cdw0 = 0, cqe_cdw1 = 0, cqe_sq_head = next_tail n qid, cqe_sq_id = qid,
     cqe_cid = cid, cqe_status = push_bit 1 st OR ucast (cq_phase (cq_of n qid) AND 1)\<rparr>"

text \<open>Both queues of the pair have moved by one slot.\<close>

definition pair_moved :: "nvme_ctrl \<Rightarrow> u16 \<Rightarrow> nvme_ctrl \<Rightarrow> bool" where
  "pair_moved n qid n' \<longleftrightarrow>
     n_sq n' ! unat qid = (n_sq n ! unat qid)\<lparr>sq_tail := next_tail n qid, sq_head := next_tail n qid\<rparr> \<and>
     cq_of n' qid = cq_advance (cq_of n qid)"

text \<open>One transaction on an I/O queue, whatever the command.\<close>

lemma ring_io:
  assumes ok: "vfu_ok vfu tr" and m: "vfu_mapped lim vfu" and inj: "inj tr" and hp: "heap_ok h"
    and q: "io_queue lim qid n" and sqe: "encode_sqe sqe = guest_read tr (hmem h) (sq_slot n qid) 64"
  obtains n' h' st ns' n1 h1 h2 where "ring vfu qid (n, h) = Some (n', h')" "io_queue lim qid n'" "heap_ok h'"
    "nvme_io_kv vfu n1 sqe h1 = Inr (st, n1\<lparr>n_ns := ns'\<rparr>, h2)" "n_ns n1 = n_ns n" "n_ns n' = ns'"
    "hmem h1 = hmem h" "heap_ok h1"
    "decode_cqe (guest_read tr (hmem h') (cq_slot n qid) 16) = completed n qid (sqe_cid sqe) st"
    "\<forall>a. a \<notin> {unat (cq_slot n qid)..<unat (cq_slot n qid) + 16} \<longrightarrow> hmem h' (tr a) = hmem h2 (tr a)" "pair_moved n qid n'"
proof -
  have q': "qid \<noteq> 0" "sq_live qid n" "2 \<le> unat (sq_size (n_sq n ! unat qid))"
    "cq_enabled (cq_of n qid)" "0 \<le> cq_irq (cq_of n qid)" "sq_fits lim (n_sq n ! unat qid)" "cq_fits lim (cq_of n qid)"
    using q by (simp_all add: io_queue_def)
  let ?as = "[unat (cq_slot n qid)..<unat (cq_slot n qid) + 16]"
  let ?n1 = "n\<lparr>n_sq := (n_sq n)[unat qid := (n_sq n ! unat qid)\<lparr>sq_tail := next_tail n qid, sq_head := next_tail n qid\<rparr>]\<rparr>"
  obtain n' h' st ns' h1 h2 where r:
    "reg_wr32 vfu (0x1000 + 8 * unat qid) (ucast (next_tail n qid)) (n, h) = Some (n', h')" "sq_live qid n'" "heap_ok h'"
    "nvme_io_kv vfu ?n1 sqe h1 = Inr (st, ?n1\<lparr>n_ns := ns'\<rparr>, h2)" "hmem h1 = hmem h" "heap_ok h1"
    "n' = ?n1\<lparr>n_ns := ns', n_cq := (n_cq n)[unat (sq_cqid (n_sq n ! unat qid)) := cq_advance (cq_of n qid)]\<rparr>"
    "hmem h' = mem_writes (hmem h2) (map tr ?as) (encode_cqe \<lparr>cqe_cdw0 = 0, cqe_cdw1 = 0,
       cqe_sq_head = next_tail n qid, cqe_sq_id = qid, cqe_cid = sqe_cid sqe,
       cqe_status = push_bit 1 st OR ucast (cq_phase (cq_of n qid) AND 1)\<rparr>)"
    by (rule submit_io [OF ok m hp q'(2,1) refl q'(3,6) next_tail_def sq_slot_def
          sqe [unfolded guest_read_def] cq_of_def q'(4,5,7) cq_slot_def refl])
  have img: "hmem h' = mem_writes (hmem h2) (map tr ?as) (encode_cqe (completed n qid (sqe_cid sqe) st))"
    by (simp only: r(8) completed_def)
  have "guest_read tr (hmem h') (cq_slot n qid) 16 = encode_cqe (completed n qid (sqe_cid sqe) st)"
    unfolding img by (rule guest_read_mem_writes [OF inj]) simp
  then have cqe: "decode_cqe (guest_read tr (hmem h') (cq_slot n qid) 16) = completed n qid (sqe_cid sqe) st"
    by (simp add: decode_encode_cqe)
  have fr: "hmem h' (tr a) = hmem h2 (tr a)"
    if "a \<notin> {unat (cq_slot n qid)..<unat (cq_slot n qid) + 16}" for a
    unfolding img by (rule mem_writes_guest_other [OF inj that])
  have len: "unat qid < 64" "length (n_sq n) = 64" "length (n_cq n) = 64" "unat (sq_cqid (n_sq n ! unat qid)) < 64"
    using sq_liveD(1,2,4,5) [OF q'(2)] ctrl_invD(1,2) [of n] by (simp_all add: sq_wf_def)
  then have "io_queue lim qid n'" "pair_moved n qid n'"
    using q' r(2) by (simp_all add: io_queue_def cq_of_def r(7) sq_fits_def cq_fits_def pair_moved_def)
  then show ?thesis
    using that [of n' h' ?n1 h1 st ns' h2] r cqe fr by (simp add: ring_def)
qed

lemma ring_store:
  assumes ok: "vfu_ok vfu tr" and m: "vfu_mapped lim vfu" and inj: "inj tr" and hp: "heap_ok h"
    and q: "io_queue lim qid n" and sqe: "encode_sqe sqe = guest_read tr (hmem h) (sq_slot n qid) 64"
    and op: "sqe_opcode sqe = NVME_CMD_KV_STORE" and cmd: "cmd = kvcmd_of_sqe sqe"
    and kl: "unat (kl (kvc_cdw11 cmd)) \<le> 16" and hbs: "unat (kvc_hbs cmd) \<le> 4096" and ro: "ro (kvc_cdw11 cmd) = 0"
    and fits: "prp_fits lim (kvc_prp1 cmd) (kvc_prp2 cmd) (unat (kvc_hbs cmd))"
    and room: "kv_abs (n_ns n) (cmd_key cmd) \<noteq> None \<or> card (dom (kv_abs (n_ns n))) < unat (max_num_keys (n_ns n))"
  obtains n' h' where "ring vfu qid (n, h) = Some (n', h')" "io_queue lim qid n'" "heap_ok h'"
    "decode_cqe (guest_read tr (hmem h') (cq_slot n qid) 16) = completed n qid (sqe_cid sqe) NVME_SUCCESS"
    "kv_abs (n_ns n') (cmd_key cmd) = Some (guest_bytes tr h cmd (unat (kvc_hbs cmd)) @
       drop (unat (kvc_hbs cmd)) (old_value (n_ns n) (cmd_key cmd)))" "pair_moved n qid n'"
proof -
  obtain n' h' st ns' n1 h1 h2 where r: "ring vfu qid (n, h) = Some (n', h')" "io_queue lim qid n'" "heap_ok h'"
    "nvme_io_kv vfu n1 sqe h1 = Inr (st, n1\<lparr>n_ns := ns'\<rparr>, h2)" "n_ns n1 = n_ns n" "n_ns n' = ns'"
    "hmem h1 = hmem h" "heap_ok h1"
    "decode_cqe (guest_read tr (hmem h') (cq_slot n qid) 16) = completed n qid (sqe_cid sqe) st"
    "\<forall>a. a \<notin> {unat (cq_slot n qid)..<unat (cq_slot n qid) + 16} \<longrightarrow> hmem h' (tr a) = hmem h2 (tr a)" "pair_moved n qid n'"
    by (rule ring_io [OF ok m inj hp q sqe])
  have inv: "kv_inv (n_ns n)"
    using q sq_liveD(1) [of qid n] ctrl_invD(7) by (auto simp: io_queue_def)
  have opc: "kvc_opcode cmd = 1" using op by (simp add: cmd kvcmd_of_sqe_fields)
  obtain ns2 h3 where s: "kv_store (kvdma vfu) cmd (n_ns n) h1 = Inr (NVME_SUCCESS, ns2, h3)"
    "kv_abs ns2 (cmd_key cmd) =
      Some (guest_bytes tr h1 cmd (unat (kvc_hbs cmd)) @ drop (unat (kvc_hbs cmd)) (old_value (n_ns n) (cmd_key cmd)))"
    by (rule mapped_store [OF ok m r(8) inv kl hbs ro fits room])
  have "st = NVME_SUCCESS" "ns' = ns2"
    using r(4,5) s(1) opc by (auto simp: nvme_io_kv_def Let_def cmd dest: arg_cong [of _ _ n_ns])
  with that r s(2) show ?thesis by (simp add: guest_bytes_def)
qed

lemma ring_retrieve:
  assumes ok: "vfu_ok vfu tr" and m: "vfu_mapped lim vfu" and inj: "inj tr" and hp: "heap_ok h"
    and q: "io_queue lim qid n" and sqe: "encode_sqe sqe = guest_read tr (hmem h) (sq_slot n qid) 64"
    and op: "sqe_opcode sqe = NVME_CMD_KV_RETRIEVE" and cmd: "cmd = kvcmd_of_sqe sqe"
    and kl: "unat (kl (kvc_cdw11 cmd)) \<le> 16" and v: "kv_abs (n_ns n) (cmd_key cmd) = Some v"
    and as: "as = prp_addrs (kvc_prp1 cmd) (kvc_prp2 cmd) (min (unat (kvc_hbs cmd)) 4096)"
    and fits: "prp_fits lim (kvc_prp1 cmd) (kvc_prp2 cmd) (min (unat (kvc_hbs cmd)) 4096)"
    and dist: "distinct as" and dis: "set as \<inter> {unat (cq_slot n qid)..<unat (cq_slot n qid) + 16} = {}"
  obtains n' h' where "ring vfu qid (n, h) = Some (n', h')" "io_queue lim qid n'" "heap_ok h'" "n_ns n' = n_ns n"
    "decode_cqe (guest_read tr (hmem h') (cq_slot n qid) 16) = completed n qid (sqe_cid sqe) NVME_SUCCESS"
    "map (\<lambda>a. hmem h' (tr a)) as = take (unat (kvc_hbs cmd)) v" "pair_moved n qid n'"
proof -
  obtain n' h' st ns' n1 h1 h2 where r: "ring vfu qid (n, h) = Some (n', h')" "io_queue lim qid n'" "heap_ok h'"
    "nvme_io_kv vfu n1 sqe h1 = Inr (st, n1\<lparr>n_ns := ns'\<rparr>, h2)" "n_ns n1 = n_ns n" "n_ns n' = ns'"
    "hmem h1 = hmem h" "heap_ok h1"
    "decode_cqe (guest_read tr (hmem h') (cq_slot n qid) 16) = completed n qid (sqe_cid sqe) st"
    "\<forall>a. a \<notin> {unat (cq_slot n qid)..<unat (cq_slot n qid) + 16} \<longrightarrow> hmem h' (tr a) = hmem h2 (tr a)" "pair_moved n qid n'"
    by (rule ring_io [OF ok m inj hp q sqe])
  have inv: "kv_inv (n_ns n)"
    using q sq_liveD(1) [of qid n] ctrl_invD(7) by (auto simp: io_queue_def)
  have opc: "kvc_opcode cmd = 2" using op by (simp add: cmd kvcmd_of_sqe_fields)
  obtain h3 where s: "kv_retrieve (kvdma vfu) cmd (n_ns n) h1 = (NVME_SUCCESS, h3)"
    "hmem h3 = mem_writes (hmem h1) (map tr as) v"
    unfolding as by (rule mapped_retrieve [OF ok m r(8) inv kl v fits])
  have e: "st = NVME_SUCCESS" "ns' = n_ns n" "h2 = h3"
    using r(4,5) s(1) opc by (auto simp: nvme_io_kv_def Let_def cmd dest: arg_cong [of _ _ n_ns])
  have lv: "length v = 4096" by (rule kv_abs_length [OF inv v])
  have la: "length as = min (unat (kvc_hbs cmd)) 4096" by (simp add: as)
  have dt: "distinct (map tr as)" using dist inj by (simp add: distinct_map inj_on_def inj_def)
  have "hmem h' (tr a) = hmem h3 (tr a)" if "a \<in> set as" for a
  proof -
    have "a \<notin> {unat (cq_slot n qid)..<unat (cq_slot n qid) + 16}" using dis that by blast
    then show ?thesis using r(10) e(3) by blast
  qed
  then have "map (\<lambda>a. hmem h' (tr a)) as = map (\<lambda>a. hmem h3 (tr a)) as" by simp
  also have "\<dots> = map (\<lambda>a. mem_writes (hmem h1) (map tr as) (take (length as) v) (tr a)) as"
    using mem_writes_take [of "hmem h1" "map tr as" v] by (simp add: s(2))
  also have "\<dots> = take (length as) v"
    by (rule mem_writes_read_map [OF dt]) (simp add: la lv)
  also have "\<dots> = take (unat (kvc_hbs cmd)) v" using lv la by (simp add: min_def)
  finally show ?thesis using that r e by simp
qed

text \<open>
  A KV command that a driver has placed in the next slot of one of its queues, with a key length
  in range and a data pointer that stays in the region.
\<close>

definition posted :: "nat \<Rightarrow> (nat \<Rightarrow> nat) \<Rightarrow> u16 \<Rightarrow> NvmeSqe \<Rightarrow> nvme_ctrl \<times> host \<Rightarrow> bool" where
  "posted lim tr qid sqe = (\<lambda>(n, h).
     io_queue lim qid n \<and> heap_ok h \<and> encode_sqe sqe = guest_read tr (hmem h) (sq_slot n qid) 64 \<and>
     (let cmd = kvcmd_of_sqe sqe
      in unat (kl (kvc_cdw11 cmd)) \<le> 16 \<and>
         prp_fits lim (kvc_prp1 cmd) (kvc_prp2 cmd) (min (unat (kvc_hbs cmd)) 4096)))"

text \<open>The sample queue pair is one of these.\<close>

lemma ctrl2_io:
  "io_queue 0x100000 1 ctrl2" "sq_slot ctrl2 1 = 0x40001" "cq_slot ctrl2 1 = 0x50000" "next_tail ctrl2 1 = 1"
  "cq_of ctrl2 1 = n_cq ctrl2 ! 1"
  using ctrl2_live
  by (simp_all add: io_queue_def sq_slot_def cq_slot_def cq_of_def next_tail_def sq_fits_def cq_fits_def
      ctrl2_queue zero_sq_def zero_cq_def)

end
