(* ===== verification/Harness.thy ===== *)
theory Harness
  imports Driver "HOL-Library.Monad_Syntax"
begin

text \<open>
  The client of \<^verbatim>\<open>tests/client_harness.c\<close>, run against the model of the device: it enables the
  controller, identifies it, creates an I/O queue pair, and stores and retrieves a value, checking
  every completion and every result. The walk over the PCI capability list is left out, because
  configuration space is served by libvfio-user. \<open>None\<close> is a check that fails. The lemmas
  show that the client succeeds on every device that is disabled and has room for one key.
\<close>

section \<open>The client\<close>

abbreviation (input) ASQ_IOVA :: u64 where "ASQ_IOVA \<equiv> 0"
abbreviation (input) ACQ_IOVA :: u64 where "ACQ_IOVA \<equiv> 0x1000"
abbreviation (input) IOSQ_IOVA :: u64 where "IOSQ_IOVA \<equiv> 0x2000"
abbreviation (input) IOCQ_IOVA :: u64 where "IOCQ_IOVA \<equiv> 0x3000"
abbreviation (input) DATA_IOVA :: u64 where "DATA_IOVA \<equiv> 0x4000"
abbreviation (input) VAL_IOVA :: u64 where "VAL_IOVA \<equiv> 0x5000"

abbreviation (input) DB_ASQ_TAIL :: nat where "DB_ASQ_TAIL \<equiv> 0x1000"
abbreviation (input) DB_ACQ_HEAD :: nat where "DB_ACQ_HEAD \<equiv> 0x1004"
abbreviation (input) DB_IOSQ_TAIL :: nat where "DB_IOSQ_TAIL \<equiv> 0x1008"
abbreviation (input) DB_IOCQ_HEAD :: nat where "DB_IOCQ_HEAD \<equiv> 0x100c"

text \<open>The client writes its own mapping of guest memory.\<close>

definition guest_write :: "(nat \<Rightarrow> nat) \<Rightarrow> u64 \<Rightarrow> bytes \<Rightarrow> nvme_ctrl \<times> host \<Rightarrow> nvme_ctrl \<times> host" where
  "guest_write tr a bs = (\<lambda>(n, h).
     (n, h\<lparr>hmem := mem_writes (hmem h) (map tr [unat a..<unat a + length bs]) bs\<rparr>))"

definition zero_sqe :: NvmeSqe where
  "zero_sqe = \<lparr>sqe_opcode = 0, sqe_flags = 0, sqe_cid = 0, sqe_nsid = 0, sqe_cdw2 = 0, sqe_cdw3 = 0,
     sqe_mptr = 0, sqe_prp1 = 0, sqe_prp2 = 0, sqe_cdw10 = 0, sqe_cdw11 = 0, sqe_cdw12 = 0, sqe_cdw13 = 0,
     sqe_cdw14 = 0, sqe_cdw15 = 0\<rparr>"

text \<open>Both clients program an admin queue pair of \<open>q_depth\<close> entries and enable the controller in the same way.\<close>

definition client_enable :: "'sg vfu_ctx \<Rightarrow> u32 \<Rightarrow> nvme_ctrl \<times> host \<Rightarrow> (nvme_ctrl \<times> host) option" where
  "client_enable vfu q_depth s =
     do {
       s \<leftarrow> reg_wr32 vfu 0x24 ((q_depth - 1) OR push_bit 16 (q_depth - 1)) s;
       s \<leftarrow> reg_wr64 vfu 0x28 ASQ_IOVA s;
       s \<leftarrow> reg_wr64 vfu 0x30 ACQ_IOVA s;
       s \<leftarrow> reg_wr32 vfu 0x14 (push_bit 20 4 OR push_bit 16 6 OR 1) s;
       csts \<leftarrow> reg_rd32 vfu 0x1c s;
       if csts AND 1 = 0 then None else Some s
     }"

definition harness_enable :: "'sg vfu_ctx \<Rightarrow> nvme_ctrl \<times> host \<Rightarrow> (nvme_ctrl \<times> host) option" where
  "harness_enable vfu = client_enable vfu 8"

text \<open>One command on a queue: entry, doorbell, completion, completion doorbell.\<close>

definition harness_cmd ::
    "'sg vfu_ctx \<Rightarrow> (nat \<Rightarrow> nat) \<Rightarrow> u64 \<Rightarrow> u64 \<Rightarrow> nat \<Rightarrow> nat \<Rightarrow> nat \<Rightarrow> NvmeSqe \<Rightarrow> nvme_ctrl \<times> host \<Rightarrow>
     (nvme_ctrl \<times> host) option" where
  "harness_cmd vfu tr sqa cqa db_tail db_head slot sqe s =
     do {
       s \<leftarrow> reg_wr32 vfu db_tail (of_nat (slot + 1)) (guest_write tr (sqa + of_nat (64 * slot)) (encode_sqe sqe) s);
       if check_cqe (decode_cqe (guest_read tr (hmem (snd s)) (cqa + of_nat (16 * slot)) 16)) (sqe_cid sqe)
       then reg_wr32 vfu db_head (of_nat (slot + 1)) s else None
     }"

abbreviation (input) admin_cmd where
  "admin_cmd vfu tr \<equiv> harness_cmd vfu tr ASQ_IOVA ACQ_IOVA DB_ASQ_TAIL DB_ACQ_HEAD"

abbreviation (input) io_cmd where
  "io_cmd vfu tr \<equiv> harness_cmd vfu tr IOSQ_IOVA IOCQ_IOVA DB_IOSQ_TAIL DB_IOCQ_HEAD"

definition identify_sqe :: "u16 \<Rightarrow> u32 \<Rightarrow> u32 \<Rightarrow> NvmeSqe" where
  "identify_sqe cid nsid cns = zero_sqe\<lparr>sqe_opcode := 0x06, sqe_cid := cid, sqe_nsid := nsid,
     sqe_prp1 := DATA_IOVA, sqe_cdw10 := cns\<rparr>"

text \<open>Create I/O Completion Queue and Create I/O Submission Queue with identifier 1 and eight entries.\<close>

definition create_cq_sqe :: NvmeSqe where
  "create_cq_sqe = zero_sqe\<lparr>sqe_opcode := 0x05, sqe_cid := 2, sqe_prp1 := IOCQ_IOVA,
     sqe_cdw10 := push_bit 16 7 OR 1, sqe_cdw11 := 1\<rparr>"

definition create_sq_sqe :: NvmeSqe where
  "create_sq_sqe = zero_sqe\<lparr>sqe_opcode := 0x01, sqe_cid := 3, sqe_prp1 := IOSQ_IOVA,
     sqe_cdw10 := push_bit 16 7 OR 1, sqe_cdw11 := push_bit 16 1 OR 1\<rparr>"

text \<open>The KV commands, in the generic layout: the key \<open>abc\<close> is in double word 2, its length in double word 11.\<close>

definition kv_io_sqe :: "u8 \<Rightarrow> u16 \<Rightarrow> u32 \<Rightarrow> NvmeSqe" where
  "kv_io_sqe opc cid hbs = zero_sqe\<lparr>sqe_opcode := opc, sqe_cid := cid, sqe_nsid := 1,
     sqe_prp1 := VAL_IOVA, sqe_cdw10 := hbs, sqe_cdw11 := 3, sqe_cdw2 := 0x636261\<rparr>"

definition harness_val :: bytes where
  "harness_val = map of_char ''hello-kv-value'' @ [0]"

text \<open>Identify, the creation of the queue pair, and the two identify pages with their checks.\<close>

definition harness_admin :: "'sg vfu_ctx \<Rightarrow> (nat \<Rightarrow> nat) \<Rightarrow> nvme_ctrl \<times> host \<Rightarrow> (nvme_ctrl \<times> host) option" where
  "harness_admin vfu tr s =
     do {
       s \<leftarrow> admin_cmd vfu tr 0 (identify_sqe 1 0 0x01) s;
       s \<leftarrow> (if guest_read tr (hmem (snd s)) (DATA_IOVA + 0x18) 15 = map of_char ''vfio-user-kvssd''
             then Some s else None);
       s \<leftarrow> admin_cmd vfu tr 1 create_cq_sqe s;
       s \<leftarrow> admin_cmd vfu tr 2 create_sq_sqe s;
       s \<leftarrow> admin_cmd vfu tr 3 (identify_sqe 4 1 0x08) (guest_write tr DATA_IOVA (replicate 4096 0) s);
       s \<leftarrow> (if guest_read tr (hmem (snd s)) (DATA_IOVA + 14) 1 = [1] then Some s else None);
       s \<leftarrow> admin_cmd vfu tr 4 (identify_sqe 5 1 0x1c) (guest_write tr DATA_IOVA (replicate 4096 0) s);
       if hd (guest_read tr (hmem (snd s)) DATA_IOVA 1) AND 1 \<noteq> 0 then Some s else None
     }"

text \<open>The store, and the retrieve into a cleared buffer.\<close>

definition harness_kv :: "'sg vfu_ctx \<Rightarrow> (nat \<Rightarrow> nat) \<Rightarrow> nvme_ctrl \<times> host \<Rightarrow> (nvme_ctrl \<times> host) option" where
  "harness_kv vfu tr s =
     do {
       s \<leftarrow> io_cmd vfu tr 0 (kv_io_sqe NVME_CMD_KV_STORE 10 15)
             (guest_write tr VAL_IOVA harness_val (guest_write tr VAL_IOVA (replicate 4096 0) s));
       s \<leftarrow> io_cmd vfu tr 1 (kv_io_sqe NVME_CMD_KV_RETRIEVE 11 4096)
             (guest_write tr VAL_IOVA (replicate 4096 0) s);
       if guest_read tr (hmem (snd s)) VAL_IOVA 15 = harness_val then Some s else None
     }"

definition harness :: "'sg vfu_ctx \<Rightarrow> (nat \<Rightarrow> nat) \<Rightarrow> nvme_ctrl \<times> host \<Rightarrow> (nvme_ctrl \<times> host) option" where
  "harness vfu tr s = do { s \<leftarrow> harness_enable vfu s; s \<leftarrow> harness_admin vfu tr s; harness_kv vfu tr s }"

section \<open>Registers\<close>

lemma reg_wr32_reg:
  "off < 0x1000 \<Longrightarrow> reg_wr32 vfu off v (n, h) =
    (case nvme_reg_write n off (le_enc 4 v) of Inr n' \<Rightarrow> Some (n', h) | Inl _ \<Rightarrow> None)"
  by (simp add: reg_wr32_def nvme_bar0_access_def Let_def split: sum.split)

lemma reg_wr64_reg:
  "off < 0x1000 \<Longrightarrow> reg_wr64 vfu off v (n, h) =
    (case nvme_reg_write n off (le_enc 8 v) of Inr n' \<Rightarrow> Some (n', h) | Inl _ \<Rightarrow> None)"
  by (simp add: reg_wr64_def nvme_bar0_access_def Let_def split: sum.split)

lemma reg_rd32_csts: "reg_rd32 vfu 0x1c (n, h) = Some (n_csts n)"
  by (simp add: reg_rd32_def nvme_bar0_access_def nvme_reg_read_regs le_dec_enc take_bit_word_eq_self)

lemma rd_le_enc: "rd_le (le_enc 4 (v :: u32)) = Inr (ucast v)" "rd_le (le_enc 8 (w :: u64)) = Inr w"
  by (simp_all add: rd_le_eq le_dec_enc_ucast le_dec_enc take_bit_word_eq_self)

lemma reg_wr32_cq_head:
  assumes "unat (qid :: u16) < 64"
  shows "reg_wr32 vfu (0x1004 + 8 * unat qid) v (n, h) =
    Some (n\<lparr>n_cq := (n_cq n)[unat qid := (n_cq n ! unat qid)\<lparr>cq_head := ucast v\<rparr>]\<rparr>, h)"
proof -
  have "(4 + 8 * unat qid) div 4 = Suc (2 * unat qid)" by simp
  moreover have "ucast (ucast v :: u64) = v" by (rule bit_word_eqI) (simp add: bit_simps)
  ultimately show ?thesis
    using assms by (simp add: reg_wr32_def nvme_bar0_access_def rd_le_enc Let_def)
qed

text \<open>The admin queue pair after \<open>k\<close> commands, each completed and acknowledged.\<close>

definition adm :: "nat \<Rightarrow> nvme_ctrl \<Rightarrow> bool" where
  "adm k n \<longleftrightarrow> ctrl_inv n \<and> n_csts n = 1 \<and>
     n_sq n ! 0 = zero_sq\<lparr>sq_dma := ASQ_IOVA, sq_size := 8, sq_head := of_nat k, sq_tail := of_nat k, sq_enabled := True\<rparr> \<and>
     n_cq n ! 0 = zero_cq\<lparr>cq_dma := ACQ_IOVA, cq_size := 8, cq_head := of_nat k, cq_tail := of_nat k,
       cq_phase := 1, cq_enabled := True\<rparr>"

lemma client_enable_ok:
  assumes inv: "ctrl_inv n" and off: "n_cc n = 0" and aqa: "aqa = (q_depth - 1) OR push_bit 16 (q_depth - 1)"
  obtains n' where "client_enable vfu q_depth (n, h) = Some (n', h)" "ctrl_inv n'" "n_csts n' = 1" "n_cc n' = 0x460001"
    "n_ns n' = n_ns n"
    "n_sq n' ! 0 = zero_sq\<lparr>sq_size := (aqa AND 0xfff) + 1, sq_enabled := True\<rparr>"
    "n_cq n' ! 0 = zero_cq\<lparr>cq_dma := ACQ_IOVA, cq_size := (drop_bit 16 aqa AND 0xfff) + 1, cq_phase := 1, cq_enabled := True\<rparr>"
proof -
  let ?n3 = "n\<lparr>n_aqa := aqa, n_asq := 0, n_acq := 0x1000\<rparr>"
  let ?n4 = "nvme_cc_write ?n3 0x460001"
  have inv3: "ctrl_inv ?n3" using inv by (simp add: ctrl_inv_def)
  have inv4: "ctrl_inv ?n4" by (rule nvme_cc_write_inv [OF inv3])
  have n4: "?n4 = nvme_enable (?n3\<lparr>n_cc := 0x460001\<rparr>)"
    using off by (simp add: nvme_cc_write_def Let_def)
  have len: "length (n_sq n) = 64" "length (n_cq n) = 64" using ctrl_invD(1,2) [OF inv] by simp_all
  have "ucast (ucast aqa :: u64) = aqa" by (rule bit_word_eqI) (simp add: bit_simps)
  then have "reg_wr32 vfu 0x24 aqa (n, h) = Some (n\<lparr>n_aqa := aqa\<rparr>, h)"
    "reg_wr64 vfu 0x28 0 (n\<lparr>n_aqa := aqa\<rparr>, h) = Some (n\<lparr>n_aqa := aqa, n_asq := 0\<rparr>, h)"
    "reg_wr64 vfu 0x30 0x1000 (n\<lparr>n_aqa := aqa, n_asq := 0\<rparr>, h) = Some (?n3, h)"
    "reg_wr32 vfu 0x14 (push_bit 20 4 OR push_bit 16 6 OR 1) (?n3, h) = Some (?n4, h)"
    by (simp_all add: reg_wr32_reg reg_wr64_reg nvme_reg_write_def rd_le_enc)
  moreover have csts: "n_csts ?n4 = 1" by (simp add: n4)
  ultimately have "client_enable vfu q_depth (n, h) = Some (?n4, h)"
    by (simp add: client_enable_def reg_rd32_csts flip: aqa)
  moreover have "n_cc ?n4 = 0x460001" "n_ns ?n4 = n_ns n"
    "n_sq ?n4 ! 0 = zero_sq\<lparr>sq_size := (aqa AND 0xfff) + 1, sq_enabled := True\<rparr>"
    "n_cq ?n4 ! 0 = zero_cq\<lparr>cq_dma := ACQ_IOVA, cq_size := (drop_bit 16 aqa AND 0xfff) + 1, cq_phase := 1, cq_enabled := True\<rparr>"
    using len by (simp_all add: n4 nvme_enable_def zero_sq_def zero_cq_def)
  ultimately show ?thesis using that inv4 csts by blast
qed

lemma harness_enable_ok:
  assumes inv: "ctrl_inv n" and off: "n_cc n = 0"
  obtains n' where "harness_enable vfu (n, h) = Some (n', h)" "adm 0 n'" "n_ns n' = n_ns n"
proof -
  have q: "0x70007 = (8 - 1 :: u32) OR push_bit 16 (8 - 1)" by simp
  obtain n' where r: "client_enable vfu 8 (n, h) = Some (n', h)" "ctrl_inv n'" "n_csts n' = 1" "n_cc n' = 0x460001"
    "n_ns n' = n_ns n" "n_sq n' ! 0 = zero_sq\<lparr>sq_size := (0x70007 AND 0xfff) + 1, sq_enabled := True\<rparr>"
    "n_cq n' ! 0 = zero_cq\<lparr>cq_dma := ACQ_IOVA, cq_size := (drop_bit 16 0x70007 AND 0xfff) + 1, cq_phase := 1, cq_enabled := True\<rparr>"
    by (rule client_enable_ok [OF inv off q, of vfu h])
  then have "adm 0 n'" by (simp add: adm_def zero_sq_def zero_cq_def)
  then show ?thesis using that r(1,5) by (simp add: harness_enable_def)
qed

section \<open>Admin commands\<close>

text \<open>Slots and doorbell values while the ring has not wrapped.\<close>

lemma slot_words:
  assumes "k < 7"
  shows "ucast ((ucast (word_of_nat k :: u16) + 1 :: u32) mod 8) = (word_of_nat (Suc k) :: u16)"
    and "ucast (word_of_nat (Suc k) :: u16) = (word_of_nat (Suc k) :: u32)"
    and "ucast (word_of_nat (Suc k) :: u32) = (word_of_nat (Suc k) :: u16)"
    and "ucast (word_of_nat k :: u16) * 64 = (word_of_nat (64 * k) :: u64)"
    and "ucast (word_of_nat k :: u16) * 16 = (word_of_nat (16 * k) :: u64)"
proof -
  have k: "k \<in> {0, 1, 2, 3, 4, 5, 6}" using assms by auto
  show "ucast ((ucast (word_of_nat k :: u16) + 1 :: u32) mod 8) = (word_of_nat (Suc k) :: u16)"
    "ucast (word_of_nat (Suc k) :: u16) = (word_of_nat (Suc k) :: u32)"
    "ucast (word_of_nat (Suc k) :: u32) = (word_of_nat (Suc k) :: u16)"
    "ucast (word_of_nat k :: u16) * 64 = (word_of_nat (64 * k) :: u64)"
    "ucast (word_of_nat k :: u16) * 16 = (word_of_nat (16 * k) :: u64)"
    using k by auto
qed

lemma slot_nat:
  assumes "k < 7"
  shows "unat (0x1000 + word_of_nat (16 * k) :: u64) = 0x1000 + 16 * k"
proof -
  have "k \<in> {0, 1, 2, 3, 4, 5, 6}" using assms by auto
  then show ?thesis by auto
qed

lemma cq_advance_slot:
  assumes "k < 7" and "cq_size cq = 8" and "cq_tail cq = of_nat k"
  shows "cq_advance cq = cq\<lparr>cq_tail := of_nat (Suc k)\<rparr>"
proof -
  have "k \<in> {0, 1, 2, 3, 4, 5, 6}" using assms(1) by auto
  then show ?thesis using assms(2,3) by (auto simp: cq_advance_def Let_def)
qed

lemma guest_read_write:
  assumes "inj tr"
  shows "guest_read tr (hmem (snd (guest_write tr a bs s))) a (length bs) = bs"
  using guest_read_mem_writes [OF assms refl] by (cases s) (simp add: guest_write_def)

lemma guest_write_other:
  assumes "inj tr" and "x \<notin> {unat a..<unat a + length bs}"
  shows "hmem (snd (guest_write tr a bs s)) (tr x) = hmem (snd s) (tr x)"
  using mem_writes_guest_other [OF assms] by (cases s) (simp add: guest_write_def)

lemma guest_write_simps [simp]:
  "fst (guest_write tr a bs s) = fst s" "heap_ok (snd (guest_write tr a bs s)) = heap_ok (snd s)"
  by (cases s; simp add: guest_write_def)+

lemma check_cqe_success:
  "check_cqe \<lparr>cqe_cdw0 = c, cqe_cdw1 = 0, cqe_sq_head = t, cqe_sq_id = q, cqe_cid = cid,
     cqe_status = 1\<rparr> cid"
  by (simp add: check_cqe_def)

text \<open>
  One admin command of the client that succeeds, in slot \<open>k\<close>: \<open>n1\<close> and \<open>h1\<close> are what the command
  starts from, \<open>n2\<close> and \<open>mem\<close> what it leaves; the client then sees the completion and moves on.
\<close>

definition adm_next :: "nat \<Rightarrow> nvme_ctrl \<Rightarrow> nvme_ctrl" where
  "adm_next k n = n\<lparr>n_sq := (n_sq n)[0 := (n_sq n ! 0)\<lparr>sq_tail := of_nat (Suc k), sq_head := of_nat (Suc k)\<rparr>]\<rparr>"

lemma adm_fields:
  assumes "adm k n"
  shows "sq_dma (n_sq n ! 0) = 0" "sq_size (n_sq n ! 0) = 8" "sq_head (n_sq n ! 0) = word_of_nat k"
    "sq_enabled (n_sq n ! 0)" "sq_cqid (n_sq n ! 0) = 0" "cq_dma (n_cq n ! 0) = 0x1000" "cq_size (n_cq n ! 0) = 8"
    "cq_tail (n_cq n ! 0) = word_of_nat k" "cq_phase (n_cq n ! 0) = 1" "cq_enabled (n_cq n ! 0)" "0 \<le> cq_irq (n_cq n ! 0)"
    "ctrl_inv n" "n_csts n = 1" "length (n_sq n) = 64" "length (n_cq n) = 64"
  using assms ctrl_invD(1,2) [of n] by (simp_all add: adm_def zero_sq_def zero_cq_def)

lemma adm_submit:
  assumes ok: "vfu_ok vfu tr" and m: "vfu_mapped 0x10000 vfu" and inj: "inj tr" and hp: "heap_ok h"
    and adm: "adm k n" and k: "k < 7" and opc: "sqe_opcode sqe \<noteq> NVME_ADM_ASYNC_EVENT"
    and h0: "(n, h0) = guest_write tr (ASQ_IOVA + of_nat (64 * k)) (encode_sqe sqe) (n, h)"
  obtains n' h' st c n2 h1 h2 where
    "reg_wr32 vfu 0x1000 (of_nat (Suc k)) (n, h0) = Some (n', h')" "heap_ok h'" "ctrl_inv n'"
    "nvme_admin_cmd vfu (adm_next k n) sqe h1 = Inr (st, c, n2, h2)" "hmem h1 = hmem h0" "heap_ok h1"
    "n' = n2\<lparr>n_cq := (n_cq n2)[0 := cq_advance (n_cq n ! 0)]\<rparr>" "ctrl_inv n2" "admin_frame (adm_next k n) n2"
    "hmem h' = mem_writes (hmem h2) (map tr [0x1000 + 16 * k..<0x1010 + 16 * k])
      (encode_cqe \<lparr>cqe_cdw0 = c, cqe_cdw1 = 0, cqe_sq_head = of_nat (Suc k), cqe_sq_id = 0, cqe_cid = sqe_cid sqe,
       cqe_status = push_bit 1 st OR 1\<rparr>)"
proof -
  note F = adm_fields [OF adm]
  let ?t = "word_of_nat (Suc k) :: u16" and ?s = "word_of_nat (64 * k) :: u64"
  let ?cs = "0x1000 + word_of_nat (16 * k) :: u64"
  have hp0: "heap_ok h0" using hp h0 guest_write_simps(2) by (metis snd_conv)
  have live: "sq_live 0 n" using F(4,12,13) by (simp add: sq_live_def)
  have g: "2 \<le> unat (sq_size (n_sq n ! 0))" "sq_fits 0x10000 (n_sq n ! 0)" "cq_fits 0x10000 (n_cq n ! 0)"
    "?t = ucast ((ucast (sq_head (n_sq n ! 0)) + 1 :: u32) mod sq_size (n_sq n ! 0))"
    "?s = sq_dma (n_sq n ! 0) + ucast (sq_head (n_sq n ! 0)) * 64"
    "?cs = cq_dma (n_cq n ! 0) + ucast (cq_tail (n_cq n ! 0)) * 16"
    unfolding F sq_fits_def cq_fits_def slot_words [OF k] by simp_all
  have "guest_read tr (hmem h0) ?s 64 = encode_sqe sqe"
    using guest_read_write [OF inj, of ?s "encode_sqe sqe" "(n, h)"] h0 [symmetric] by simp
  then have sqe: "encode_sqe sqe = map (\<lambda>a. hmem h0 (tr a)) [unat ?s..<unat ?s + 64]"
    unfolding guest_read_def by (rule sym)
  obtain n' h' st c n2 h1 h2 where r:
    "reg_wr32 vfu 0x1000 (ucast ?t) (n, h0) = Some (n', h')" "heap_ok h'" "ctrl_inv n'"
    "nvme_admin_cmd vfu (adm_next k n) sqe h1 = Inr (st, c, n2, h2)" "hmem h1 = hmem h0" "heap_ok h1"
    "n' = n2\<lparr>n_cq := (n_cq n2)[0 := cq_advance (n_cq n ! 0)]\<rparr>" "ctrl_inv n2" "admin_frame (adm_next k n) n2"
    "hmem h' = mem_writes (hmem h2) (map tr [unat ?cs..<unat ?cs + 16])
      (encode_cqe \<lparr>cqe_cdw0 = c, cqe_cdw1 = 0, cqe_sq_head = ?t, cqe_sq_id = 0, cqe_cid = sqe_cid sqe,
       cqe_status = push_bit 1 st OR ucast (cq_phase (n_cq n ! 0) AND 1)\<rparr>)"
    by (rule submit_admin [OF ok m hp0 live refl g(1,2) F(5) g(4,5) sqe opc refl F(10,11) g(3) g(6) adm_next_def])
  have "hmem h' = mem_writes (hmem h2) (map tr [0x1000 + 16 * k..<0x1010 + 16 * k])
      (encode_cqe \<lparr>cqe_cdw0 = c, cqe_cdw1 = 0, cqe_sq_head = ?t, cqe_sq_id = 0, cqe_cid = sqe_cid sqe,
       cqe_status = push_bit 1 st OR 1\<rparr>)"
    unfolding r(10) slot_nat [OF k] F(9) by (simp add: add.commute)
  then show ?thesis using that r(1-9) slot_words(2) [OF k] by metis
qed

lemma adm_completed:
  assumes adm: "adm k n" and k: "k < 7" and n2: "ctrl_inv n2" "admin_frame (adm_next k n) n2"
    and n': "n' = n2\<lparr>n_cq := (n_cq n2)[0 := cq_advance (n_cq n ! 0)]\<rparr>" "ctrl_inv n'"
  shows "adm (Suc k) (n'\<lparr>n_cq := (n_cq n')[0 := (n_cq n' ! 0)\<lparr>cq_head := of_nat (Suc k)\<rparr>]\<rparr>)" (is "adm _ ?n")
proof -
  note F = adm_fields [OF adm]
  let ?t = "word_of_nat (Suc k) :: u16"
  have "n_cq n' ! 0 = (n_cq n ! 0)\<lparr>cq_tail := ?t\<rparr>"
    unfolding n'(1) cq_advance_slot [OF k F(7,8)] by (simp add: ctrl_invD(2) [OF n2(1)])
  then have cq: "n_cq ?n ! 0 = (n_cq n ! 0)\<lparr>cq_tail := ?t, cq_head := ?t\<rparr>"
    using ctrl_invD(2) [OF n'(2)] by (simp del: of_nat_Suc)
  have fr: "n_sq n' ! 0 = (n_sq n ! 0)\<lparr>sq_tail := ?t, sq_head := ?t\<rparr>" "n_csts n' = n_csts n"
    using n2(2) F(14) by (simp_all add: n'(1) admin_frame_def adm_next_def del: of_nat_Suc)
  have old: "n_sq n ! 0 = zero_sq\<lparr>sq_dma := ASQ_IOVA, sq_size := 8, sq_head := of_nat k, sq_tail := of_nat k, sq_enabled := True\<rparr>"
    "n_cq n ! 0 = zero_cq\<lparr>cq_dma := ACQ_IOVA, cq_size := 8, cq_head := of_nat k, cq_tail := of_nat k,
      cq_phase := 1, cq_enabled := True\<rparr>"
    using adm by (simp_all add: adm_def)
  have "ctrl_inv ?n" using ctrl_inv_doorbell(1) [OF n'(2), of 0 ?t] by simp
  moreover have "n_csts ?n = 1" "n_sq ?n ! 0 = n_sq n' ! 0" using fr(2) F(13) by simp_all
  ultimately show ?thesis
    unfolding adm_def cq fr(1) old by (simp del: of_nat_Suc)
qed

lemma admin_cmd_ok:
  assumes ok: "vfu_ok vfu tr" and m: "vfu_mapped 0x10000 vfu" and inj: "inj tr" and hp: "heap_ok h"
    and adm: "adm k n" and k: "k < 7" and opc: "sqe_opcode sqe \<noteq> NVME_ADM_ASYNC_EVENT"
    and succ: "\<And>h1. heap_ok h1 \<Longrightarrow> \<exists>c h2. nvme_admin_cmd vfu (adm_next k n) sqe h1 = Inr (NVME_SUCCESS, c, n2, h2) \<and> R (hmem h2)"
  obtains n' h' mem where "admin_cmd vfu tr k sqe (n, h) = Some (n', h')" "adm (Suc k) n'" "heap_ok h'"
    "n_ns n' = n_ns n2" "\<forall>i. i \<noteq> 0 \<longrightarrow> n_sq n' ! i = n_sq n2 ! i \<and> n_cq n' ! i = n_cq n2 ! i"
    "R mem" "\<forall>a. a \<notin> {0x1000..<0x1080} \<longrightarrow> hmem h' (tr a) = mem (tr a)"
proof -
  obtain h0 where h0: "(n, h0) = guest_write tr (ASQ_IOVA + of_nat (64 * k)) (encode_sqe sqe) (n, h)"
    by (metis guest_write_simps(1) fst_conv prod.collapse)
  let ?t = "word_of_nat (Suc k) :: u16" and ?cs = "0x1000 + word_of_nat (16 * k) :: u64"
  obtain n' h' st c n2' h1 h2 where r:
    "reg_wr32 vfu 0x1000 (of_nat (Suc k)) (n, h0) = Some (n', h')" "heap_ok h'" "ctrl_inv n'"
    "nvme_admin_cmd vfu (adm_next k n) sqe h1 = Inr (st, c, n2', h2)" "hmem h1 = hmem h0" "heap_ok h1"
    "n' = n2'\<lparr>n_cq := (n_cq n2')[0 := cq_advance (n_cq n ! 0)]\<rparr>" "ctrl_inv n2'" "admin_frame (adm_next k n) n2'"
    "hmem h' = mem_writes (hmem h2) (map tr [0x1000 + 16 * k..<0x1010 + 16 * k])
      (encode_cqe \<lparr>cqe_cdw0 = c, cqe_cdw1 = 0, cqe_sq_head = ?t, cqe_sq_id = 0, cqe_cid = sqe_cid sqe,
       cqe_status = push_bit 1 st OR 1\<rparr>)"
    by (rule adm_submit [OF ok m inj hp adm k opc h0])
  have s: "st = NVME_SUCCESS" "n2' = n2" "R (hmem h2)" using succ [OF r(6)] r(4) by auto
  let ?cqe = "\<lparr>cqe_cdw0 = c, cqe_cdw1 = 0, cqe_sq_head = ?t, cqe_sq_id = 0, cqe_cid = sqe_cid sqe, cqe_status = 1\<rparr>"
  have img: "hmem h' = mem_writes (hmem h2) (map tr [unat ?cs..<unat ?cs + 16]) (encode_cqe ?cqe)"
    unfolding r(10) slot_nat [OF k] s(1) by (simp add: add.commute)
  have "guest_read tr (hmem h') ?cs 16 = encode_cqe ?cqe"
    unfolding img by (rule guest_read_mem_writes [OF inj]) simp
  then have chk: "check_cqe (decode_cqe (guest_read tr (hmem h') ?cs 16)) (sqe_cid sqe)"
    by (simp add: decode_encode_cqe check_cqe_success del: of_nat_Suc)
  let ?n = "n'\<lparr>n_cq := (n_cq n')[0 := (n_cq n' ! 0)\<lparr>cq_head := ?t\<rparr>]\<rparr>"
  have ack: "reg_wr32 vfu 0x1004 (of_nat (Suc k)) (n', h') = Some (?n, h')"
    using reg_wr32_cq_head [of 0 vfu "of_nat (Suc k)" n' h'] slot_words(3) [OF k] by (simp del: of_nat_Suc)
  have "admin_cmd vfu tr k sqe (n, h) = Some (?n, h')"
    unfolding harness_cmd_def h0 [symmetric] using r(1) chk ack by (simp del: of_nat_Suc)
  moreover have "n_ns ?n = n_ns n2" "\<forall>i. i \<noteq> 0 \<longrightarrow> n_sq ?n ! i = n_sq n2 ! i \<and> n_cq ?n ! i = n_cq n2 ! i"
    by (simp_all add: r(7) s(2))
  moreover have "hmem h' (tr a) = hmem h2 (tr a)" if a: "a \<notin> {0x1000..<0x1080}" for a
    unfolding img by (rule mem_writes_guest_other [OF inj]) (unfold slot_nat [OF k], use a k in auto)
  ultimately show ?thesis
    using that adm_completed [OF adm k r(8,9,7,3)] r(2) s(3) by blast
qed

text \<open>The three admin commands of the client.\<close>

lemma prp_page: "prp_first 0x4000 4096 = 4096" "prp_first 0x5000 4096 = 4096" "prp_first 0x5000 15 = 15"
  by (simp_all add: prp_first_def)

lemma prp_addrs_one: "prp_first a len = len \<Longrightarrow> prp_addrs a b len = [unat a..<unat a + len]"
  by (simp add: prp_addrs_def)

lemma guest_read_cong:
  assumes "\<And>x. x \<in> {unat a..<unat a + len} \<Longrightarrow> mem (tr x) = mem' (tr x)"
  shows "guest_read tr mem a len = guest_read tr mem' a len"
  using assms by (simp add: guest_read_def)

lemma identify_ok:
  assumes ok: "vfu_ok vfu tr" and m: "vfu_mapped 0x10000 vfu" and inj: "inj tr" and hp: "heap_ok h"
    and adm: "adm k n" and k: "k < 7"
    and data: "nvme_identify_data (adm_next k n) (ucast (cns AND 0xff)) 0 = Inr (Some buf)" "length buf = 4096"
  obtains n' h' where "admin_cmd vfu tr k (identify_sqe cid nsid cns) (n, h) = Some (n', h')" "adm (Suc k) n'" "heap_ok h'"
    "n_ns n' = n_ns n" "\<forall>i. i \<noteq> 0 \<longrightarrow> n_sq n' ! i = n_sq n ! i \<and> n_cq n' ! i = n_cq n ! i"
    "guest_read tr (hmem h') DATA_IOVA 4096 = buf"
proof -
  let ?sqe = "identify_sqe cid nsid cns" and ?n = "adm_next k n"
  let ?R = "\<lambda>mem. guest_read tr mem DATA_IOVA 4096 = buf"
  have fits: "prp_fits 0x10000 DATA_IOVA 0 4096" by (simp add: prp_fits_def prp_page)
  have succ: "\<exists>c h2. nvme_admin_cmd vfu ?n ?sqe h1 = Inr (NVME_SUCCESS, c, ?n, h2) \<and> ?R (hmem h2)" if hp1: "heap_ok h1" for h1
  proof -
    obtain b h2 where x: "nvme_prp_xfer vfu DATA_IOVA 0 buf 4096 True h1 = (0, b, h2)"
      using vfu_mapped_prp [OF ok m hp1 _ fits, of buf True] by (metis order_refl prod.collapse)
    have "hmem h2 = mem_writes (hmem h1) (map tr [unat DATA_IOVA..<unat DATA_IOVA + 4096]) buf"
      using nvme_prp_xfer_to_host(3) [OF ok _ x] data(2) unfolding prp_addrs_one [OF prp_page(1)]
      by (simp del: upt_rec_numeral)
    then have "?R (hmem h2)" by (simp only: guest_read_mem_writes [OF inj data(2)])
    then show ?thesis
      using x data(1) by (simp add: nvme_admin_cmd_def nvme_admin_identify_def identify_sqe_def zero_sqe_def Let_def)
  qed
  have opc: "sqe_opcode ?sqe \<noteq> NVME_ADM_ASYNC_EVENT" by (simp add: identify_sqe_def)
  obtain n' h' mem where r: "admin_cmd vfu tr k ?sqe (n, h) = Some (n', h')" "adm (Suc k) n'" "heap_ok h'"
    "n_ns n' = n_ns ?n" "\<forall>i. i \<noteq> 0 \<longrightarrow> n_sq n' ! i = n_sq ?n ! i \<and> n_cq n' ! i = n_cq ?n ! i"
    "?R mem" "\<forall>a. a \<notin> {0x1000..<0x1080} \<longrightarrow> hmem h' (tr a) = mem (tr a)"
    by (rule admin_cmd_ok [OF ok m inj hp adm k opc, where R = ?R, OF succ])
  have "guest_read tr (hmem h') DATA_IOVA 4096 = guest_read tr mem DATA_IOVA 4096"
    by (rule guest_read_cong) (use r(7) in simp)
  then have "?R (hmem h')" using r(6) by simp
  with that r(1-5) show ?thesis by (simp add: adm_next_def)
qed

lemma create_cq_ok:
  assumes ok: "vfu_ok vfu tr" and m: "vfu_mapped 0x10000 vfu" and inj: "inj tr" and hp: "heap_ok h"
    and adm: "adm k n" and k: "k < 7"
  obtains n' h' where "admin_cmd vfu tr k create_cq_sqe (n, h) = Some (n', h')" "adm (Suc k) n'" "heap_ok h'"
    "n_ns n' = n_ns n"
    "n_cq n' ! 1 = zero_cq\<lparr>cq_dma := IOCQ_IOVA, cq_size := 8, cq_qid := 1, cq_phase := 1, cq_irq := 0, cq_enabled := True\<rparr>"
proof -
  let ?n2 = "(adm_next k n)\<lparr>n_cq := (n_cq n)[1 := zero_cq\<lparr>cq_dma := IOCQ_IOVA, cq_size := 8, cq_qid := 1,
    cq_phase := 1, cq_irq := 0, cq_enabled := True\<rparr>]\<rparr>"
  have succ: "\<exists>c h2. nvme_admin_cmd vfu (adm_next k n) create_cq_sqe h1 = Inr (NVME_SUCCESS, c, ?n2, h2) \<and> True" for h1
    by (simp add: nvme_admin_cmd_def nvme_admin_create_cq_def create_cq_sqe_def zero_sqe_def adm_next_def Let_def)
  have opc: "sqe_opcode create_cq_sqe \<noteq> NVME_ADM_ASYNC_EVENT" by (simp add: create_cq_sqe_def)
  obtain n' h' where r: "admin_cmd vfu tr k create_cq_sqe (n, h) = Some (n', h')" "adm (Suc k) n'" "heap_ok h'"
    "n_ns n' = n_ns ?n2" "\<forall>i. i \<noteq> 0 \<longrightarrow> n_sq n' ! i = n_sq ?n2 ! i \<and> n_cq n' ! i = n_cq ?n2 ! i"
    by (rule admin_cmd_ok [OF ok m inj hp adm k opc, where R = "\<lambda>_. True", OF succ])
  with that adm_fields(15) [OF adm] show ?thesis by (simp add: adm_next_def)
qed

lemma create_sq_ok:
  assumes ok: "vfu_ok vfu tr" and m: "vfu_mapped 0x10000 vfu" and inj: "inj tr" and hp: "heap_ok h"
    and adm: "adm k n" and k: "k < 7" and cq: "cq_enabled (n_cq n ! 1)"
  obtains n' h' where "admin_cmd vfu tr k create_sq_sqe (n, h) = Some (n', h')" "adm (Suc k) n'" "heap_ok h'"
    "n_ns n' = n_ns n" "n_cq n' ! 1 = n_cq n ! 1"
    "n_sq n' ! 1 = zero_sq\<lparr>sq_dma := IOSQ_IOVA, sq_size := 8, sq_qid := 1, sq_cqid := 1, sq_enabled := True\<rparr>"
proof -
  let ?n2 = "(adm_next k n)\<lparr>n_sq := (n_sq (adm_next k n))[1 := zero_sq\<lparr>sq_dma := IOSQ_IOVA, sq_size := 8, sq_qid := 1,
    sq_cqid := 1, sq_enabled := True\<rparr>]\<rparr>"
  have succ: "\<exists>c h2. nvme_admin_cmd vfu (adm_next k n) create_sq_sqe h1 = Inr (NVME_SUCCESS, c, ?n2, h2) \<and> True" for h1
    using cq by (simp add: nvme_admin_cmd_def nvme_admin_create_sq_def create_sq_sqe_def zero_sqe_def adm_next_def Let_def)
  have opc: "sqe_opcode create_sq_sqe \<noteq> NVME_ADM_ASYNC_EVENT" by (simp add: create_sq_sqe_def)
  obtain n' h' where r: "admin_cmd vfu tr k create_sq_sqe (n, h) = Some (n', h')" "adm (Suc k) n'" "heap_ok h'"
    "n_ns n' = n_ns ?n2" "\<forall>i. i \<noteq> 0 \<longrightarrow> n_sq n' ! i = n_sq ?n2 ! i \<and> n_cq n' ! i = n_cq ?n2 ! i"
    by (rule admin_cmd_ok [OF ok m inj hp adm k opc, where R = "\<lambda>_. True", OF succ])
  with that adm_fields(14) [OF adm] show ?thesis by (simp add: adm_next_def)
qed

section \<open>I/O commands\<close>

text \<open>The I/O queue pair after \<open>j\<close> commands.\<close>

definition ioq :: "nat \<Rightarrow> nvme_ctrl \<Rightarrow> bool" where
  "ioq j n \<longleftrightarrow> io_queue 0x10000 1 n \<and>
     n_sq n ! 1 = zero_sq\<lparr>sq_dma := IOSQ_IOVA, sq_size := 8, sq_qid := 1, sq_cqid := 1, sq_head := of_nat j,
       sq_tail := of_nat j, sq_enabled := True\<rparr> \<and>
     n_cq n ! 1 = zero_cq\<lparr>cq_dma := IOCQ_IOVA, cq_size := 8, cq_qid := 1, cq_phase := 1, cq_irq := 0,
       cq_head := of_nat j, cq_tail := of_nat j, cq_enabled := True\<rparr>"

lemma ioq_created:
  assumes "adm k n" and "n_sq n ! 1 = zero_sq\<lparr>sq_dma := IOSQ_IOVA, sq_size := 8, sq_qid := 1, sq_cqid := 1, sq_enabled := True\<rparr>"
    and "n_cq n ! 1 = zero_cq\<lparr>cq_dma := IOCQ_IOVA, cq_size := 8, cq_qid := 1, cq_phase := 1, cq_irq := 0, cq_enabled := True\<rparr>"
  shows "ioq 0 n"
  using adm_fields(12) [OF assms(1)] assms(2,3)
  by (simp add: ioq_def io_queue_def sq_live_def cq_of_def sq_fits_def cq_fits_def zero_sq_def zero_cq_def)

lemma ioq_fields:
  assumes "ioq j n" and "j < 7"
  shows "sq_slot n 1 = IOSQ_IOVA + of_nat (64 * j)" "cq_slot n 1 = IOCQ_IOVA + of_nat (16 * j)"
    "next_tail n 1 = of_nat (Suc j)" "cq_of n 1 = n_cq n ! 1" "cq_phase (n_cq n ! 1) = 1"
    "cq_size (n_cq n ! 1) = 8" "cq_tail (n_cq n ! 1) = of_nat j"
proof -
  have F: "sq_dma (n_sq n ! 1) = 0x2000" "sq_size (n_sq n ! 1) = 8" "sq_head (n_sq n ! 1) = word_of_nat j"
    "sq_cqid (n_sq n ! 1) = 1" "cq_dma (n_cq n ! 1) = 0x3000" and
    C: "cq_phase (n_cq n ! 1) = 1" "cq_size (n_cq n ! 1) = 8" "cq_tail (n_cq n ! 1) = of_nat j"
    using assms(1) by (simp_all add: ioq_def)
  have one: "unat (1 :: u16) = 1" by simp
  show "sq_slot n 1 = IOSQ_IOVA + of_nat (64 * j)" "cq_slot n 1 = IOCQ_IOVA + of_nat (16 * j)"
    "next_tail n 1 = of_nat (Suc j)" "cq_of n 1 = n_cq n ! 1" "cq_phase (n_cq n ! 1) = 1"
    "cq_size (n_cq n ! 1) = 8" "cq_tail (n_cq n ! 1) = of_nat j"
    unfolding sq_slot_def cq_slot_def next_tail_def cq_of_def one F C slot_words [OF assms(2)] by (simp_all only:)
qed

lemma ioq_moved:
  assumes q: "ioq j n" and j: "j < 7" and n': "io_queue 0x10000 1 n'" "pair_moved n 1 n'"
  shows "ioq (Suc j) (n'\<lparr>n_cq := (n_cq n')[1 := (n_cq n' ! 1)\<lparr>cq_head := of_nat (Suc j)\<rparr>]\<rparr>)" (is "ioq _ ?n")
proof -
  note F = ioq_fields [OF q j]
  let ?t = "word_of_nat (Suc j) :: u16"
  have one: "unat (1 :: u16) = 1" by simp
  have old: "n_sq n ! 1 = zero_sq\<lparr>sq_dma := IOSQ_IOVA, sq_size := 8, sq_qid := 1, sq_cqid := 1, sq_head := of_nat j,
       sq_tail := of_nat j, sq_enabled := True\<rparr>"
    "n_cq n ! 1 = zero_cq\<lparr>cq_dma := IOCQ_IOVA, cq_size := 8, cq_qid := 1, cq_phase := 1, cq_irq := 0,
       cq_head := of_nat j, cq_tail := of_nat j, cq_enabled := True\<rparr>"
    using q by (simp_all add: ioq_def)
  have sq: "n_sq n' ! 1 = (n_sq n ! 1)\<lparr>sq_tail := ?t, sq_head := ?t\<rparr>"
    and "cq_of n' 1 = cq_advance (n_cq n ! 1)"
    using n'(2) by (simp_all only: pair_moved_def one F(3,4))
  moreover have cq': "cq_of n' 1 = n_cq n' ! 1" unfolding cq_of_def one sq old by simp
  ultimately have cq: "n_cq n' ! 1 = (n_cq n ! 1)\<lparr>cq_tail := ?t\<rparr>" using cq_advance_slot [OF j F(6,7)] by simp
  have live: "ctrl_inv n'" using n'(1) sq_liveD(1) by (auto simp: io_queue_def)
  have n: "n_sq ?n ! 1 = n_sq n' ! 1" "n_cq ?n ! 1 = (n_cq n' ! 1)\<lparr>cq_head := ?t\<rparr>"
    using ctrl_invD(2) [OF live] by simp_all
  have "cq_of ?n 1 = n_cq ?n ! 1" unfolding cq_of_def one n(1) sq old by simp
  then have "io_queue 0x10000 1 ?n"
    using n'(1) ctrl_inv_doorbell(1) [OF live, of 1 ?t] n cq'
    by (simp add: io_queue_def sq_live_def cq_fits_def del: of_nat_Suc)
  moreover have "n_sq ?n ! 1 = (n_sq n ! 1)\<lparr>sq_tail := ?t, sq_head := ?t\<rparr>"
    "n_cq ?n ! 1 = (n_cq n ! 1)\<lparr>cq_tail := ?t, cq_head := ?t\<rparr>"
    unfolding n by (simp_all only: sq cq nvme_cq.update_convs)
  ultimately show ?thesis unfolding ioq_def old by (simp del: of_nat_Suc)
qed

text \<open>A transaction that succeeds, its check and its completion doorbell.\<close>

lemma io_cmd_ok:
  assumes q: "ioq j n" and j: "j < 7"
    and h0: "(n, h0) = guest_write tr (IOSQ_IOVA + of_nat (64 * j)) (encode_sqe sqe) (n, h)"
    and ring: "ring vfu 1 (n, h0) = Some (n', h')" "io_queue 0x10000 1 n'" "pair_moved n 1 n'"
    and cqe: "decode_cqe (guest_read tr (hmem h') (cq_slot n 1) 16) = completed n 1 (sqe_cid sqe) NVME_SUCCESS"
  obtains n'' where "io_cmd vfu tr j sqe (n, h) = Some (n'', h')" "ioq (Suc j) n''" "n_ns n'' = n_ns n'"
proof -
  note F = ioq_fields [OF q j]
  let ?t = "word_of_nat (Suc j) :: u16"
  let ?n = "n'\<lparr>n_cq := (n_cq n')[1 := (n_cq n' ! 1)\<lparr>cq_head := ?t\<rparr>]\<rparr>"
  have db: "reg_wr32 vfu 0x1008 (of_nat (Suc j)) (n, h0) = Some (n', h')"
    using ring(1) by (simp add: ring_def F(3) slot_words(2) [OF j] del: of_nat_Suc)
  have chk: "check_cqe (decode_cqe (guest_read tr (hmem h') (IOCQ_IOVA + of_nat (16 * j)) 16)) (sqe_cid sqe)"
    using cqe [unfolded completed_def F(2,4,5)] check_cqe_success by simp
  have ack: "reg_wr32 vfu 0x100c (of_nat (Suc j)) (n', h') = Some (?n, h')"
    using reg_wr32_cq_head [of 1 vfu "of_nat (Suc j)" n' h'] slot_words(3) [OF j] by (simp del: of_nat_Suc)
  have "io_cmd vfu tr j sqe (n, h) = Some (?n, h')"
    unfolding harness_cmd_def h0 [symmetric] using db chk ack by (simp del: of_nat_Suc)
  moreover have "ioq (Suc j) ?n"
    by (rule ioq_moved [OF q j ring(2,3)])
  ultimately show ?thesis using that by simp
qed

text \<open>The key of the client, and the fields of its two commands.\<close>

abbreviation (input) harness_key :: bytes where "harness_key \<equiv> [0x61, 0x62, 0x63]"

lemma kv_io_cmd:
  assumes "cmd = kvcmd_of_sqe (kv_io_sqe opc cid hbs)"
  shows "kl (kvc_cdw11 cmd) = 3" "ro (kvc_cdw11 cmd) = 0" "kvc_prp1 cmd = VAL_IOVA" "kvc_prp2 cmd = 0"
    "kvc_hbs cmd = hbs" "cmd_key cmd = harness_key"
  unfolding assms kvcmd_of_sqe_fields cmd_key_def kv_io_sqe_def zero_sqe_def by (simp_all add: le_enc_numeral)

lemma guest_read_elsewhere:
  assumes "inj tr" and "{unat b..<unat b + len} \<inter> {unat a..<unat a + length bs} = {}"
  shows "guest_read tr (hmem (snd (guest_write tr a bs s))) b len = guest_read tr (hmem (snd s)) b len"
  by (rule guest_read_cong) (use assms in \<open>auto intro!: guest_write_other\<close>)

lemma store_ok:
  assumes ok: "vfu_ok vfu tr" and m: "vfu_mapped 0x10000 vfu" and inj: "inj tr" and hp: "heap_ok h"
    and q: "ioq 0 n" and val: "guest_read tr (hmem h) VAL_IOVA 15 = harness_val"
    and room: "kv_abs (n_ns n) harness_key \<noteq> None \<or> card (dom (kv_abs (n_ns n))) < unat (max_num_keys (n_ns n))"
  obtains n' h' rest where "io_cmd vfu tr 0 (kv_io_sqe NVME_CMD_KV_STORE 10 15) (n, h) = Some (n', h')" "ioq 1 n'"
    "heap_ok h'" "kv_abs (n_ns n') harness_key = Some (harness_val @ rest)"
proof -
  let ?sqe = "kv_io_sqe NVME_CMD_KV_STORE 10 15"
  define cmd where "cmd = kvcmd_of_sqe ?sqe"
  note C = kv_io_cmd [OF cmd_def]
  obtain h0 where h0: "(n, h0) = guest_write tr (IOSQ_IOVA + of_nat (64 * 0)) (encode_sqe ?sqe) (n, h)"
    by (metis guest_write_simps(1) fst_conv prod.collapse)
  have hp0: "heap_ok h0" using hp h0 guest_write_simps(2) by (metis snd_conv)
  have j: "(0 :: nat) < 7" by simp
  note F = ioq_fields [OF q j]
  have q': "io_queue 0x10000 1 n" using q by (simp add: ioq_def)
  have sqe: "encode_sqe ?sqe = guest_read tr (hmem h0) (sq_slot n 1) 64"
    using guest_read_write [OF inj, of IOSQ_IOVA "encode_sqe ?sqe" "(n, h)"] h0 [symmetric] F(1) by simp
  have opc: "sqe_opcode ?sqe = NVME_CMD_KV_STORE" by (simp add: kv_io_sqe_def)
  have kl: "unat (kl (kvc_cdw11 cmd)) \<le> 16" and hbs: "unat (kvc_hbs cmd) \<le> 4096" by (simp_all add: C)
  have fits: "prp_fits 0x10000 (kvc_prp1 cmd) (kvc_prp2 cmd) (unat (kvc_hbs cmd))" by (simp add: C prp_fits_def prp_page)
  have "guest_read tr (hmem h0) VAL_IOVA 15 = harness_val"
    using guest_read_elsewhere [OF inj, of VAL_IOVA 15 IOSQ_IOVA "encode_sqe ?sqe" "(n, h)"] h0 [symmetric] val by simp
  then have gb: "guest_bytes tr h0 cmd (unat (kvc_hbs cmd)) = harness_val"
    by (simp add: guest_bytes_def guest_read_def prp_addrs_def prp_page C)
  obtain n' h' where r: "ring vfu 1 (n, h0) = Some (n', h')" "io_queue 0x10000 1 n'" "heap_ok h'"
    "decode_cqe (guest_read tr (hmem h') (cq_slot n 1) 16) = completed n 1 (sqe_cid ?sqe) NVME_SUCCESS"
    "kv_abs (n_ns n') (cmd_key cmd) = Some (guest_bytes tr h0 cmd (unat (kvc_hbs cmd)) @
       drop (unat (kvc_hbs cmd)) (old_value (n_ns n) (cmd_key cmd)))" "pair_moved n 1 n'"
    by (rule ring_store [OF ok m inj hp0 q' sqe opc cmd_def kl hbs C(2) fits]) (use room in \<open>simp add: C\<close>)
  obtain n'' where "io_cmd vfu tr 0 ?sqe (n, h) = Some (n'', h')" "ioq (Suc 0) n''" "n_ns n'' = n_ns n'"
    by (rule io_cmd_ok [OF q j h0 r(1,2,6,4)])
  with that r(3,5) show ?thesis by (simp add: gb C(6))
qed

lemma retrieve_ok:
  assumes ok: "vfu_ok vfu tr" and m: "vfu_mapped 0x10000 vfu" and inj: "inj tr" and hp: "heap_ok h"
    and q: "ioq 1 n" and val: "kv_abs (n_ns n) harness_key = Some (harness_val @ rest)"
  obtains n' h' where "io_cmd vfu tr 1 (kv_io_sqe NVME_CMD_KV_RETRIEVE 11 4096) (n, h) = Some (n', h')" "ioq 2 n'"
    "heap_ok h'" "guest_read tr (hmem h') VAL_IOVA 15 = harness_val"
proof -
  let ?sqe = "kv_io_sqe NVME_CMD_KV_RETRIEVE 11 4096"
  define cmd where "cmd = kvcmd_of_sqe ?sqe"
  note C = kv_io_cmd [OF cmd_def]
  obtain h0 where h0: "(n, h0) = guest_write tr (IOSQ_IOVA + of_nat (64 * 1)) (encode_sqe ?sqe) (n, h)"
    by (metis guest_write_simps(1) fst_conv prod.collapse)
  have hp0: "heap_ok h0" using hp h0 guest_write_simps(2) by (metis snd_conv)
  have j: "(1 :: nat) < 7" by simp
  note F = ioq_fields [OF q j]
  have q': "io_queue 0x10000 1 n" using q by (simp add: ioq_def)
  have sqe: "encode_sqe ?sqe = guest_read tr (hmem h0) (sq_slot n 1) 64"
    using guest_read_write [OF inj, of "IOSQ_IOVA + of_nat (64 * 1)" "encode_sqe ?sqe" "(n, h)"] h0 [symmetric]
    unfolding F(1) by simp
  have opc: "sqe_opcode ?sqe = NVME_CMD_KV_RETRIEVE" by (simp add: kv_io_sqe_def)
  have kl: "unat (kl (kvc_cdw11 cmd)) \<le> 16" by (simp add: C)
  let ?as = "[0x5000..<0x5000 + 4096]"
  have as: "?as = prp_addrs (kvc_prp1 cmd) (kvc_prp2 cmd) (min (unat (kvc_hbs cmd)) 4096)"
    using prp_addrs_one [OF prp_page(2), of 0] by (simp add: C del: upt_rec_numeral)
  have fits: "prp_fits 0x10000 (kvc_prp1 cmd) (kvc_prp2 cmd) (min (unat (kvc_hbs cmd)) 4096)"
    by (simp add: C prp_fits_def prp_page)
  have dis: "set ?as \<inter> {unat (cq_slot n 1)..<unat (cq_slot n 1) + 16} = {}" unfolding F(2) set_upt by auto
  obtain n' h' where r: "ring vfu 1 (n, h0) = Some (n', h')" "io_queue 0x10000 1 n'" "heap_ok h'" "n_ns n' = n_ns n"
    "decode_cqe (guest_read tr (hmem h') (cq_slot n 1) 16) = completed n 1 (sqe_cid ?sqe) NVME_SUCCESS"
    "map (\<lambda>a. hmem h' (tr a)) ?as = take (unat (kvc_hbs cmd)) (harness_val @ rest)" "pair_moved n 1 n'"
    by (rule ring_retrieve [OF ok m inj hp0 q' sqe opc cmd_def kl _ as fits distinct_upt dis])
      (simp add: C val)
  have "guest_read tr (hmem h') VAL_IOVA 15 = take 15 (map (\<lambda>a. hmem h' (tr a)) ?as)"
    unfolding guest_read_def take_map take_upt by simp
  also have "\<dots> = harness_val" unfolding r(6) by (simp add: C harness_val_def)
  finally have v: "guest_read tr (hmem h') VAL_IOVA 15 = harness_val" .
  obtain n'' where "io_cmd vfu tr 1 ?sqe (n, h) = Some (n'', h')" "ioq (Suc 1) n''"
    by (rule io_cmd_ok [OF q j h0 r(1,2,7,5)])
  with that r(3) v show ?thesis by (simp add: numeral_2_eq_2)
qed

section \<open>The whole run\<close>

lemma guest_read_part:
  assumes "guest_read tr mem a len = buf" and "unat (a + b) = unat a + unat b" and "unat b + l \<le> len"
  shows "guest_read tr mem (a + b) l = take l (drop (unat b) buf)"
proof -
  have "[unat a + unat b..<unat a + unat b + l] = take l (drop (unat b) [unat a..<unat a + len])"
    using assms(3) by (simp add: drop_upt take_upt)
  then show ?thesis
    unfolding assms(1) [symmetric] guest_read_def assms(2) by (simp add: take_map drop_map)
qed

lemma take_drop_one: "i < length xs \<Longrightarrow> take (Suc 0) (drop i xs) = [xs ! i]"
  by (simp add: take_Suc hd_drop_conv_nth)

lemma harness_pages:
  "nvme_identify_data n (ucast (0x01 AND 0xff :: u32)) 0 = Inr (Some nvme_fill_id_ctrl)"
  "nvme_identify_data n (ucast (0x08 AND 0xff :: u32)) 0 = Inr (Some ((replicate 4096 0)[14 := 1]))"
  "nvme_identify_data n (ucast (0x1c AND 0xff :: u32)) 0 = Inr (Some ((replicate 4096 0)[0 := 1]))"
  by (simp_all add: nvme_identify_data_def Let_def)

text \<open>The five admin commands leave an I/O queue pair, and the stored pairs as before.\<close>

lemma harness_admin_ok:
  assumes ok: "vfu_ok vfu tr" and m: "vfu_mapped 0x10000 vfu" and inj: "inj tr" and hp: "heap_ok h"
    and adm0: "adm 0 n"
  obtains n5 h5 where "harness_admin vfu tr (n, h) = Some (n5, h5)"
    "ioq 0 n5" "heap_ok h5" "n_ns n5 = n_ns n"
proof -
  obtain n1 h1 where r1: "admin_cmd vfu tr 0 (identify_sqe 1 0 0x01) (n, h) = Some (n1, h1)" "adm (Suc 0) n1" "heap_ok h1"
    "n_ns n1 = n_ns n" "\<forall>i. i \<noteq> 0 \<longrightarrow> n_sq n1 ! i = n_sq n ! i \<and> n_cq n1 ! i = n_cq n ! i"
    "guest_read tr (hmem h1) DATA_IOVA 4096 = nvme_fill_id_ctrl"
    by (rule identify_ok [OF ok m inj hp adm0 _ harness_pages(1)]) simp_all
  have c1: "guest_read tr (hmem h1) (DATA_IOVA + 0x18) 15 = map of_char ''vfio-user-kvssd''"
    using guest_read_part [OF r1(6), where b = "0x18" and l = 15] arg_cong [where f = "take 15", OF id_ctrl_model] by simp
  have a1: "adm 1 n1" using r1(2) by simp
  obtain n2 h2 where r2: "admin_cmd vfu tr 1 create_cq_sqe (n1, h1) = Some (n2, h2)" "adm (Suc 1) n2" "heap_ok h2"
    "n_ns n2 = n_ns n1"
    "n_cq n2 ! 1 = zero_cq\<lparr>cq_dma := IOCQ_IOVA, cq_size := 8, cq_qid := 1, cq_phase := 1, cq_irq := 0, cq_enabled := True\<rparr>"
    by (rule create_cq_ok [OF ok m inj r1(3) a1]) simp_all
  have a2: "adm 2 n2" using r2(2) by (simp add: numeral_2_eq_2)
  obtain n3 h3 where r3: "admin_cmd vfu tr 2 create_sq_sqe (n2, h2) = Some (n3, h3)" "adm (Suc 2) n3" "heap_ok h3"
    "n_ns n3 = n_ns n2" "n_cq n3 ! 1 = n_cq n2 ! 1"
    "n_sq n3 ! 1 = zero_sq\<lparr>sq_dma := IOSQ_IOVA, sq_size := 8, sq_qid := 1, sq_cqid := 1, sq_enabled := True\<rparr>"
    by (rule create_sq_ok [OF ok m inj r2(3) a2]) (simp_all add: r2(5) [simplified])
  obtain g3 where g3: "guest_write tr DATA_IOVA (replicate 4096 0) (n3, h3) = (n3, g3)" "heap_ok g3"
    using guest_write_simps [of tr DATA_IOVA "replicate 4096 0" "(n3, h3)"] r3(3) by (metis fst_conv snd_conv prod.collapse)
  have a3: "adm 3 n3" using r3(2) by (simp add: numeral_3_eq_3 numeral_2_eq_2)
  obtain n4 h4 where r4: "admin_cmd vfu tr 3 (identify_sqe 4 1 0x08) (n3, g3) = Some (n4, h4)" "adm (Suc 3) n4" "heap_ok h4"
    "n_ns n4 = n_ns n3" "\<forall>i. i \<noteq> 0 \<longrightarrow> n_sq n4 ! i = n_sq n3 ! i \<and> n_cq n4 ! i = n_cq n3 ! i"
    "guest_read tr (hmem h4) DATA_IOVA 4096 = (replicate 4096 0)[14 := 1]"
    by (rule identify_ok [OF ok m inj g3(2) a3 _ harness_pages(2)]) simp_all
  have c4: "guest_read tr (hmem h4) (DATA_IOVA + 14) 1 = [1]"
    using guest_read_part [OF r4(6), where b = 14 and l = 1] by (simp add: take_drop_one)
  obtain g4 where g4: "guest_write tr DATA_IOVA (replicate 4096 0) (n4, h4) = (n4, g4)" "heap_ok g4"
    using guest_write_simps [of tr DATA_IOVA "replicate 4096 0" "(n4, h4)"] r4(3) by (metis fst_conv snd_conv prod.collapse)
  have a4: "adm 4 n4" using r4(2) by (simp add: numeral_eq_Suc)
  obtain n5 h5 where r5: "admin_cmd vfu tr 4 (identify_sqe 5 1 0x1c) (n4, g4) = Some (n5, h5)" "adm (Suc 4) n5" "heap_ok h5"
    "n_ns n5 = n_ns n4" "\<forall>i. i \<noteq> 0 \<longrightarrow> n_sq n5 ! i = n_sq n4 ! i \<and> n_cq n5 ! i = n_cq n4 ! i"
    "guest_read tr (hmem h5) DATA_IOVA 4096 = (replicate 4096 0)[0 := 1]"
    by (rule identify_ok [OF ok m inj g4(2) a4 _ harness_pages(3)]) simp_all
  have "guest_read tr (hmem h5) DATA_IOVA 1 = [1]"
    using guest_read_part [OF r5(6), where b = 0 and l = 1] take_drop_one [of 0 "(replicate 4096 0)[0 := 1 :: u8]"] by simp
  moreover have "ioq 0 n5" by (rule ioq_created [OF r5(2)]) (use r2(5) r3(5,6) r4(5) r5(5) in simp_all)
  ultimately show ?thesis
    using that [of n5 h5] r1(1,4) c1 r2(1,4) r3(1,4) g3(1) r4(1,4) c4 g4(1) r5(1,3,4) by (simp add: harness_admin_def)
qed

lemma harness_kv_ok:
  assumes ok: "vfu_ok vfu tr" and m: "vfu_mapped 0x10000 vfu" and inj: "inj tr" and hp: "heap_ok h" and q: "ioq 0 n"
    and room: "kv_abs (n_ns n) harness_key \<noteq> None \<or> card (dom (kv_abs (n_ns n))) < unat (max_num_keys (n_ns n))"
  shows "harness_kv vfu tr (n, h) \<noteq> None"
proof -
  let ?z = "guest_write tr VAL_IOVA (replicate 4096 0)"
  obtain h1 where h1: "guest_write tr VAL_IOVA harness_val (?z (n, h)) = (n, h1)" "heap_ok h1"
    using guest_write_simps [of tr VAL_IOVA] hp by (metis fst_conv snd_conv prod.collapse)
  have "length harness_val = 15" by (simp add: harness_val_def)
  then have v: "guest_read tr (hmem h1) VAL_IOVA 15 = harness_val"
    using guest_read_write [OF inj, of VAL_IOVA harness_val "?z (n, h)"] h1(1) by simp
  obtain n2 h2 rest where r: "io_cmd vfu tr 0 (kv_io_sqe NVME_CMD_KV_STORE 10 15) (n, h1) = Some (n2, h2)" "ioq 1 n2"
    "heap_ok h2" "kv_abs (n_ns n2) harness_key = Some (harness_val @ rest)"
    by (rule store_ok [OF ok m inj h1(2) q v room])
  obtain h3 where h3: "?z (n2, h2) = (n2, h3)" "heap_ok h3"
    using guest_write_simps [of tr VAL_IOVA] r(3) by (metis fst_conv snd_conv prod.collapse)
  obtain n4 h4 where "io_cmd vfu tr 1 (kv_io_sqe NVME_CMD_KV_RETRIEVE 11 4096) (n2, h3) = Some (n4, h4)"
    "guest_read tr (hmem h4) VAL_IOVA 15 = harness_val"
    by (rule retrieve_ok [OF ok m inj h3(2) r(2,4)])
  with h1(1) r(1) h3(1) show ?thesis by (simp add: harness_kv_def)
qed

lemma harness_ok:
  assumes ok: "vfu_ok vfu tr" and m: "vfu_mapped 0x10000 vfu" and inj: "inj tr" and hp: "heap_ok h"
    and inv: "ctrl_inv n" and off: "n_cc n = 0"
    and room: "kv_abs (n_ns n) harness_key \<noteq> None \<or> card (dom (kv_abs (n_ns n))) < unat (max_num_keys (n_ns n))"
  shows "harness vfu tr (n, h) \<noteq> None"
proof -
  obtain n1 where e: "harness_enable vfu (n, h) = Some (n1, h)" "adm 0 n1" "n_ns n1 = n_ns n"
    by (rule harness_enable_ok [OF inv off])
  obtain n2 h2 where a: "harness_admin vfu tr (n1, h) = Some (n2, h2)" "ioq 0 n2" "heap_ok h2" "n_ns n2 = n_ns n1"
    by (rule harness_admin_ok [OF ok m inj hp e(2)])
  have "harness_kv vfu tr (n2, h2) \<noteq> None"
    by (rule harness_kv_ok [OF ok m inj a(3,2)]) (use room e(3) a(4) in simp)
  with e(1) a(1) show ?thesis by (simp add: harness_def)
qed

end
