(* ===== verification/AdminRing.thy ===== *)
theory AdminRing
  imports Harness
begin

text \<open>
  The admin queue pair of a client with sixteen entries in its region: one command after the other,
  and batches of commands that a single doorbell announces. The ring predicate \<open>arm\<close> ties the next
  slot and the phase that the client expects to the state of the device; every completed command
  moves both on by one, through any number of rounds.
\<close>

section \<open>The admin ring\<close>

text \<open>The ring of sixteen entries with the next slot \<open>k\<close> and the phase \<open>p\<close> of the next completion.\<close>

definition arm :: "u16 \<Rightarrow> u8 \<Rightarrow> nvme_ctrl \<Rightarrow> bool" where
  "arm k p n \<longleftrightarrow> ctrl_inv n \<and> n_csts n = 1 \<and> n_cc n = 0x460001 \<and>
     sq_dma (n_sq n ! 0) = ASQ_IOVA \<and> sq_size (n_sq n ! 0) = 16 \<and> sq_head (n_sq n ! 0) = k \<and>
     sq_enabled (n_sq n ! 0) \<and> sq_cqid (n_sq n ! 0) = 0 \<and>
     cq_dma (n_cq n ! 0) = ACQ_IOVA \<and> cq_size (n_cq n ! 0) = 16 \<and> cq_tail (n_cq n ! 0) = k \<and>
     cq_phase (n_cq n ! 0) = p \<and> cq_enabled (n_cq n ! 0) \<and> 0 \<le> cq_irq (n_cq n ! 0)"

definition ring_next :: "u16 \<Rightarrow> u16" where
  "ring_next k = ucast ((ucast k + 1 :: u32) mod 16)"

lemma word_small_cases:
  assumes "unat (k :: u16) < 16"
  shows "k \<in> {0, 1, 2, 3, 4, 5, 6, 7, 8, 9, 10, 11, 12, 13, 14, 15}"
proof -
  have "[0..<16] = [0, 1, 2, 3, 4, 5, 6, 7, 8, 9, 10, 11, 12, 13, 14, 15 :: nat]" by (simp add: upt_rec)
  then have s: "{0..<16} = set [0, 1, 2, 3, 4, 5, 6, 7, 8, 9, 10, 11, 12, 13, 14, 15 :: nat]" by (metis set_upt)
  have "unat k \<in> {0..<16}" using assms by simp
  then have "word_of_nat (unat k) \<in> (word_of_nat :: nat \<Rightarrow> u16) ` {0..<16}" by (rule imageI)
  then show ?thesis unfolding s by simp
qed

lemma cq_advance_sixteen:
  assumes "unat (cq_tail cq) < 16" and "cq_size cq = 16"
  shows "cq_advance cq = cq\<lparr>cq_tail := ring_next (cq_tail cq),
    cq_phase := if ring_next (cq_tail cq) = 0 then cq_phase cq XOR 1 else cq_phase cq\<rparr>"
  using word_small_cases [OF assms(1)] assms(2) by (auto simp: cq_advance_def Let_def ring_next_def)

lemma ring_next_slots:
  assumes "unat k < 16"
  shows "unat (ACQ_IOVA + ucast k * 16 :: u64) = 0x1000 + 16 * unat k" "ucast (ucast (ring_next k) :: u32) = ring_next k"
proof -
  show "unat (ACQ_IOVA + ucast k * 16 :: u64) = 0x1000 + 16 * unat k"
    using ring_slot_unat [of ACQ_IOVA 16 16 k] assms by simp
  show "ucast (ucast (ring_next k) :: u32) = ring_next k"
    by (rule bit_word_eqI) (simp add: bit_simps)
qed

lemma arm_fields:
  assumes "arm k p n"
  shows "ctrl_inv n" "n_csts n = 1" "n_cc n = 0x460001" "sq_dma (n_sq n ! 0) = ASQ_IOVA" "sq_size (n_sq n ! 0) = 16"
    "sq_head (n_sq n ! 0) = k" "sq_enabled (n_sq n ! 0)" "sq_cqid (n_sq n ! 0) = 0" "cq_dma (n_cq n ! 0) = ACQ_IOVA"
    "cq_size (n_cq n ! 0) = 16" "cq_tail (n_cq n ! 0) = k" "cq_phase (n_cq n ! 0) = p" "cq_enabled (n_cq n ! 0)"
    "0 \<le> cq_irq (n_cq n ! 0)" "length (n_sq n) = 64" "length (n_cq n) = 64" "unat k < 16" "p = 0 \<or> p = 1"
proof -
  have c: "ctrl_inv n" using assms by (simp add: arm_def)
  note D = ctrl_invD [OF c]
  have "sq_wf (n_sq n ! 0)" "cq_wf (n_cq n ! 0)" using D(1,2,4,5) by (simp_all add: list_all_length)
  then show "unat k < 16" "p = 0 \<or> p = 1" using assms by (simp_all add: arm_def sq_wf_def cq_wf_def)
qed (use assms ctrl_invD(1,2) [of n] in \<open>simp_all add: arm_def\<close>)


text \<open>One command: the engine executes it, and its completion is in the slot of the command with the phase of the ring.\<close>

definition ring_phase :: "u16 \<Rightarrow> u8 \<Rightarrow> u8" where
  "ring_phase k p = (if ring_next k = 0 then p XOR 1 else p)"

definition arm_exec :: "u16 \<Rightarrow> nvme_ctrl \<Rightarrow> nvme_ctrl" where
  "arm_exec k n = n\<lparr>n_sq := (n_sq n)[0 := (n_sq n ! 0)\<lparr>sq_head := ring_next k\<rparr>]\<rparr>"

definition arm_cqe :: "u16 \<Rightarrow> u8 \<Rightarrow> NvmeSqe \<Rightarrow> u16 \<Rightarrow> u32 \<Rightarrow> NvmeCqe" where
  "arm_cqe k p sqe st c = \<lparr>cqe_cdw0 = c, cqe_cdw1 = 0, cqe_sq_head = ring_next k, cqe_sq_id = 0,
     cqe_cid = sqe_cid sqe, cqe_status = push_bit 1 st OR ucast p\<rparr>"

lemma arm_step:
  assumes ok: "vfu_ok vfu tr" and m: "vfu_mapped 0x20000 vfu" and hp: "heap_ok h" and arm: "arm k p n"
    and sqe: "encode_sqe sqe = guest_read tr (hmem h) (ASQ_IOVA + ucast k * 64) 64"
    and opc: "sqe_opcode sqe \<noteq> NVME_ADM_ASYNC_EVENT"
  obtains n' h' st c n2 h1 h2 where "nvme_process_one vfu 0 (n, h) = Inr (True, n', h')"
    "nvme_admin_cmd vfu (arm_exec k n) sqe h1 = Inr (st, c, n2, h2)" "hmem h1 = hmem h" "heap_ok h1"
    "hmem h' = mem_writes (hmem h2) (map tr [unat (ACQ_IOVA + ucast k * 16 :: u64)..<unat (ACQ_IOVA + ucast k * 16 :: u64) + 16])
       (encode_cqe (arm_cqe k p sqe st c))"
    "heap_ok h'" "arm (ring_next k) (ring_phase k p) n'" "kv_abs (n_ns n') = kv_abs (n_ns n)"
proof -
  note F = arm_fields [OF arm]
  have live: "sq_live 0 n" using F(1,2,7) by (simp add: sq_live_def)
  have g: "sq_fits 0x20000 (n_sq n ! 0)" "cq_fits 0x20000 (n_cq n ! 0)"
    "ring_next k = ucast ((ucast (sq_head (n_sq n ! 0)) + 1 :: u32) mod sq_size (n_sq n ! 0))"
    "ASQ_IOVA + ucast k * 64 = sq_dma (n_sq n ! 0) + ucast (sq_head (n_sq n ! 0)) * 64"
    "ACQ_IOVA + ucast k * 16 = cq_dma (n_cq n ! 0) + ucast (cq_tail (n_cq n ! 0)) * 16"
    unfolding sq_fits_def cq_fits_def ring_next_def by (simp_all add: F)
  have ph: "ucast (cq_phase (n_cq n ! 0) AND 1) = (ucast p :: u16)" using F(18) by (auto simp: F(12))
  obtain n' h' st c n2 h1 h2 where r: "nvme_process_one vfu 0 (n, h) = Inr (True, n', h')" "heap_ok h'" "ctrl_inv n'"
    "nvme_admin_cmd vfu (arm_exec k n) sqe h1 = Inr (st, c, n2, h2)" "hmem h1 = hmem h" "heap_ok h1"
    "n' = n2\<lparr>n_cq := (n_cq n2)[0 := cq_advance (n_cq n ! 0)]\<rparr>" "ctrl_inv n2" "admin_frame (arm_exec k n) n2"
    "hmem h' = mem_writes (hmem h2) (map tr [unat (ACQ_IOVA + ucast k * 16 :: u64)..<unat (ACQ_IOVA + ucast k * 16 :: u64) + 16])
      (encode_cqe \<lparr>cqe_cdw0 = c, cqe_cdw1 = 0, cqe_sq_head = ring_next k, cqe_sq_id = 0, cqe_cid = sqe_cid sqe,
       cqe_status = push_bit 1 st OR ucast (cq_phase (n_cq n ! 0) AND 1)\<rparr>)"
    by (rule step_admin [OF ok m hp live refl g(1) F(8) g(3,4) sqe [unfolded guest_read_def] opc refl F(13,14) g(2,5) arm_exec_def])
  have adv: "cq_advance (n_cq n ! 0) = (n_cq n ! 0)\<lparr>cq_tail := ring_next k, cq_phase := ring_phase k p\<rparr>"
    using cq_advance_sixteen [of "n_cq n ! 0"] F(10-12,17) by (simp add: ring_phase_def)
  have fr: "n_csts n2 = 1" "n_cc n2 = 0x460001" "n_sq n2 ! 0 = (n_sq n ! 0)\<lparr>sq_head := ring_next k\<rparr>"
    "kv_abs (n_ns n2) = kv_abs (n_ns n)" "length (n_cq n2) = 64"
    using r(9) F ctrl_invD(2) [OF r(8)] by (simp_all add: admin_frame_def arm_exec_def)
  have "arm (ring_next k) (ring_phase k p) n'"
    using r(3) F fr unfolding arm_def r(7) adv by simp
  then show ?thesis
    using that [of n' h' h1 st c n2 h2] r(1,2,4-6) r(10) [unfolded ph, folded arm_cqe_def] fr(4) by (simp add: r(7))
qed

text \<open>The tail doorbell runs the engine once per announced entry.\<close>

lemma ring_next_unat: "unat (ring_next k) = Suc (unat k) mod 16"
proof -
  have "unat (ucast k + 1 :: u32) = Suc (unat k)"
    using unsigned_less [of k, where 'a = nat] by (simp add: unat_word_ariths unat_ucast_up)
  then show ?thesis by (simp add: ring_next_def unat_ucast_up unat_mod unsigned_ucast_eq take_bit_nat_eq_self)
qed

lemma arm_tail:
  assumes "arm k p n"
  shows "arm k p (n\<lparr>n_sq := (n_sq n)[0 := (n_sq n ! 0)\<lparr>sq_tail := t\<rparr>]\<rparr>)"
  using assms ctrl_inv_doorbell(2) [of n 0 t] ctrl_invD(1) [of n] by (simp add: arm_def)

lemma arm_doorbell:
  assumes arm: "arm k p n" and t: "unat t < 16"
    and run: "run_steps (nvme_process_one vfu 0) (ring_dist 16 (unat k) (unat t))
      (n\<lparr>n_sq := (n_sq n)[0 := (n_sq n ! 0)\<lparr>sq_tail := t\<rparr>]\<rparr>, h) = Inr (n', h')"
  shows "reg_wr32 vfu DB_ASQ_TAIL (ucast t) (n, h) = Some (n', h')"
proof -
  let ?nt = "n\<lparr>n_sq := (n_sq n)[0 := (n_sq n ! 0)\<lparr>sq_tail := t\<rparr>]\<rparr>"
  note F = arm_fields [OF arm] and T = arm_fields [OF arm_tail [OF arm, of t]]
  have lt: "sq_live 0 ?nt" using T(1,2,7) by (simp add: sq_live_def)
  have "nvme_process_sq_loop vfu 0 (?nt, h) = Some (Inr (n', h'))"
    using sq.loop_runs [of 0 "(?nt, h)" vfu] lt run t F(5,6,15) by simp
  then have "nvme_process_sq vfu 0 ?nt h = Some (Inr (n', h'))" using T(7) by (simp add: nvme_process_sq_def)
  moreover have "ucast (ucast t :: u32) = t" by (rule bit_word_eqI) (simp add: bit_simps)
  ultimately show ?thesis using reg_wr32_doorbell [of 0 vfu "ucast t" n h] by simp
qed

lemma arm_submit:
  assumes ok: "vfu_ok vfu tr" and m: "vfu_mapped 0x20000 vfu" and inj: "inj tr" and hp: "heap_ok h" and arm: "arm k p n"
    and sqe: "encode_sqe sqe = guest_read tr (hmem h) (ASQ_IOVA + ucast k * 64) 64"
    and opc: "sqe_opcode sqe \<noteq> NVME_ADM_ASYNC_EVENT"
  obtains n' h' n1 st c n2 h1 h2 where "reg_wr32 vfu DB_ASQ_TAIL (ucast (ring_next k)) (n, h) = Some (n', h')"
    "nvme_admin_cmd vfu n1 sqe h1 = Inr (st, c, n2, h2)" "heap_ok h1"
    "decode_cqe (guest_read tr (hmem h') (ACQ_IOVA + ucast k * 16) 16) = arm_cqe k p sqe st c"
    "heap_ok h'" "arm (ring_next k) (ring_phase k p) n'" "kv_abs (n_ns n') = kv_abs (n_ns n)"
proof -
  let ?nt = "n\<lparr>n_sq := (n_sq n)[0 := (n_sq n ! 0)\<lparr>sq_tail := ring_next k\<rparr>]\<rparr>"
  obtain n' h' st c n2 h1 h2 where r: "nvme_process_one vfu 0 (?nt, h) = Inr (True, n', h')"
    "nvme_admin_cmd vfu (arm_exec k ?nt) sqe h1 = Inr (st, c, n2, h2)" "heap_ok h1"
    "hmem h' = mem_writes (hmem h2) (map tr [unat (ACQ_IOVA + ucast k * 16 :: u64)..<unat (ACQ_IOVA + ucast k * 16 :: u64) + 16])
       (encode_cqe (arm_cqe k p sqe st c))"
    "heap_ok h'" "arm (ring_next k) (ring_phase k p) n'" "kv_abs (n_ns n') = kv_abs (n_ns ?nt)"
    by (rule arm_step [OF ok m hp arm_tail [OF arm] sqe opc])
  have k: "unat k < 16" by (rule arm_fields(17) [OF arm])
  have "ring_dist 16 (unat k) (unat (ring_next k)) = 1"
    using word_small_cases [OF k] by (auto simp: ring_next_unat ring_dist_def)
  then have "reg_wr32 vfu DB_ASQ_TAIL (ucast (ring_next k)) (n, h) = Some (n', h')"
    by (intro arm_doorbell [OF arm]) (simp_all add: r(1) ring_next_unat)
  moreover have "guest_read tr (hmem h') (ACQ_IOVA + ucast k * 16) 16 = encode_cqe (arm_cqe k p sqe st c)"
    unfolding r(4) by (rule guest_read_mem_writes [OF inj]) simp
  ultimately show ?thesis
    using that [of n' h' "arm_exec k ?nt" h1 st c n2 h2] r(2,3,5-7) by (simp add: decode_encode_cqe)
qed

section \<open>Batches\<close>

text \<open>
  Slots and phase along the ring, the entries that a batch occupies and the completions that answer
  it with success. Batches of at most fifteen commands never meet their own tail.
\<close>

fun slots :: "nat \<Rightarrow> u16 \<Rightarrow> u16 list" where
  "slots 0 k = []"
| "slots (Suc b) k = k # slots b (ring_next k)"

fun ring_after :: "nat \<Rightarrow> u16 \<times> u8 \<Rightarrow> u16 \<times> u8" where
  "ring_after 0 kp = kp"
| "ring_after (Suc b) (k, p) = ring_after b (ring_next k, ring_phase k p)"

fun entries :: "(nat \<Rightarrow> nat) \<Rightarrow> (nat \<Rightarrow> u8) \<Rightarrow> u16 \<Rightarrow> NvmeSqe list \<Rightarrow> bool" where
  "entries tr mem k [] = True"
| "entries tr mem k (e # es) \<longleftrightarrow>
     encode_sqe e = guest_read tr mem (ASQ_IOVA + ucast k * 64) 64 \<and> entries tr mem (ring_next k) es"

fun answers :: "(nat \<Rightarrow> nat) \<Rightarrow> (nat \<Rightarrow> u8) \<Rightarrow> u16 \<Rightarrow> u8 \<Rightarrow> nat \<Rightarrow> bool" where
  "answers tr mem k p 0 = True"
| "answers tr mem k p (Suc b) \<longleftrightarrow>
     cqe_status (decode_cqe (guest_read tr mem (ACQ_IOVA + ucast k * 16) 16)) = ucast p \<and>
     answers tr mem (ring_next k) (ring_phase k p) b"

lemma ring_after_slot:
  assumes "unat k < 16"
  shows "unat (fst (ring_after b (k, p))) = (unat k + b) mod 16"
  using assms by (induction b arbitrary: k p) (simp_all add: ring_next_unat mod_simps)

lemma slots_unat:
  assumes "unat k < 16"
  shows "map unat (slots b k) = map (\<lambda>i. (unat k + i) mod 16) [0..<b]"
  using assms
proof (induction b arbitrary: k)
  case (Suc b)
  have "map unat (slots b (ring_next k)) = map (\<lambda>i. (unat k + Suc i) mod 16) [0..<b]"
    using Suc.IH [of "ring_next k"] by (simp add: ring_next_unat mod_simps)
  then show ?case using Suc.prems by (simp add: upt_conv_Cons map_Suc_upt [symmetric] comp_def del: upt_Suc)
qed simp

lemma mod_window:
  fixes a i j :: nat
  assumes "i < j" "j < m + i"
  shows "(a + i) mod m \<noteq> (a + j) mod m"
proof
  assume "(a + i) mod m = (a + j) mod m"
  then have "m dvd (a + j) - (a + i)" using assms(1) mod_eq_dvd_iff_nat [of "a + i" "a + j" m] by auto
  then have "m dvd j - i" by simp
  then show False using assms by (auto dest: dvd_imp_le)
qed

lemma ring_dist_ahead: "k < 16 \<Longrightarrow> b < 16 \<Longrightarrow> ring_dist 16 k ((k + b) mod 16) = b"
  by (cases "k + b < 16") (simp_all add: ring_dist_def mod_if [of "k + b"])

lemma slots_mem:
  assumes "unat k < 16" and "j \<in> set (slots b k)"
  obtains i where "i < b" "unat j = (unat k + i) mod 16"
proof -
  have "unat j \<in> set (map (\<lambda>i. (unat k + i) mod 16) [0..<b])"
    unfolding slots_unat [OF assms(1), of b, symmetric] using assms(2) by simp
  then show ?thesis using that by auto
qed

lemma slots_avoid:
  assumes k: "unat k < 16"
  shows "b < 16 \<Longrightarrow> fst (ring_after b (k, p)) \<notin> set (slots b k)"
    and "b < 16 \<Longrightarrow> k \<notin> set (slots b (ring_next k))"
proof -
  show "fst (ring_after b (k, p)) \<notin> set (slots b k)" if "b < 16"
  proof
    assume "fst (ring_after b (k, p)) \<in> set (slots b k)"
    then obtain i where "i < b" "(unat k + b) mod 16 = (unat k + i) mod 16"
      using slots_mem [OF k] ring_after_slot [OF k] by metis
    with mod_window [of i b 16 "unat k"] that show False by simp
  qed
  show "k \<notin> set (slots b (ring_next k))" if "b < 16"
  proof
    assume "k \<in> set (slots b (ring_next k))"
    then obtain i where i: "i < b" "unat k = (unat (ring_next k) + i) mod 16"
      using slots_mem [of "ring_next k" k b] by (auto simp: ring_next_unat)
    then have "(unat k + 0) mod 16 = (unat k + Suc i) mod 16" using k by (simp add: ring_next_unat mod_simps)
    with mod_window [of 0 "Suc i" 16 "unat k"] i(1) that show False by simp
  qed
qed

text \<open>Entries are below the completion queue; a completion occupies the sixteen bytes of its slot.\<close>

definition cqe_at :: "u16 \<Rightarrow> nat set" where
  "cqe_at k = {0x1000 + 16 * unat k..<0x1010 + 16 * unat k}"

lemma cqe_at_simps:
  assumes "unat k < 16"
  shows "{unat (ACQ_IOVA + ucast k * 16 :: u64)..<unat (ACQ_IOVA + ucast k * 16 :: u64) + 16} = cqe_at k"
    and "cqe_at k \<subseteq> {0x1000..<0x1100}"
  using assms by (auto simp: cqe_at_def ring_next_slots(1))

lemma cqe_at_disjoint: "j \<noteq> k \<Longrightarrow> cqe_at j \<inter> cqe_at k = {}"
proof -
  assume "j \<noteq> k"
  then have "unat j < unat k \<or> unat k < unat j" using word_unat_eq_iff linorder_neq_iff by blast
  then show ?thesis by (auto simp: cqe_at_def)
qed

lemma sqe_slot_unat: "unat (k :: u16) < 16 \<Longrightarrow> unat (ASQ_IOVA + ucast k * 64 :: u64) = 64 * unat k"
  using ring_slot_unat [of 0 64 16 k] by simp

lemma entries_cong:
  assumes "unat k < 16" and "\<And>a. a < 0x400 \<Longrightarrow> mem' (tr a) = mem (tr a)"
  shows "entries tr mem' k es = entries tr mem k es"
  using assms(1)
proof (induction es arbitrary: k)
  case (Cons e es)
  have "guest_read tr mem' (ASQ_IOVA + ucast k * 64) 64 = guest_read tr mem (ASQ_IOVA + ucast k * 64) 64"
    by (rule guest_read_cong) (unfold sqe_slot_unat [OF Cons.prems], use assms(2) Cons.prems in simp)
  then show ?case using Cons by (simp add: ring_next_unat)
qed simp

text \<open>Identify Controller into the third page of the region: it succeeds, and writes only that page.\<close>

definition page_identify :: "NvmeSqe \<Rightarrow> bool" where
  "page_identify sqe \<longleftrightarrow> sqe_opcode sqe = 0x06 \<and> sqe_cdw10 sqe = 1 \<and> sqe_prp1 sqe = 0x2000 \<and> sqe_prp2 sqe = 0 \<and> sqe_cdw11 sqe = 0"

lemma page_identify_ok:
  assumes ok: "vfu_ok vfu tr" and m: "vfu_mapped 0x20000 vfu" and inj: "inj tr" and hp: "heap_ok h"
    and sqe: "page_identify sqe" and ex: "nvme_admin_cmd vfu n sqe h = Inr (st, c, n', h')"
  shows "st = NVME_SUCCESS" and "a \<notin> {0x2000..<0x3000} \<Longrightarrow> hmem h' (tr a) = hmem h (tr a)"
proof -
  have fits: "prp_fits 0x20000 0x2000 0 4096" by (simp add: prp_fits_def prp_first_def)
  obtain b h2 where x: "nvme_prp_xfer vfu 0x2000 0 nvme_fill_id_ctrl 4096 True h = (0, b, h2)"
    using vfu_mapped_prp [OF ok m hp _ fits, of nvme_fill_id_ctrl True] by (metis order_refl prod.collapse)
  have r: "st = NVME_SUCCESS" "h' = h2"
    using ex x sqe harness_pages(1) [of n]
    by (auto simp: nvme_admin_cmd_def nvme_admin_identify_def page_identify_def Let_def split: if_splits)
  show "st = NVME_SUCCESS" by (rule r(1))
  have one: "prp_first 0x2000 4096 = 4096" by (simp add: prp_first_def)
  have "hmem h' = mem_writes (hmem h) (map tr [unat (0x2000 :: u64)..<unat (0x2000 :: u64) + 4096]) nvme_fill_id_ctrl"
    using nvme_prp_xfer_to_host(3) [OF ok _ x] unfolding prp_addrs_one [OF one] r(2) by (simp del: upt_rec_numeral)
  then show "hmem h' (tr a) = hmem h (tr a)" if "a \<notin> {0x2000..<0x3000}"
    using mem_writes_guest_other [OF inj, of a "0x2000" 4096] that by (simp del: upt_rec_numeral)
qed

text \<open>
  A batch of such commands: every one is executed, and every one is answered with success and the
  phase of its slot; memory outside that page and the slots of the answers is as before.
\<close>

lemma batch_step:
  assumes ok: "vfu_ok vfu tr" and m: "vfu_mapped 0x20000 vfu" and inj: "inj tr" and hp: "heap_ok h" and arm: "arm k p n"
    and sqe: "encode_sqe sqe = guest_read tr (hmem h) (ASQ_IOVA + ucast k * 64) 64" "page_identify sqe"
  obtains n' h' where "nvme_process_one vfu 0 (n, h) = Inr (True, n', h')" "heap_ok h'"
    "arm (ring_next k) (ring_phase k p) n'" "kv_abs (n_ns n') = kv_abs (n_ns n)"
    "cqe_status (decode_cqe (guest_read tr (hmem h') (ACQ_IOVA + ucast k * 16) 16)) = ucast p"
    "\<forall>a. a \<notin> {0x2000..<0x3000} \<union> cqe_at k \<longrightarrow> hmem h' (tr a) = hmem h (tr a)"
proof -
  let ?a = "ACQ_IOVA + ucast k * 16 :: u64"
  have k: "unat k < 16" by (rule arm_fields(17) [OF arm])
  have opc: "sqe_opcode sqe \<noteq> NVME_ADM_ASYNC_EVENT" using sqe(2) by (simp add: page_identify_def)
  obtain n' h' st c n2 h1 h2 where r: "nvme_process_one vfu 0 (n, h) = Inr (True, n', h')"
    "nvme_admin_cmd vfu (arm_exec k n) sqe h1 = Inr (st, c, n2, h2)" "hmem h1 = hmem h" "heap_ok h1"
    "hmem h' = mem_writes (hmem h2) (map tr [unat ?a..<unat ?a + 16]) (encode_cqe (arm_cqe k p sqe st c))"
    "heap_ok h'" "arm (ring_next k) (ring_phase k p) n'" "kv_abs (n_ns n') = kv_abs (n_ns n)"
    by (rule arm_step [OF ok m hp arm sqe(1) opc])
  note P = page_identify_ok [OF ok m inj r(4) sqe(2) r(2)]
  have "guest_read tr (hmem h') ?a 16 = encode_cqe (arm_cqe k p sqe st c)"
    unfolding r(5) by (rule guest_read_mem_writes [OF inj]) simp
  then have "cqe_status (decode_cqe (guest_read tr (hmem h') ?a 16)) = ucast p"
    by (simp add: decode_encode_cqe arm_cqe_def P(1))
  moreover have "hmem h' (tr a) = hmem h (tr a)" if "a \<notin> {0x2000..<0x3000} \<union> cqe_at k" for a
    using mem_writes_guest_other [OF inj, of a ?a 16] that P(2) cqe_at_simps(1) [OF k] by (simp add: r(3,5))
  ultimately show ?thesis using that r(1,6-8) by blast
qed

lemma batch_ok:
  assumes ok: "vfu_ok vfu tr" and m: "vfu_mapped 0x20000 vfu" and inj: "inj tr"
    and "heap_ok h" and "arm k p n" and "list_all page_identify es" and "entries tr (hmem h) k es" and "length es \<le> 16"
  shows "\<exists>n' h'. run_steps (nvme_process_one vfu 0) (length es) (n, h) = Inr (n', h') \<and> heap_ok h' \<and>
    case_prod arm (ring_after (length es) (k, p)) n' \<and> kv_abs (n_ns n') = kv_abs (n_ns n) \<and>
    answers tr (hmem h') k p (length es) \<and>
    (\<forall>a. a \<notin> {0x2000..<0x3000} \<union> \<Union> (cqe_at ` set (slots (length es) k)) \<longrightarrow> hmem h' (tr a) = hmem h (tr a))"
  using assms(4-)
proof (induction es arbitrary: n h k p)
  case (Cons e es)
  have k: "unat k < 16" by (rule arm_fields(17) [OF Cons.prems(2)])
  have e: "encode_sqe e = guest_read tr (hmem h) (ASQ_IOVA + ucast k * 64) 64" "page_identify e" using Cons.prems(3,4) by simp_all
  obtain n1 h1 where r: "nvme_process_one vfu 0 (n, h) = Inr (True, n1, h1)" "heap_ok h1"
    "arm (ring_next k) (ring_phase k p) n1" "kv_abs (n_ns n1) = kv_abs (n_ns n)"
    "cqe_status (decode_cqe (guest_read tr (hmem h1) (ACQ_IOVA + ucast k * 16) 16)) = ucast p"
    "\<forall>a. a \<notin> {0x2000..<0x3000} \<union> cqe_at k \<longrightarrow> hmem h1 (tr a) = hmem h (tr a)"
    by (rule batch_step [OF ok m inj Cons.prems(1,2) e])
  have "hmem h1 (tr a) = hmem h (tr a)" if "a < 0x400" for a
    using r(6) that by (simp add: cqe_at_def)
  then have "entries tr (hmem h1) (ring_next k) es"
    using Cons.prems(4) entries_cong [of "ring_next k" "hmem h1" tr "hmem h" es] by (simp add: ring_next_unat)
  then obtain n' h' where i: "run_steps (nvme_process_one vfu 0) (length es) (n1, h1) = Inr (n', h')" "heap_ok h'"
    "case_prod arm (ring_after (length es) (ring_next k, ring_phase k p)) n'" "kv_abs (n_ns n') = kv_abs (n_ns n1)"
    "answers tr (hmem h') (ring_next k) (ring_phase k p) (length es)"
    "\<forall>a. a \<notin> {0x2000..<0x3000} \<union> \<Union> (cqe_at ` set (slots (length es) (ring_next k))) \<longrightarrow> hmem h' (tr a) = hmem h1 (tr a)"
    using Cons.IH [OF r(2,3)] Cons.prems(3,5) by auto
  have page: "{0x2000..<0x3000} \<inter> cqe_at k = {}" using k by (auto simp: cqe_at_def)
  have "k \<notin> set (slots (length es) (ring_next k))" using slots_avoid(2) [OF k] Cons.prems(5) by simp
  then have "cqe_at k \<inter> \<Union> (cqe_at ` set (slots (length es) (ring_next k))) = {}" using cqe_at_disjoint [of k] by fastforce
  then have "guest_read tr (hmem h') (ACQ_IOVA + ucast k * 16) 16 = guest_read tr (hmem h1) (ACQ_IOVA + ucast k * 16) 16"
    using i(6) page by (intro guest_read_cong, unfold cqe_at_simps(1) [OF k]) blast
  then have "answers tr (hmem h') k p (length (e # es))" using r(5) i(5) by simp
  then show ?case using r(1,4,6) i(1-4,6) by auto
qed simp

end
