(* ===== verification/Hammer.thy ===== *)
theory Hammer
  imports AdminRing
begin

text \<open>
  The stress client of \<^verbatim>\<open>tests/client_hammer.c\<close>, run against the model of the device: its modes that
  work on resets, the configuration register, shutdown, batches of commands per doorbell, bad
  register accesses and admin commands with bad arguments. \<open>None\<close> is a check that fails or a loop
  that does not end. The modes about DMA regions, eventfds, reconnection and PCI configuration
  space only talk to libvfio-user; they and the random mix that includes them are left out.
\<close>

section \<open>The client\<close>

fun for_each :: "'i list \<Rightarrow> ('i \<Rightarrow> 's \<Rightarrow> 's option) \<Rightarrow> 's \<Rightarrow> 's option" where
  "for_each [] f s = Some s"
| "for_each (i # is) f s = do { s \<leftarrow> f i s; for_each is f s }"

text \<open>A device reset of the client is the reset callback of the device.\<close>

definition device_reset :: "nvme_ctrl \<times> host \<Rightarrow> (nvme_ctrl \<times> host) option" where
  "device_reset = (\<lambda>(n, h). let (ret, n') = nvme_reset_cb n in if ret = 0 then Some (n', h) else None)"

definition controller_enable :: "'sg vfu_ctx \<Rightarrow> nvme_ctrl \<times> host \<Rightarrow> (nvme_ctrl \<times> host) option" where
  "controller_enable vfu = client_enable vfu 16"

definition controller_disable :: "'sg vfu_ctx \<Rightarrow> nvme_ctrl \<times> host \<Rightarrow> (nvme_ctrl \<times> host) option" where
  "controller_disable vfu s =
     do {
       s \<leftarrow> reg_wr32 vfu 0x14 0 s;
       csts \<leftarrow> reg_rd32 vfu 0x1c s;
       if csts AND 1 \<noteq> 0 then None else Some s
     }"

abbreviation (input) HAMMER_DATA_IOVA :: u64 where "HAMMER_DATA_IOVA \<equiv> 0x2000"

definition hammer_identify :: "u16 \<Rightarrow> u64 \<Rightarrow> NvmeSqe" where
  "hammer_identify cid prp1 = zero_sqe\<lparr>sqe_opcode := 0x06, sqe_cid := cid, sqe_prp1 := prp1, sqe_cdw10 := 0x01\<rparr>"

definition sanity_identify :: "'sg vfu_ctx \<Rightarrow> (nat \<Rightarrow> nat) \<Rightarrow> u16 \<Rightarrow> nvme_ctrl \<times> host \<Rightarrow> (nvme_ctrl \<times> host) option" where
  "sanity_identify vfu tr cid s =
     (let s = guest_write tr ASQ_IOVA (replicate 64 0) s;
          s = guest_write tr ACQ_IOVA (replicate 16 0) s;
          s = guest_write tr ASQ_IOVA (encode_sqe (hammer_identify cid HAMMER_DATA_IOVA)) s
      in
      do {
        s \<leftarrow> reg_wr32 vfu DB_ASQ_TAIL 1 s;
        if check_cqe (decode_cqe (guest_read tr (hmem (snd s)) ACQ_IOVA 16)) cid
        then reg_wr32 vfu DB_ACQ_HEAD 1 s else None
      })"

definition sanity_round :: "'sg vfu_ctx \<Rightarrow> (nat \<Rightarrow> nat) \<Rightarrow> u16 \<Rightarrow> nvme_ctrl \<times> host \<Rightarrow> (nvme_ctrl \<times> host) option" where
  "sanity_round vfu tr cid s =
     do { s \<leftarrow> controller_enable vfu s; s \<leftarrow> sanity_identify vfu tr cid s; controller_disable vfu s }"

text \<open>
  One admin command in the slot at the client's head; the state is head and phase of the client, the
  controller and the host, the result begins with the status of the completion.
\<close>

type_synonym drain = "u16 \<times> u16 \<times> nvme_ctrl \<times> host"

definition submit_drain_admin :: "'sg vfu_ctx \<Rightarrow> (nat \<Rightarrow> nat) \<Rightarrow> NvmeSqe \<Rightarrow> drain \<Rightarrow> (u16 \<times> drain) option" where
  "submit_drain_admin vfu tr cmd = (\<lambda>(head, phase, s).
     let tail = ring_next head in
     do {
       s \<leftarrow> reg_wr32 vfu DB_ASQ_TAIL (ucast tail) (guest_write tr (ASQ_IOVA + ucast head * 64) (encode_sqe cmd) s);
       let status = cqe_status (decode_cqe (guest_read tr (hmem (snd s)) (ACQ_IOVA + ucast head * 16) 16));
       if status AND 1 \<noteq> phase then None
       else do {
         s \<leftarrow> reg_wr32 vfu DB_ACQ_HEAD (ucast tail) s;
         Some (status, tail, if tail = 0 then phase XOR 1 else phase, s)
       }
     })"

definition mode_flr :: "nat \<Rightarrow> nvme_ctrl \<times> host \<Rightarrow> (nvme_ctrl \<times> host) option" where
  "mode_flr iters = for_each [0..<iters] (\<lambda>_. device_reset)"

definition mode_cc :: "'sg vfu_ctx \<Rightarrow> nat \<Rightarrow> nvme_ctrl \<times> host \<Rightarrow> (nvme_ctrl \<times> host) option" where
  "mode_cc vfu iters = for_each [0..<iters] (\<lambda>_ s. do { s \<leftarrow> controller_enable vfu s; controller_disable vfu s })"

definition mode_shn :: "'sg vfu_ctx \<Rightarrow> nat \<Rightarrow> nvme_ctrl \<times> host \<Rightarrow> (nvme_ctrl \<times> host) option" where
  "mode_shn vfu iters = for_each [0..<iters] (\<lambda>_ s.
     do {
       s \<leftarrow> controller_enable vfu s;
       s \<leftarrow> reg_wr32 vfu 0x14 (push_bit 20 4 OR push_bit 16 6 OR 1 OR push_bit 14 1) s;
       csts \<leftarrow> reg_rd32 vfu 0x1c s;
       if csts AND push_bit 2 3 \<noteq> push_bit 2 2 then None else controller_disable vfu s
     })"

text \<open>
  The random numbers of the client: the number and the next seed. A batch fills consecutive slots
  with identify commands; one doorbell announces them; the client then walks over the completions.
\<close>

definition xrand :: "u32 \<Rightarrow> u32 \<times> u32" where
  "xrand seed = (let seed' = seed * 1103515245 + 12345 in (drop_bit 16 seed' AND 0x7fff, seed'))"

fun fill_batch :: "(nat \<Rightarrow> nat) \<Rightarrow> nat \<Rightarrow> u16 \<times> u16 \<times> nvme_ctrl \<times> host \<Rightarrow> u16 \<times> u16 \<times> nvme_ctrl \<times> host" where
  "fill_batch tr 0 st = st"
| "fill_batch tr (Suc b) (tail, cid, s) = fill_batch tr b (ring_next tail, cid + 1,
     guest_write tr (ASQ_IOVA + ucast tail * 64) (encode_sqe (hammer_identify cid HAMMER_DATA_IOVA)) s)"

partial_function (option) drain_ring ::
    "(nat \<Rightarrow> nat) \<Rightarrow> (nat \<Rightarrow> u8) \<Rightarrow> u16 \<Rightarrow> u16 \<Rightarrow> u16 \<Rightarrow> (u16 \<times> u16) option" where
  "drain_ring tr mem tail head phase =
     (if head = tail then Some (head, phase)
      else
        let status = cqe_status (decode_cqe (guest_read tr mem (ACQ_IOVA + ucast head * 16) 16)) in
        if status AND 1 \<noteq> phase then None
        else if drop_bit 1 status \<noteq> 0 then None
        else drain_ring tr mem tail (ring_next head) (if ring_next head = 0 then phase XOR 1 else phase))"

type_synonym bell = "u32 \<times> u16 \<times> u16 \<times> u16 \<times> u16 \<times> nvme_ctrl \<times> host"

definition doorbell_round :: "'sg vfu_ctx \<Rightarrow> (nat \<Rightarrow> nat) \<Rightarrow> bell \<Rightarrow> bell option" where
  "doorbell_round vfu tr = (\<lambda>(seed, tail, head, phase, cid, s).
     let (r, seed) = xrand seed;
         batch = unat (r mod (16 - 1) + 1);
         (tail, cid, s) = fill_batch tr batch (tail, cid, s)
     in
     do {
       s \<leftarrow> reg_wr32 vfu DB_ASQ_TAIL (ucast tail) s;
       (head, phase) \<leftarrow> drain_ring tr (hmem (snd s)) tail head phase;
       s \<leftarrow> reg_wr32 vfu DB_ACQ_HEAD (ucast head) s;
       Some (seed, tail, head, phase, cid, s)
     })"

definition mode_doorbell ::
    "'sg vfu_ctx \<Rightarrow> (nat \<Rightarrow> nat) \<Rightarrow> nat \<Rightarrow> u32 \<Rightarrow> nvme_ctrl \<times> host \<Rightarrow> (u32 \<times> nvme_ctrl \<times> host) option" where
  "mode_doorbell vfu tr iters seed s =
     do {
       s \<leftarrow> controller_enable vfu s;
       (seed, tail, head, phase, cid, s) \<leftarrow> for_each [0..<iters] (\<lambda>_. doorbell_round vfu tr)
         (seed, 0, 0, 1, 100, guest_write tr ACQ_IOVA (replicate 256 0) s);
       s \<leftarrow> controller_disable vfu s;
       Some (seed, s)
     }"

text \<open>An access whose outcome the client ignores; it must still return.\<close>

definition any_access :: "'sg vfu_ctx \<Rightarrow> bool \<Rightarrow> nat \<Rightarrow> bytes \<Rightarrow> nvme_ctrl \<times> host \<Rightarrow> (nvme_ctrl \<times> host) option" where
  "any_access vfu is_write off data = (\<lambda>(n, h).
     case nvme_bar0_access vfu n data off is_write h of
       Some (Inr (ret, buf, n', h')) \<Rightarrow> Some (n', h')
     | _ \<Rightarrow> None)"

definition mode_garbage :: "'sg vfu_ctx \<Rightarrow> (nat \<Rightarrow> nat) \<Rightarrow> nat \<Rightarrow> nvme_ctrl \<times> host \<Rightarrow> (nvme_ctrl \<times> host) option" where
  "mode_garbage vfu tr iters s =
     do {
       s \<leftarrow> for_each [0..<iters] (\<lambda>_ s.
         do {
           s \<leftarrow> any_access vfu True 0x00 (le_enc 8 (0xdeadbeefdeadbeef :: u64)) s;
           s \<leftarrow> any_access vfu True 0x08 (le_enc 4 (0xdeadbeef :: u32)) s;
           s \<leftarrow> any_access vfu True 0x1f00 (le_enc 4 (0xdeadbeef :: u32)) s;
           s \<leftarrow> any_access vfu True (0x14 + 1) [0x5a] s;
           any_access vfu False 0x1f00 (le_enc 4 (0xdeadbeef :: u32)) s
         }) s;
       sanity_round vfu tr 0xdeae s
     }"

definition mode_bad_dma :: "'sg vfu_ctx \<Rightarrow> (nat \<Rightarrow> nat) \<Rightarrow> nat \<Rightarrow> nvme_ctrl \<times> host \<Rightarrow> (nvme_ctrl \<times> host) option" where
  "mode_bad_dma vfu tr iters s =
     do {
       s \<leftarrow> controller_enable vfu s;
       (head, phase, s) \<leftarrow> for_each [0..<iters] (\<lambda>i d.
         map_option snd (submit_drain_admin vfu tr
           (hammer_identify (0xb000 + (of_nat i AND 0xfff)) (0xdeadbeef0000 + of_nat i * 0x1000)) d))
         (0, 1, guest_write tr ACQ_IOVA (replicate 256 0) s);
       controller_disable vfu s
     }"

definition mode_bad_queue :: "'sg vfu_ctx \<Rightarrow> (nat \<Rightarrow> nat) \<Rightarrow> nat \<Rightarrow> nvme_ctrl \<times> host \<Rightarrow> (nvme_ctrl \<times> host) option" where
  "mode_bad_queue vfu tr iters s =
     do {
       s \<leftarrow> controller_enable vfu s;
       (head, phase, s) \<leftarrow> for_each [0..<iters] (\<lambda>i (head, phase, s).
         do {
           s \<leftarrow> any_access vfu True 0x1500 (le_enc 4 (1 :: u32)) s;
           (st, d) \<leftarrow> submit_drain_admin vfu tr
             (zero_sqe\<lparr>sqe_opcode := 0x05, sqe_cid := 0xb100 + (of_nat i AND 0xfff), sqe_prp1 := 0xfeedfeed000,
               sqe_cdw10 := push_bit 16 15 OR 1, sqe_cdw11 := 1\<rparr>) (head, phase, s);
           map_option snd (submit_drain_admin vfu tr
             (zero_sqe\<lparr>sqe_opcode := 0x01, sqe_cid := 0xb200 + (of_nat i AND 0xfff), sqe_prp1 := ASQ_IOVA,
               sqe_cdw10 := push_bit 16 15 OR 1, sqe_cdw11 := push_bit 16 63 OR 1\<rparr>) d)
         }) (0, 1, guest_write tr ACQ_IOVA (replicate 256 0) s);
       controller_disable vfu s
     }"

text \<open>
  The modes with their places in the table of modes, and the loop of \<open>main\<close> over a list of them:
  after each mode a round trip with the controller enabled shows that the device still responds.
\<close>

datatype hammer_mode = Flr | Cc | Shn | Doorbell | Garbage | Bad_dma | Bad_queue

fun mode_index :: "hammer_mode \<Rightarrow> u16" where
  "mode_index Flr = 0"
| "mode_index Cc = 1"
| "mode_index Shn = 2"
| "mode_index Doorbell = 4"
| "mode_index Garbage = 8"
| "mode_index Bad_dma = 9"
| "mode_index Bad_queue = 10"

fun run_mode :: "'sg vfu_ctx \<Rightarrow> (nat \<Rightarrow> nat) \<Rightarrow> hammer_mode \<Rightarrow> nat \<Rightarrow> u32 \<Rightarrow> nvme_ctrl \<times> host \<Rightarrow> (u32 \<times> nvme_ctrl \<times> host) option" where
  "run_mode vfu tr Flr iters seed s = map_option (Pair seed) (mode_flr iters s)"
| "run_mode vfu tr Cc iters seed s = map_option (Pair seed) (mode_cc vfu iters s)"
| "run_mode vfu tr Shn iters seed s = map_option (Pair seed) (mode_shn vfu iters s)"
| "run_mode vfu tr Doorbell iters seed s = mode_doorbell vfu tr iters seed s"
| "run_mode vfu tr Garbage iters seed s = map_option (Pair seed) (mode_garbage vfu tr iters s)"
| "run_mode vfu tr Bad_dma iters seed s = map_option (Pair seed) (mode_bad_dma vfu tr iters s)"
| "run_mode vfu tr Bad_queue iters seed s = map_option (Pair seed) (mode_bad_queue vfu tr iters s)"

definition hammer ::
    "'sg vfu_ctx \<Rightarrow> (nat \<Rightarrow> nat) \<Rightarrow> nat \<Rightarrow> hammer_mode list \<Rightarrow> u32 \<times> nvme_ctrl \<times> host \<Rightarrow> (u32 \<times> nvme_ctrl \<times> host) option" where
  "hammer vfu tr iters ms = for_each ms (\<lambda>m (seed, s).
     do {
       (seed, s) \<leftarrow> run_mode vfu tr m iters seed s;
       s \<leftarrow> sanity_round vfu tr (0xb000 + mode_index m) s;
       Some (seed, s)
     })"

section \<open>Loops\<close>

lemma for_each_inv:
  assumes "I s" and "\<And>i s. I s \<Longrightarrow> \<exists>s'. f i s = Some s' \<and> I s'"
  shows "\<exists>s'. for_each is f s = Some s' \<and> I s'"
  using assms(1)
proof (induction "is" arbitrary: s)
  case (Cons i "is")
  with assms(2) obtain s' where "f i s = Some s'" "I s'" by blast
  with Cons.IH show ?case by simp
qed simp

section \<open>One command after the other\<close>

text \<open>What the client keeps of the ring between two commands, and that it keeps it.\<close>

definition drain_inv :: "(bytes \<rightharpoonup> bytes) \<Rightarrow> drain \<Rightarrow> bool" where
  "drain_inv kv = (\<lambda>(head, phase, n, h).
     arm head (ucast phase) n \<and> phase = ucast (ucast phase :: u8) \<and> heap_ok h \<and> kv_abs (n_ns n) = kv)"

lemma arm_acknowledged:
  assumes "arm k p n"
  shows "arm k p (n\<lparr>n_cq := (n_cq n)[0 := (n_cq n ! 0)\<lparr>cq_head := t\<rparr>]\<rparr>)"
  using assms ctrl_inv_doorbell(1) [of n 0 t] ctrl_invD(2) [of n] by (simp add: arm_def)

lemma submit_drain_ok:
  assumes ok: "vfu_ok vfu tr" and m: "vfu_mapped 0x20000 vfu" and inj: "inj tr" and d: "drain_inv kv d"
    and opc: "sqe_opcode cmd \<noteq> NVME_ADM_ASYNC_EVENT"
  shows "\<exists>st d'. submit_drain_admin vfu tr cmd d = Some (st, d') \<and> drain_inv kv d'"
proof -
  obtain k ph n h where d': "d = (k, ph, n, h)" by (metis prod.exhaust)
  define p where "p = (ucast ph :: u8)"
  have arm: "arm k p n" and ph: "ph = ucast p" and hp: "heap_ok h" and kv: "kv_abs (n_ns n) = kv"
    using d by (simp_all add: d' drain_inv_def p_def)
  have p: "p = 0 \<or> p = 1" using arm_fields(18) [OF arm] .
  obtain h0 where h0: "guest_write tr (ASQ_IOVA + ucast k * 64) (encode_sqe cmd) (n, h) = (n, h0)" "heap_ok h0"
    using guest_write_simps [of tr "ASQ_IOVA + ucast k * 64" "encode_sqe cmd" "(n, h)"] hp
    by (metis fst_conv snd_conv prod.collapse)
  have sqe: "encode_sqe cmd = guest_read tr (hmem h0) (ASQ_IOVA + ucast k * 64) 64"
    using guest_read_write [OF inj, of "ASQ_IOVA + ucast k * 64" "encode_sqe cmd" "(n, h)"] h0(1) by simp
  let ?p = "ring_phase k p"
  obtain n' h' st c where r: "reg_wr32 vfu DB_ASQ_TAIL (ucast (ring_next k)) (n, h0) = Some (n', h')"
    "decode_cqe (guest_read tr (hmem h') (ACQ_IOVA + ucast k * 16) 16) = arm_cqe k p cmd st c"
    "heap_ok h'" "arm (ring_next k) ?p n'" "kv_abs (n_ns n') = kv_abs (n_ns n)"
    by (rule arm_submit [OF ok m inj h0(2) arm sqe opc])
  let ?n = "n'\<lparr>n_cq := (n_cq n')[0 := (n_cq n' ! 0)\<lparr>cq_head := ring_next k\<rparr>]\<rparr>"
  have ack: "reg_wr32 vfu DB_ACQ_HEAD (ucast (ring_next k)) (n', h') = Some (?n, h')"
    using reg_wr32_cq_head [of 0 vfu "ucast (ring_next k)" n' h'] ring_next_slots(2) arm_fields(17) [OF arm] by simp
  have phase: "(push_bit 1 st OR ucast p) AND 1 = (ucast p :: u16)"
    using p by (auto intro!: bit_word_eqI simp: bit_simps bit_0)
  have nx: "(if ring_next k = 0 then ucast p XOR 1 else ucast p) = (ucast ?p :: u16)" "?p = ucast (ucast ?p :: u16)"
    using p by (auto simp: ring_phase_def)
  have "submit_drain_admin vfu tr cmd d = Some (push_bit 1 st OR ucast p, ring_next k, ucast ?p, ?n, h')"
    using h0(1) r(1,2) ack phase nx(1)
    by (simp add: submit_drain_admin_def d' ph Let_def arm_cqe_def)
  moreover have "drain_inv kv (ring_next k, ucast ?p, ?n, h')"
    using arm_acknowledged [OF r(4), of "ring_next k"] r(3,5) kv nx(2) by (simp add: drain_inv_def)
  ultimately show ?thesis by blast
qed

section \<open>The modes\<close>

text \<open>Between two modes the controller is disabled; no mode touches the stored pairs.\<close>

definition idle :: "(bytes \<rightharpoonup> bytes) \<Rightarrow> nvme_ctrl \<times> host \<Rightarrow> bool" where
  "idle kv = (\<lambda>(n, h). ctrl_inv n \<and> n_cc n = 0 \<and> heap_ok h \<and> kv_abs (n_ns n) = kv)"

definition armed :: "(bytes \<rightharpoonup> bytes) \<Rightarrow> nvme_ctrl \<times> host \<Rightarrow> bool" where
  "armed kv = (\<lambda>(n, h). arm 0 1 n \<and> heap_ok h \<and> kv_abs (n_ns n) = kv)"

lemma cc_write_ns [simp]: "n_ns (nvme_cc_write n v) = n_ns n"
  by (simp add: nvme_cc_write_def Let_def nvme_enable_def nvme_disable_def nvme_queues_down_def)

lemma reg_wr32_cc: "reg_wr32 vfu 0x14 v (n, h) = Some (nvme_cc_write n v, h)"
proof -
  have "ucast (ucast v :: u64) = v" by (rule bit_word_eqI) (simp add: bit_simps)
  then show ?thesis by (simp add: reg_wr32_reg nvme_reg_write_def rd_le_enc)
qed

lemma controller_enable_ok:
  assumes "idle kv s"
  shows "\<exists>s'. controller_enable vfu s = Some s' \<and> armed kv s'"
proof -
  obtain n h where s: "s = (n, h)" "ctrl_inv n" "n_cc n = 0" "heap_ok h" "kv_abs (n_ns n) = kv"
    using assms by (cases s) (simp add: idle_def)
  have q: "0xf000f = (16 - 1 :: u32) OR push_bit 16 (16 - 1)" by simp
  obtain n' where r: "client_enable vfu 16 (n, h) = Some (n', h)" "ctrl_inv n'" "n_csts n' = 1" "n_cc n' = 0x460001"
    "n_ns n' = n_ns n" "n_sq n' ! 0 = zero_sq\<lparr>sq_size := (0xf000f AND 0xfff) + 1, sq_enabled := True\<rparr>"
    "n_cq n' ! 0 = zero_cq\<lparr>cq_dma := ACQ_IOVA, cq_size := (drop_bit 16 0xf000f AND 0xfff) + 1, cq_phase := 1, cq_enabled := True\<rparr>"
    by (rule client_enable_ok [OF s(2,3) q, of vfu h])
  then have "armed kv (n', h)" using s(4,5) by (simp add: armed_def arm_def zero_sq_def zero_cq_def)
  with r(1) s(1) show ?thesis by (simp add: controller_enable_def)
qed

lemma controller_disable_ok:
  assumes "ctrl_inv n" and "heap_ok h" and "kv_abs (n_ns n) = kv"
  shows "\<exists>s'. controller_disable vfu (n, h) = Some s' \<and> idle kv s'"
proof -
  have "n_csts (nvme_cc_write n 0) = 0" using nvme_cc_write_csts [OF ctrl_invD(6) [OF assms(1)], of 0] by simp
  then show ?thesis
    using assms nvme_cc_write_inv [OF assms(1), of 0]
    by (simp add: controller_disable_def reg_wr32_cc reg_rd32_csts idle_def)
qed

text \<open>A shutdown request on a controller that is enabled completes.\<close>

lemma shutdown_ok:
  assumes "armed kv s"
  obtains n h where "reg_wr32 vfu 0x14 (push_bit 20 4 OR push_bit 16 6 OR 1 OR push_bit 14 1) s = Some (n, h)"
    "n_csts n = 9" "ctrl_inv n" "heap_ok h" "kv_abs (n_ns n) = kv"
proof -
  obtain n h where s: "s = (n, h)" "arm 0 1 n" "heap_ok h" "kv_abs (n_ns n) = kv"
    using assms by (cases s) (simp add: armed_def)
  note F = arm_fields [OF s(2)]
  have "n_csts (nvme_cc_write n 0x464001) = 9"
    using nvme_cc_write_csts [OF ctrl_invD(6) [OF F(1)], of "0x464001"] by (simp add: F(3))
  with that [of "nvme_cc_write n 0x464001" h] s nvme_cc_write_inv [OF F(1)] show ?thesis
    by (simp add: reg_wr32_cc)
qed

text \<open>Accesses to read-only registers, inside a register and beyond the last doorbell.\<close>

lemma any_access_ignored:
  "any_access vfu True 0x00 (le_enc 8 (v :: u64)) s = Some s" "any_access vfu True 0x08 (le_enc 4 (w :: u32)) s = Some s"
  "any_access vfu True 0x1f00 (le_enc 4 w) s = Some s" "any_access vfu True 0x15 [b] s = Some s"
  "any_access vfu False 0x1f00 bs s = Some s" "any_access vfu True 0x1500 (le_enc 4 w) s = Some s"
  by (cases s; simp add: any_access_def nvme_bar0_access_def nvme_reg_write_def rd_le_enc rd_le_eq Let_def)+

lemma hammer_identify_page: "page_identify (hammer_identify cid HAMMER_DATA_IOVA)"
  by (simp add: page_identify_def hammer_identify_def zero_sqe_def)

lemma sanity_identify_ok:
  assumes ok: "vfu_ok vfu tr" and m: "vfu_mapped 0x20000 vfu" and inj: "inj tr" and s: "armed kv s"
  obtains n h where "sanity_identify vfu tr cid s = Some (n, h)" "ctrl_inv n" "heap_ok h" "kv_abs (n_ns n) = kv"
proof -
  let ?sqe = "hammer_identify cid HAMMER_DATA_IOVA"
  let ?g = "guest_write tr ACQ_IOVA (replicate 16 0) (guest_write tr ASQ_IOVA (replicate 64 0) s)"
  obtain n h where nh: "guest_write tr ASQ_IOVA (encode_sqe ?sqe) ?g = (n, h)" by fastforce
  have "fst s = n" "heap_ok (snd s) = heap_ok h"
    using guest_write_simps [of tr ASQ_IOVA "encode_sqe ?sqe" ?g] unfolding nh by simp_all
  then have n: "arm 0 1 n" "heap_ok h" "kv_abs (n_ns n) = kv" using s by (auto simp: armed_def)
  have sqe: "encode_sqe ?sqe = guest_read tr (hmem h) (ASQ_IOVA + ucast (0 :: u16) * 64) 64"
    using guest_read_write [OF inj, of ASQ_IOVA "encode_sqe ?sqe" ?g] unfolding nh by simp
  have opc: "sqe_opcode ?sqe \<noteq> NVME_ADM_ASYNC_EVENT" by (simp add: hammer_identify_def)
  have one: "ring_next 0 = 1" by (simp add: ring_next_def)
  obtain n' h' n1 st c n2 h1 h2 where r: "reg_wr32 vfu DB_ASQ_TAIL (ucast (ring_next 0)) (n, h) = Some (n', h')"
    "nvme_admin_cmd vfu n1 ?sqe h1 = Inr (st, c, n2, h2)" "heap_ok h1"
    "decode_cqe (guest_read tr (hmem h') (ACQ_IOVA + ucast (0 :: u16) * 16) 16) = arm_cqe 0 1 ?sqe st c"
    "heap_ok h'" "arm (ring_next 0) (ring_phase 0 1) n'" "kv_abs (n_ns n') = kv_abs (n_ns n)"
    by (rule arm_submit [OF ok m inj n(2,1) sqe opc])
  have st: "st = 0" by (rule page_identify_ok(1) [OF ok m inj r(3) hammer_identify_page r(2)])
  let ?n = "n'\<lparr>n_cq := (n_cq n')[0 := (n_cq n' ! 0)\<lparr>cq_head := 1\<rparr>]\<rparr>"
  have chk: "check_cqe (decode_cqe (guest_read tr (hmem h') ACQ_IOVA 16)) cid"
    using r(4) by (simp add: st check_cqe_def arm_cqe_def hammer_identify_def)
  have ack: "reg_wr32 vfu DB_ACQ_HEAD 1 (n', h') = Some (?n, h')"
    using reg_wr32_cq_head [of 0 vfu 1 n' h'] by simp
  have "sanity_identify vfu tr cid s = Some (?n, h')"
    unfolding sanity_identify_def Let_def nh using r(1) chk ack by (simp add: one)
  moreover have "ctrl_inv ?n" using arm_acknowledged [OF r(6)] arm_fields(1) by blast
  ultimately show ?thesis using that r(5,7) n(3) by simp
qed

text \<open>Each iteration of a mode, and each mode, leaves the controller idle again.\<close>

lemma device_reset_ok:
  assumes "idle kv s"
  shows "\<exists>s'. device_reset s = Some s' \<and> idle kv s'"
  using assms nvme_ctrl_reset_inv
  by (cases s) (auto simp: device_reset_def nvme_reset_cb_def idle_def nvme_ctrl_reset_def nvme_disable_def
    nvme_queues_down_def Let_def)

lemma enable_disable_ok:
  assumes "armed kv s"
  shows "\<exists>s'. controller_disable vfu s = Some s' \<and> idle kv s'"
proof (cases s)
  case (Pair n h)
  then have "ctrl_inv n" "heap_ok h" "kv_abs (n_ns n) = kv" using assms by (simp_all add: armed_def arm_def)
  then show ?thesis unfolding Pair by (rule controller_disable_ok)
qed

lemma mode_cc_ok:
  assumes "idle kv s"
  shows "\<exists>s'. mode_cc vfu iters s = Some s' \<and> idle kv s'"
  unfolding mode_cc_def
proof (rule for_each_inv [where I = "idle kv", OF assms])
  fix s assume "idle kv s"
  then obtain s1 where s1: "controller_enable vfu s = Some s1" "armed kv s1" using controller_enable_ok by blast
  then show "\<exists>s'. (do { s \<leftarrow> controller_enable vfu s; controller_disable vfu s }) = Some s' \<and> idle kv s'"
    using enable_disable_ok by simp
qed

lemma mode_shn_ok:
  assumes "idle kv s"
  shows "\<exists>s'. mode_shn vfu iters s = Some s' \<and> idle kv s'"
  unfolding mode_shn_def
proof (rule for_each_inv [where I = "idle kv", OF assms], goal_cases)
  case (1 i s)
  then obtain s1 where s1: "controller_enable vfu s = Some s1" "armed kv s1" using controller_enable_ok by blast
  obtain n h where s2: "reg_wr32 vfu 0x14 (push_bit 20 4 OR push_bit 16 6 OR 1 OR push_bit 14 1) s1 = Some (n, h)"
    "n_csts n = 9" "ctrl_inv n" "heap_ok h" "kv_abs (n_ns n) = kv"
    by (rule shutdown_ok [OF s1(2)])
  then show ?case using s1(1) controller_disable_ok [OF s2(3-5)] by (simp add: reg_rd32_csts)
qed

lemma sanity_round_ok:
  assumes ok: "vfu_ok vfu tr" and m: "vfu_mapped 0x20000 vfu" and inj: "inj tr" and s: "idle kv s"
  shows "\<exists>s'. sanity_round vfu tr cid s = Some s' \<and> idle kv s'"
proof -
  obtain s1 where s1: "controller_enable vfu s = Some s1" "armed kv s1" using controller_enable_ok [OF s] by blast
  obtain n h where s2: "sanity_identify vfu tr cid s1 = Some (n, h)" "ctrl_inv n" "heap_ok h" "kv_abs (n_ns n) = kv"
    by (rule sanity_identify_ok [OF ok m inj s1(2)])
  then show ?thesis
    using s1(1) controller_disable_ok [OF s2(2-4)] by (simp add: sanity_round_def)
qed

lemma mode_garbage_ok:
  assumes ok: "vfu_ok vfu tr" and m: "vfu_mapped 0x20000 vfu" and inj: "inj tr" and s: "idle kv s"
  shows "\<exists>s'. mode_garbage vfu tr iters s = Some s' \<and> idle kv s'"
proof -
  have loop: "for_each is (\<lambda>_. Some) s = Some s" for "is" :: "nat list" by (induction "is") simp_all
  show ?thesis using sanity_round_ok [OF assms] by (simp add: mode_garbage_def any_access_ignored loop)
qed

text \<open>The modes that pump admin commands: any loop that keeps the ring in step.\<close>

lemma armed_drain:
  assumes "armed kv s"
  shows "drain_inv kv (0, 1, guest_write tr a bs s)"
  using assms guest_write_simps [of tr a bs s] by (cases "guest_write tr a bs s") (auto simp: armed_def drain_inv_def)

lemma drain_mode_ok:
  assumes s: "idle kv s" and f: "\<And>i d. drain_inv kv d \<Longrightarrow> \<exists>d'. f i d = Some d' \<and> drain_inv kv d'"
  shows "\<exists>s'. (do { s \<leftarrow> controller_enable vfu s;
      (head, phase, s) \<leftarrow> for_each is f (0, 1, guest_write tr a bs s); controller_disable vfu s }) = Some s' \<and> idle kv s'"
proof -
  obtain s1 where s1: "controller_enable vfu s = Some s1" "armed kv s1" using controller_enable_ok [OF s] by blast
  obtain d where d: "for_each is f (0, 1, guest_write tr a bs s1) = Some d" "drain_inv kv d"
    using for_each_inv [where I = "drain_inv kv" and f = f, OF armed_drain [OF s1(2)] f] by blast
  obtain k p n h where d': "d = (k, p, n, h)" by (metis prod.exhaust)
  have "ctrl_inv n" "heap_ok h" "kv_abs (n_ns n) = kv" using d(2) by (simp_all add: d' drain_inv_def arm_def)
  then show ?thesis using s1(1) d(1) controller_disable_ok by (simp add: d')
qed

lemma mode_bad_dma_ok:
  assumes ok: "vfu_ok vfu tr" and m: "vfu_mapped 0x20000 vfu" and inj: "inj tr" and s: "idle kv s"
  shows "\<exists>s'. mode_bad_dma vfu tr iters s = Some s' \<and> idle kv s'"
  unfolding mode_bad_dma_def
proof (rule drain_mode_ok [OF s], goal_cases)
  case (1 i d)
  let ?cmd = "hammer_identify (0xb000 + (of_nat i AND 0xfff)) (0xdeadbeef0000 + of_nat i * 0x1000)"
  have "sqe_opcode ?cmd \<noteq> NVME_ADM_ASYNC_EVENT" by (simp add: hammer_identify_def)
  with submit_drain_ok [OF ok m inj 1, of ?cmd] show ?case by auto
qed

lemma mode_bad_queue_ok:
  assumes ok: "vfu_ok vfu tr" and m: "vfu_mapped 0x20000 vfu" and inj: "inj tr" and s: "idle kv s"
  shows "\<exists>s'. mode_bad_queue vfu tr iters s = Some s' \<and> idle kv s'"
  unfolding mode_bad_queue_def
proof (rule drain_mode_ok [OF s], goal_cases)
  case (1 i d)
  obtain k p s where d: "d = (k, p, s)" by (metis prod.exhaust)
  let ?cq = "zero_sqe\<lparr>sqe_opcode := 0x05, sqe_cid := 0xb100 + (of_nat i AND 0xfff), sqe_prp1 := 0xfeedfeed000,
    sqe_cdw10 := push_bit 16 15 OR 1, sqe_cdw11 := 1\<rparr>"
  let ?sq = "zero_sqe\<lparr>sqe_opcode := 0x01, sqe_cid := 0xb200 + (of_nat i AND 0xfff), sqe_prp1 := ASQ_IOVA,
    sqe_cdw10 := push_bit 16 15 OR 1, sqe_cdw11 := push_bit 16 63 OR 1\<rparr>"
  obtain st d1 where d1: "submit_drain_admin vfu tr ?cq d = Some (st, d1)" "drain_inv kv d1"
    using submit_drain_ok [OF ok m inj 1, of ?cq] by auto
  obtain st' d2 where d2: "submit_drain_admin vfu tr ?sq d1 = Some (st', d2)" "drain_inv kv d2"
    using submit_drain_ok [OF ok m inj d1(2), of ?sq] by auto
  show ?case using d1(1) d2 by (simp add: d any_access_ignored)
qed

text \<open>The batches: the slots that are filled, the walk over the answers, and one iteration.\<close>

definition sqe_at :: "u16 \<Rightarrow> nat set" where
  "sqe_at k = {64 * unat k..<64 * unat k + 64}"

fun batch_cmds :: "nat \<Rightarrow> u16 \<Rightarrow> NvmeSqe list" where
  "batch_cmds 0 cid = []"
| "batch_cmds (Suc b) cid = hammer_identify cid HAMMER_DATA_IOVA # batch_cmds b (cid + 1)"

lemma batch_cmds_page [simp]: "list_all page_identify (batch_cmds b cid)" "length (batch_cmds b cid) = b"
  by (induction b arbitrary: cid) (simp_all add: hammer_identify_page)

lemma fill_batch_ok:
  assumes inj: "inj tr" and "unat k < 16" and "b \<le> 16"
  obtains cid' s' where "fill_batch tr b (k, cid, s) = (fst (ring_after b (k, p)), cid', s')" "fst s' = fst s"
    "heap_ok (snd s') = heap_ok (snd s)" "entries tr (hmem (snd s')) k (batch_cmds b cid)"
    "\<forall>x. x \<notin> \<Union> (sqe_at ` set (slots b k)) \<longrightarrow> hmem (snd s') (tr x) = hmem (snd s) (tr x)"
  using assms(2,3)
proof (induction b arbitrary: k p cid s thesis)
  case (Suc b)
  let ?e = "encode_sqe (hammer_identify cid HAMMER_DATA_IOVA)"
  let ?a = "ASQ_IOVA + ucast k * 64 :: u64" and ?s = "guest_write tr (ASQ_IOVA + ucast k * 64) ?e s"
  have at: "{unat ?a..<unat ?a + 64} = sqe_at k" using sqe_slot_unat [OF Suc.prems(2)] by (simp add: sqe_at_def)
  obtain cid' s' where i: "fill_batch tr b (ring_next k, cid + 1, ?s) =
      (fst (ring_after b (ring_next k, ring_phase k p)), cid', s')" "fst s' = fst ?s"
    "heap_ok (snd s') = heap_ok (snd ?s)" "entries tr (hmem (snd s')) (ring_next k) (batch_cmds b (cid + 1))"
    "\<forall>x. x \<notin> \<Union> (sqe_at ` set (slots b (ring_next k))) \<longrightarrow> hmem (snd s') (tr x) = hmem (snd ?s) (tr x)"
    by (rule Suc.IH [of "ring_next k" "cid + 1" ?s "ring_phase k p"]) (use Suc.prems(3) in \<open>simp_all add: ring_next_unat\<close>)
  have "sqe_at j \<inter> sqe_at k = {}" if "j \<in> set (slots b (ring_next k))" for j
  proof -
    have "j \<noteq> k" using slots_avoid(2) [OF Suc.prems(2), of b] Suc.prems(3) that by auto
    then have "unat j < unat k \<or> unat k < unat j" using word_unat_eq_iff linorder_neq_iff by blast
    then show ?thesis by (auto simp: sqe_at_def)
  qed
  then have "guest_read tr (hmem (snd s')) ?a 64 = guest_read tr (hmem (snd ?s)) ?a 64"
    using i(5) by (intro guest_read_cong, unfold at) blast
  then have "?e = guest_read tr (hmem (snd s')) ?a 64" using guest_read_write [OF inj, of ?a ?e s] by simp
  moreover have "hmem (snd s') (tr x) = hmem (snd s) (tr x)" if "x \<notin> \<Union> (sqe_at ` set (slots (Suc b) k))" for x
    using i(5) that guest_write_other [OF inj, of x ?a ?e s] at by auto
  ultimately show ?case using i(1-4) by (intro Suc.prems(1) [of cid' s']) simp_all
qed simp

lemma drain_ring_ok:
  assumes "unat k < 16" and "b < 16" and "answers tr mem k p b" and "p = 0 \<or> p = 1"
  shows "drain_ring tr mem (fst (ring_after b (k, p))) k (ucast p) =
    Some (fst (ring_after b (k, p)), ucast (snd (ring_after b (k, p))))"
  using assms
proof (induction b arbitrary: k p)
  case (Suc b)
  have ph: "(if ring_next k = 0 then ucast p XOR 1 else ucast p) = (ucast (ring_phase k p) :: u16)"
    "ring_phase k p = 0 \<or> ring_phase k p = 1"
    "ucast p AND 1 = (ucast p :: u16)" "drop_bit 1 (ucast p :: u16) = 0"
    using Suc.prems(4) by (auto simp: ring_phase_def)
  have "k \<noteq> fst (ring_after (Suc b) (k, p))"
    using slots_avoid(1) [OF Suc.prems(1,2), of p] by (metis list.set_intros(1) slots.simps(2))
  then show ?case
    using Suc.IH [of "ring_next k" "ring_phase k p"] Suc.prems(2,3) ph
    by (subst drain_ring.simps) (simp add: Let_def ring_next_unat)
qed (simp add: drain_ring.simps)

lemma batch_iteration:
  assumes ok: "vfu_ok vfu tr" and m: "vfu_mapped 0x20000 vfu" and inj: "inj tr" and d: "drain_inv kv (k, ph, s)" and b: "b < 16"
  obtains t cid' s1 s2 ph' s3 where "fill_batch tr b (k, cid, s) = (t, cid', s1)"
    "reg_wr32 vfu DB_ASQ_TAIL (ucast t) s1 = Some s2" "drain_ring tr (hmem (snd s2)) t k ph = Some (t, ph')"
    "reg_wr32 vfu DB_ACQ_HEAD (ucast t) s2 = Some s3" "drain_inv kv (t, ph', s3)"
proof -
  obtain n h p where s: "s = (n, h)" "arm k p n" "ph = ucast p" "heap_ok h" "kv_abs (n_ns n) = kv"
    using d by (cases s) (auto simp: drain_inv_def)
  have k: "unat k < 16" and p: "p = 0 \<or> p = 1" using arm_fields(17,18) [OF s(2)] by simp_all
  obtain t p' where tp: "ring_after b (k, p) = (t, p')" by fastforce
  have t: "unat t = (unat k + b) mod 16" using ring_after_slot [OF k, of b p] by (simp add: tp)
  obtain cid' s1 where f: "fill_batch tr b (k, cid, s) = (t, cid', s1)" "fst s1 = n" "heap_ok (snd s1)"
    "entries tr (hmem (snd s1)) k (batch_cmds b cid)"
    by (rule fill_batch_ok [OF inj k less_imp_le [OF b], of cid s p]) (use s(1,4) tp in auto)
  obtain h1 where h1: "s1 = (n, h1)" using f(2) by (cases s1) simp
  let ?nt = "n\<lparr>n_sq := (n_sq n)[0 := (n_sq n ! 0)\<lparr>sq_tail := t\<rparr>]\<rparr>"
  have "\<exists>n' h'. run_steps (nvme_process_one vfu 0) b (?nt, h1) = Inr (n', h') \<and> heap_ok h' \<and>
    arm t p' n' \<and> kv_abs (n_ns n') = kv_abs (n_ns ?nt) \<and> answers tr (hmem h') k p b"
    using batch_ok [OF ok m inj _ arm_tail [OF s(2)], of h1 "batch_cmds b cid" t] f(3,4) b by (auto simp: h1 tp)
  then obtain n' h' where r: "run_steps (nvme_process_one vfu 0) b (?nt, h1) = Inr (n', h')" "heap_ok h'"
    "arm t p' n'" "kv_abs (n_ns n') = kv" "answers tr (hmem h') k p b" using s(5) by auto
  have "ring_dist 16 (unat k) (unat t) = b" using ring_dist_ahead [OF k b] by (simp add: t)
  then have bell: "reg_wr32 vfu DB_ASQ_TAIL (ucast t) s1 = Some (n', h')"
    unfolding h1 by (intro arm_doorbell [OF s(2)]) (use r(1) t in simp_all)
  have walk: "drain_ring tr (hmem h') t k ph = Some (t, ucast p')" using drain_ring_ok [OF k b r(5) p] by (simp add: tp s(3))
  let ?n = "n'\<lparr>n_cq := (n_cq n')[0 := (n_cq n' ! 0)\<lparr>cq_head := t\<rparr>]\<rparr>"
  have "ucast (ucast t :: u32) = t" by (rule bit_word_eqI) (simp add: bit_simps)
  then have ack: "reg_wr32 vfu DB_ACQ_HEAD (ucast t) (n', h') = Some (?n, h')"
    using reg_wr32_cq_head [of 0 vfu "ucast t" n' h'] by simp
  have "p' = ucast (ucast p' :: u16)" using arm_fields(18) [OF r(3)] by auto
  then have "drain_inv kv (t, ucast p', ?n, h')"
    using arm_acknowledged [OF r(3), of t] r(2,4) by (simp add: drain_inv_def)
  with that [OF f(1) bell _ ack] walk show ?thesis by simp
qed

definition bell_inv :: "(bytes \<rightharpoonup> bytes) \<Rightarrow> bell \<Rightarrow> bool" where
  "bell_inv kv = (\<lambda>(seed, tail, head, phase, cid, s). tail = head \<and> drain_inv kv (head, phase, s))"

lemma doorbell_round_ok:
  assumes ok: "vfu_ok vfu tr" and m: "vfu_mapped 0x20000 vfu" and inj: "inj tr" and d: "bell_inv kv d"
  shows "\<exists>d'. doorbell_round vfu tr d = Some d' \<and> bell_inv kv d'"
proof -
  obtain seed k p cid s where d': "d = (seed, k, k, p, cid, s)" "drain_inv kv (k, p, s)"
    using d by (cases d) (auto simp: bell_inv_def)
  obtain r seed' where x: "xrand seed = (r, seed')" by fastforce
  have "unat (r mod 15) < 15" using mod_less_divisor [of 15 "unat r"] by (simp add: unat_mod)
  then have "unat (r mod 15 + 1) < 16" by (simp add: unat_word_ariths)
  from batch_iteration [OF ok m inj d'(2) this, of cid] obtain t cid' s1 s2 p' s3 where
    "fill_batch tr (unat (r mod 15 + 1)) (k, cid, s) = (t, cid', s1)" "reg_wr32 vfu DB_ASQ_TAIL (ucast t) s1 = Some s2"
    "drain_ring tr (hmem (snd s2)) t k p = Some (t, p')" "reg_wr32 vfu DB_ACQ_HEAD (ucast t) s2 = Some s3"
    "drain_inv kv (t, p', s3)" .
  then show ?thesis by (simp add: doorbell_round_def d'(1) x bell_inv_def)
qed

lemma mode_doorbell_ok:
  assumes ok: "vfu_ok vfu tr" and m: "vfu_mapped 0x20000 vfu" and inj: "inj tr" and s: "idle kv s"
  shows "\<exists>seed' s'. mode_doorbell vfu tr iters seed s = Some (seed', s') \<and> idle kv s'"
proof -
  obtain s1 where s1: "controller_enable vfu s = Some s1" "armed kv s1" using controller_enable_ok [OF s] by blast
  let ?d = "(seed, 0, 0, 1, 100, guest_write tr ACQ_IOVA (replicate 256 0) s1)"
  have "bell_inv kv ?d" using armed_drain [OF s1(2)] by (simp add: bell_inv_def)
  then have "\<exists>d. for_each [0..<iters] (\<lambda>_. doorbell_round vfu tr) ?d = Some d \<and> bell_inv kv d"
    by (rule for_each_inv) (rule doorbell_round_ok [OF ok m inj])
  then obtain d where d: "for_each [0..<iters] (\<lambda>_. doorbell_round vfu tr) ?d = Some d" "bell_inv kv d" by (elim exE conjE)
  obtain seed' k p cid n h where d': "d = (seed', k, k, p, cid, n, h)" "drain_inv kv (k, p, n, h)"
    using d(2) by (cases d) (auto simp: bell_inv_def)
  have "ctrl_inv n" "heap_ok h" "kv_abs (n_ns n) = kv" using d'(2) by (simp_all add: drain_inv_def arm_def)
  then obtain s2 where "controller_disable vfu (n, h) = Some s2" "idle kv s2" using controller_disable_ok by blast
  with d(1) s1(1) show ?thesis by (simp add: mode_doorbell_def d'(1))
qed

lemma run_mode_ok:
  assumes ok: "vfu_ok vfu tr" and m: "vfu_mapped 0x20000 vfu" and inj: "inj tr" and s: "idle kv s"
  shows "\<exists>seed' s'. run_mode vfu tr mode iters seed s = Some (seed', s') \<and> idle kv s'"
proof -
  have "\<exists>s'. mode_flr iters s = Some s' \<and> idle kv s'"
    unfolding mode_flr_def by (rule for_each_inv [OF s device_reset_ok])
  then show ?thesis
    using mode_cc_ok [OF s] mode_shn_ok [OF s] mode_garbage_ok [OF assms] mode_bad_dma_ok [OF assms] mode_bad_queue_ok [OF assms]
      mode_doorbell_ok [OF assms]
    by (cases mode) simp_all
qed

lemma hammer_ok:
  assumes ok: "vfu_ok vfu tr" and m: "vfu_mapped 0x20000 vfu" and inj: "inj tr" and s: "idle kv s"
  shows "\<exists>seed' s'. hammer vfu tr iters ms (seed, s) = Some (seed', s') \<and> idle kv s'"
proof -
  have "\<exists>d. hammer vfu tr iters ms (seed, s) = Some d \<and> idle kv (snd d)"
    unfolding hammer_def
  proof (rule for_each_inv [where I = "\<lambda>d. idle kv (snd d)"], goal_cases)
    case (2 mode d)
    obtain seed s where d: "d = (seed, s)" "idle kv s" using 2 by (cases d) simp
    obtain seed1 s1 where r: "run_mode vfu tr mode iters seed s = Some (seed1, s1)" "idle kv s1"
      using run_mode_ok [OF ok m inj d(2)] by blast
    obtain s2 where "sanity_round vfu tr (0xb000 + mode_index mode) s1 = Some s2" "idle kv s2"
      using sanity_round_ok [OF ok m inj r(2)] by blast
    then show ?case by (simp add: d(1) r(1))
  qed (simp add: s)
  then show ?thesis by force
qed

end
