(* ===== verification/Spec2Isabelle.thy ===== *)
theory Spec2Isabelle
  imports Hammer
begin

text \<open>
  Verification of \<^verbatim>\<open>vfio-user-kvssd\<close>, a program that emulates an NVMe key/value SSD in memory
  and offers it to a virtual machine over the vfio-user protocol.

  \<^bold>\<open>The program.\<close> \<^verbatim>\<open>src/main.c\<close> parses its options, sets a PCI device up with libvfio-user and
  serves one client after another. The library calls back into \<^verbatim>\<open>src/nvme.c\<close> for every access of
  the guest to BAR0 (registers and doorbells) and BAR4 (MSI-X) and for device resets. A write of
  the register \<open>CC\<close> enables, disables or shuts down the controller; a write of a submission
  doorbell runs the queue engine, which fetches 64-byte commands from guest memory, executes
  admin commands (queue 0) or key/value commands (other queues), posts 16-byte completions and
  raises interrupts. Key/value commands go to \<^verbatim>\<open>src/kv.c\<close>, a table of slots that grows on demand;
  the data moves through two function pointers that \<^verbatim>\<open>src/nvme.c\<close> implements with PRP transfers
  over scatter/gather lists. \<^verbatim>\<open>include/kvssd_nvme_spec.h\<close> holds the packed structures.

  \<^bold>\<open>Theories and sources.\<close>
  \<^item> \<open>Prelude\<close>: C integers as words, undefined behaviour (\<open>ub\<close>), buffers, little-endian
    encodings, the allocator as part of the state (which allocations succeed, and the garbage
    that fresh memory holds), collections of simplification rules.
  \<^item> \<open>NvmeSpec\<close>: the structures of \<^verbatim>\<open>kvssd_nvme_spec.h\<close> as records with their byte layouts, and the
    view of a submission entry as a KV command.
  \<^item> \<open>KvStore\<close>, \<open>KvList\<close>: \<^verbatim>\<open>kv.c\<close> and \<^verbatim>\<open>kv.h\<close>, one definition per function (\<open>kv_ns_init\<close>,
    \<open>kv_ns_teardown\<close>, \<open>kv_key_match\<close>, \<open>kv_key_store\<close>, \<open>kv_store\<close>, \<open>kv_retrieve\<close>, \<open>kv_delete\<close>,
    \<open>kv_exist\<close>, \<open>kv_list\<close>), their loops as recursive functions over the slot array; the
    abstraction \<open>kv_abs\<close> to a finite map, the invariant \<open>kv_inv\<close> and the specifications
    \<open>spec_store\<close>, \<open>spec_retrieve\<close>, \<open>spec_delete\<close>, \<open>spec_exist\<close>, \<open>listed\<close>.
  \<^item> \<open>NvmeDma\<close>: \<open>nvme_sgl_copy\<close>, \<open>nvme_gpa_xfer\<close>, \<open>nvme_prp_xfer\<close>, \<open>kvdma_h2c\<close>, \<open>kvdma_c2h\<close>
    over guest memory.
  \<^item> \<open>NvmeCtrl\<close>: \<open>struct nvme_cq\<close>, \<open>nvme_sq\<close> and \<open>nvme_ctrl\<close> of \<^verbatim>\<open>nvme.h\<close>; initialisation, enable,
    disable, reset; the invariant \<open>ctrl_inv\<close>. \<open>NvmeAdmin\<close>: identify, features, queue management,
    \<open>nvme_admin_cmd\<close>. \<open>NvmeQueue\<close>: \<open>nvme_post_cqe\<close>, \<open>nvme_io_kv\<close>, \<open>nvme_process_sq\<close>.
    \<open>NvmeRegs\<close>: \<open>rd_le\<close>, \<open>wr_le\<close>, \<open>nvme_reg_read\<close>, \<open>nvme_reg_write\<close>, \<open>nvme_bar0_access\<close>,
    \<open>nvme_msix_access\<close>. \<open>NvmeTrace\<close>: \<open>nvme_trace_us\<close> and the lines of \<open>NVME_TRACE\<close>.
  \<^item> \<open>CommandLine\<close>: the first part of \<^verbatim>\<open>main.c\<close>: \<open>parse_size\<close> over \<open>strtoull\<close>, the options over
    \<open>getopt_long\<close>, the capacity. \<open>MainProgram\<close>: the rest: the calls of the set-up and of the clean-up in order,
    the serving loop with the stop flag, the reset callback.
  \<^item> \<open>Device\<close>: the callbacks as the steps of a transition system. \<open>DeviceRun\<close>: its runs labelled with
    the commands that the queue engine executes (queue, submission entry, host at that moment).
    \<open>MapMachine\<close>: a bounded finite map driven by the same commands, where a store and a delete do
    what their specifications say and every other command does nothing, and the simulation.
    \<open>Durability\<close>: which commands can change the value under a key.
  \<^item> \<open>Driver\<close>: the device seen by a host driver: accesses of four and eight bytes, a mapped DMA
    region (\<open>vfu_mapped\<close>), queue pairs in it, and one transaction from the doorbell to the
    completion. \<open>Harness\<close>: the client of \<^verbatim>\<open>tests/client_harness.c\<close>, step by step, against the device.
    \<open>AdminRing\<close>: an admin queue pair through any number of commands, and batches of commands behind
    one doorbell. \<open>Hammer\<close>: seven modes of the stress client \<^verbatim>\<open>tests/client_hammer.c\<close>, in any order and number.
  \<^item> \<open>Scenario\<close>: a concrete host and controller on which the witnesses evaluate. \<open>KvProperties\<close>, \<open>CtrlProperties\<close> and this theory:
    the properties.

  \<^bold>\<open>State and effects.\<close> Every operation takes its state and returns it updated. The state of the
  operating system is the record \<open>host\<close>: allocator, guest memory (\<open>hmem\<close>), interrupts raised
  (\<open>irqs\<close>). Undefined behaviour of C (a null pointer, an index out of bounds, a shift by the width,
  a division by zero) is the value \<open>Inl\<close> of a sum, so that a result \<open>Inr\<close> is also a claim of
  safety. The two libvfio-user functions that map guest addresses are the fields of the parameter
  \<open>vfu_ctx\<close>; \<open>vfu_ok vfu tr\<close> says that what they map an address range to are the bytes at \<open>tr\<close> of
  these addresses, in order, which is their documented behaviour. Results of
  \<open>clock_gettime\<close>, the set-up calls and the arrival of signals are arguments of the definitions.

  \<^bold>\<open>Loops.\<close> All loops but two are structural or measured recursions. The loop of
  \<open>nvme_process_sq\<close> need not end and is a \<open>partial_function\<close>, where \<open>None\<close> is a loop that never
  returns; no fuel is used. It is shown to return, after exactly as many commands as the tail is
  ahead of the head, when the tail is in the ring, and to run forever when it is not. The other is the
  walk of the stress client over its completions, shown to return after every batch.

  \<^bold>\<open>Interfaces.\<close> \<open>field_codec\<close> (fields of fixed width; interpreted for 8 to 64 bits),
  \<open>kv_transport\<close> (what the KV handlers need of the data mover; interpreted for \<open>kvdma\<close>),
  \<open>ring_consumer\<close> (a step that consumes one ring entry; interpreted for \<open>nvme_process_one\<close>),
  \<open>host_predicate\<close> (what every transfer keeps; interpreted for the allocator and for the list of
  interrupts), \<open>step_system\<close> (invariants of a step relation; interpreted for the device), \<open>labelled_system\<close>,
  which extends it with labelled steps (interpreted for the device and for the abstract map), and
  \<open>simulation\<close>, which extends that (interpreted for the device over the map, with the same labels).

  \<^bold>\<open>What is shown.\<close>
  \<^item> The KV handlers compute their specifications on the abstract map on every branch and keep
    the invariant; a stored value is what a later retrieve delivers; the list sent is the image of
    the listed keys, and a host that reads its buffer finds the stored keys, as many as fit; the advertised use is 4112 bytes per key.
  \<^item> A PRP transfer moves exactly the bytes that the entries name, and nothing when it fails.
  \<^item> The queue engine processes exactly the commands between head and tail; a KV command goes
    from its 64 bytes in guest memory to the map and to one completion with its status and one interrupt;
    completions carry the phase of the ring, which flips once per round.
  \<^item> The status register follows the configuration register; registers read back as written;
    the identify pages have the advertised contents; queue creation checks its arguments.
  \<^item> The stored pairs after any run of the device are what the abstract map gives for exactly the
    commands that the run executed, in order: resets, shutdowns, admin commands and all other KV
    commands change nothing.
  \<^item> The value under a key changes only by an executed store or delete that names the key. A store
    whose doorbell a driver rings completes with success, and a retrieve after any run that does
    not write the key delivers the stored bytes. The client harness passes on every disabled
    device with room for a key, and the modelled modes of the stress client pass on every disabled
    device, through resets, shutdowns, batches, junk accesses and admin commands with bad arguments, and leave the
    stored pairs as they were.
  \<^item> Every state a device can reach satisfies \<open>ctrl_inv\<close>; region accesses return without undefined
    behaviour under the stated conditions, and the statements name the conditions that the code
    does not check: accesses longer than eight bytes, tails outside the ring, completion queues
    of 65536 entries, failed transfers during an insert.
  \<^item> The structures of the wire have the offsets and sizes of the specification header.
  \<^item> The program destroys what it created on every path, the controller exactly when its
    initialisation succeeded, and ends after a signal, and the capacity and size arguments
    mean what the documentation says, up to the wrap-around of 64-bit arithmetic.

  \<^bold>\<open>Bounds.\<close> \<open>kv_inv\<close> and \<open>device_init\<close> assume a capacity of at most \<open>2 ^ 31\<close> keys (8 terabytes of
  values), because \<open>kv_store\<close> keeps a slot index in an \<open>int\<close>. Addresses and counters keep their C
  width; sizes of objects in memory are natural numbers.

  \<^bold>\<open>Not modelled.\<close> The messages passed to \<open>NVME_TRACE\<close> (the macro is, with the message as an
  argument), log, usage and error output; the empty DMA callbacks; the sources of libvfio-user,
  json-c and the C library beyond what is said above; the patch to libvfio-user, the build
  description and the scripts; of the test programs the socket protocol, the walk over the PCI
  capability list in the harness, the modes of the stress client about DMA regions, eventfds, reconnection and PCI
  configuration space, its random mix of modes, and the unit test of the KV handlers. Concurrency does not
  arise: callbacks run one at a time in the serving loop, and the signal handler only sets a flag.
\<close>

section \<open>The device\<close>

text \<open>A store of four bytes under a key of three, placed in the I/O queue of the scenario and rung.\<close>

lemma ctrl2_posted:
  assumes "h = snd (guest_write id 0x40001 (encode_sqe (kv_sqe 1 0x636261 3 0x60000 4)) (ctrl2, host0))"
  shows "posted 0x100000 id 1 (kv_sqe 1 0x636261 3 0x60000 4) (ctrl2, h)"
proof -
  let ?s = "kv_sqe 1 0x636261 3 0x60000 4"
  have c: "kvcmd_of_sqe ?s = kv_cmd0 1 0x636261 3 0x60000 4" by (simp add: kv_cmd0_def)
  have pf: "prp_first 0x60000 4 = 4" by (simp add: prp_first_def)
  have hp: "heap_ok host0" by (simp add: heap_ok_def)
  show ?thesis
    using ctrl2_io(1) hp guest_read_write [of id "0x40001" "encode_sqe ?s" "(ctrl2, host0)"] unfolding assms
    by (simp add: posted_def c ctrl2_io prp_fits_def pf)
qed

lemma ctrl2_store:
  obtains n1 h1 where
    "ring id_vfu 1 (guest_write id 0x40001 (encode_sqe (kv_sqe 1 0x636261 3 0x60000 4)) (ctrl2, host0)) = Some (n1, h1)"
    "kv_abs (n_ns n1) [0x61, 0x62, 0x63] \<noteq> None"
proof -
  let ?s = "kv_sqe 1 0x636261 3 0x60000 4"
  let ?h = "snd (guest_write id 0x40001 (encode_sqe ?s) (ctrl2, host0))"
  have g: "guest_write id 0x40001 (encode_sqe ?s) (ctrl2, host0) = (ctrl2, ?h)" by (simp add: guest_write_def)
  have c: "kvcmd_of_sqe ?s = kv_cmd0 1 0x636261 3 0x60000 4" by (simp add: kv_cmd0_def)
  have k: "cmd_key (kvcmd_of_sqe ?s) = [0x61, 0x62, 0x63]" by (simp add: c cmd_key_def le_enc_numeral)
  have p: "io_queue 0x100000 1 ctrl2" "heap_ok ?h" "encode_sqe ?s = guest_read id (hmem ?h) (sq_slot ctrl2 1) 64"
    "unat (kl (kvc_cdw11 (kvcmd_of_sqe ?s))) \<le> 16"
    "prp_fits 0x100000 (kvc_prp1 (kvcmd_of_sqe ?s)) (kvc_prp2 (kvcmd_of_sqe ?s)) (unat (kvc_hbs (kvcmd_of_sqe ?s)))"
    using ctrl2_posted [OF refl] by (simp_all add: posted_def Let_def c)
  have op: "sqe_opcode ?s = 1" by (simp add: kv_sqe_def)
  have m: "vfu_mapped 0x100000 id_vfu" by (rule id_vfu_mapped) simp
  show ?thesis
    by (rule ring_store [OF id_vfu_ok m inj_on_id p(2,1,3) op refl p(4) _ _ p(5)])
      (use that g k in \<open>auto simp: c ctrl2_queue ns0_inv(2)\<close>)
qed

text \<open>C3: Every state that a device can reach from \<open>nvme_ctrl_init\<close> by region accesses, resets and arbitrary
  changes of guest memory satisfies the controller invariant: well-formed queues, status
  register in step with the configuration register, and a consistent key/value table. The capacity
  given to \<open>nvme_ctrl_init\<close> is at most \<open>2 ^ 31\<close> keys.\<close>

theorem reachable_invariant:
  assumes "device_init s0" and "(device_step vfu)\<^sup>*\<^sup>* s0 s"
  shows "ctrl_inv (fst s)"
  by (rule device.reachable_inv [OF assms])

theorem reachable_invariant_witness: "ctrl_inv (nvme_ctrl_reset ctrl0)"
proof -
  have "device_init (ctrl0, host0)"
    unfolding device_init_def by (rule exI [of _ 4], rule exI [of _ host0]) (simp add: ctrl0_init)
  moreover have "(device_step id_vfu)\<^sup>*\<^sup>* (ctrl0, host0) (nvme_ctrl_reset ctrl0, host0)"
    by (rule r_into_rtranclp, rule device_step.reset) (simp add: nvme_reset_cb_def)
  ultimately show ?thesis using reachable_invariant by fastforce
qed

text \<open>C4: Whatever the guest writes to registers, doorbells, queues and memory and however often the device is
  reset, the run has a list of executed commands, each with its queue, its submission entry and the
  host on which it ran; and for every such list the stored pairs are the result of running exactly these
  commands, in this order, on the abstract map from the initial pairs: a store and a delete on
  an I/O queue do what their specifications say on that host, every other command and everything
  that executes no command leaves the map alone. The capacity never changes, and a new device
  starts with the empty map.\<close>

theorem device_refines_map:
  assumes "ctrl_inv n0" and "(device_step vfu)\<^sup>*\<^sup>* (n0, h0) (n, h)"
  shows "(\<exists>es. device_run vfu (n0, h0) es (n, h)) \<and>
    (\<forall>es. device_run vfu (n0, h0) es (n, h) \<longrightarrow>
       kv_run vfu (unat (max_num_keys (n_ns n0)), kv_abs (n_ns n0)) es (unat (max_num_keys (n_ns n0)), kv_abs (n_ns n))) \<and>
    (device_init (n0, h0) \<longrightarrow> kv_abs (n_ns n0) = Map.empty)"
proof (intro conjI allI impI)
  show "\<exists>es. device_run vfu (n0, h0) es (n, h)" using device_run_exists [OF assms(2)] assms(1) by simp
  show "kv_abs (n_ns n0) = Map.empty" if "device_init (n0, h0)" using device_init_map(1) [OF that] by simp
  fix es assume "device_run vfu (n0, h0) es (n, h)"
  from device_run_sim [OF this] assms(1)
  have run: "kv_run vfu (ctrl_map n0) es (ctrl_map n)" by simp
  from kv_run_capacity [OF run] run
  show "kv_run vfu (unat (max_num_keys (n_ns n0)), kv_abs (n_ns n0)) es (unat (max_num_keys (n_ns n0)), kv_abs (n_ns n))"
    by (simp add: ctrl_map_def)
qed

theorem device_refines_map_witness:
  "\<exists>n1 h1 es. ring id_vfu 1 (guest_write id 0x40001 (encode_sqe (kv_sqe 1 0x636261 3 0x60000 4)) (ctrl2, host0)) = Some (n1, h1) \<and>
     es \<noteq> [] \<and> kv_run id_vfu (4, Map.empty) es (4, kv_abs (n_ns n1)) \<and> kv_abs (n_ns n1) [0x61, 0x62, 0x63] \<noteq> None"
proof -
  let ?s = "kv_sqe 1 0x636261 3 0x60000 4"
  let ?g = "guest_write id 0x40001 (encode_sqe ?s) (ctrl2, host0)"
  obtain n1 h1 where r: "ring id_vfu 1 ?g = Some (n1, h1)" "kv_abs (n_ns n1) [0x61, 0x62, 0x63] \<noteq> None"
    by (rule ctrl2_store)
  have "(device_step id_vfu)\<^sup>*\<^sup>* ?g (n1, h1)" by (rule r_into_rtranclp) (rule ring_device_step [OF r(1)])
  moreover have g: "?g = (ctrl2, snd ?g)" by (simp add: guest_write_def)
  ultimately have "(device_step id_vfu)\<^sup>*\<^sup>* (ctrl2, snd ?g) (n1, h1)" by simp
  from device_refines_map [OF sq_liveD(1) [OF ctrl2_live] this]
  obtain es where es: "kv_run id_vfu (4, Map.empty) es (4, kv_abs (n_ns n1))"
    by (auto simp: ctrl2_queue ns0_inv(2))
  have "es \<noteq> []" using kv_run_Nil es r(2) by fastforce
  with r es show ?thesis by blast
qed

text \<open>C18: In every state reachable from a capacity of at most \<open>2 ^ 31\<close> keys \<open>CSTS.RDY\<close> equals \<open>CC.EN\<close>, a submission queue is enabled only while the
  controller is ready and not shut down, its head is inside its ring, the keys stored never
  exceed the capacity, and every pair has a key of at most 16 and a value of 4096 bytes.\<close>

theorem reachable_safety:
  assumes "device_init s0" and "(device_step vfu)\<^sup>*\<^sup>* s0 (n, h)"
  shows "n_csts n AND NVME_CSTS_RDY = n_cc n AND NVME_CC_EN \<and>
    (\<forall>q < 64. sq_enabled (n_sq n ! q) \<longrightarrow>
       n_csts n = NVME_CSTS_RDY \<and> unat (sq_head (n_sq n ! q)) < unat (sq_size (n_sq n ! q))) \<and>
    card (dom (kv_abs (n_ns n))) \<le> unat (max_num_keys (n_ns n)) \<and>
    (\<forall>k v. kv_abs (n_ns n) k = Some v \<longrightarrow> length k \<le> 16 \<and> length v = 4096)"
proof -
  have inv: "ctrl_inv n" using device.reachable_inv [OF assms] by simp
  note D = ctrl_invD [OF inv]
  have "n_csts n = 1 \<and> unat (sq_head (n_sq n ! q)) < unat (sq_size (n_sq n ! q))"
    if "q < 64" "sq_enabled (n_sq n ! q)" for q
    using enabled_ready [OF D(6), of q] list_all_nthD [OF D(4), of q] D(1) that by (simp add: sq_wf_def)
  moreover have "map_ok (ctrl_map n)"
    using device_map.reachable_sim [OF assms] machine.runs_inv device_init_map [OF assms(1)] by fastforce
  ultimately show ?thesis using D(6) by (simp add: regs_inv_def map_ok_def ctrl_map_def)
qed

theorem reachable_safety_witness:
  "n_csts ctrl0 AND NVME_CSTS_RDY = n_cc ctrl0 AND NVME_CC_EN \<and> card (dom (kv_abs (n_ns ctrl0))) \<le> 4"
proof -
  have "device_init (ctrl0, host0)"
    unfolding device_init_def by (rule exI [of _ 4], rule exI [of _ host0]) (simp add: ctrl0_init)
  from reachable_safety [OF this rtranclp.rtrancl_refl [of "device_step id_vfu"]] show ?thesis by simp
qed

text \<open>A device reset disables every queue and clears the writable registers, but the namespace, stored
  pairs and the \<open>ednek\<close> feature included, outlives it.\<close>

lemma reset_effect:
  "queues_off (nvme_ctrl_reset n) \<and> n_cc (nvme_ctrl_reset n) = 0 \<and> n_csts (nvme_ctrl_reset n) = 0 \<and>
   n_aqa (nvme_ctrl_reset n) = 0 \<and> n_asq (nvme_ctrl_reset n) = 0 \<and> n_acq (nvme_ctrl_reset n) = 0 \<and>
   n_intms (nvme_ctrl_reset n) = 0 \<and> n_intmc (nvme_ctrl_reset n) = 0 \<and>
   n_cap (nvme_ctrl_reset n) = n_cap n \<and> n_ns (nvme_ctrl_reset n) = n_ns n"
proof -
  have "queues_off (nvme_ctrl_reset n)"
    using nvme_disable_simps(2) [of n] by (simp add: nvme_ctrl_reset_def queues_off_def)
  then show ?thesis
    by (simp add: nvme_ctrl_reset_def nvme_disable_def nvme_queues_down_def Let_def)
qed

section \<open>A command from queue to completion\<close>

text \<open>C10: A store command that a guest places in an I/O queue is fetched as the guest wrote it, updates the
  stored map exactly as the specification of a store on the guest memory of that moment, and is completed
  once: the completion queue advances, its interrupt is raised, and the only change of guest
  memory is the completion entry at the tail slot, which carries the status of the
  specification above the phase of the queue, the new head, the queue and the command identifier
  (nothing is written if that slot cannot be mapped).\<close>

theorem kv_store_through_queue:
  assumes "vfu_ok vfu tr" and "sq_live qid n" and "qid \<noteq> 0"
    and "sq = n_sq n ! unat qid" and "slot = sq_dma sq + ucast (sq_head sq) * 64"
    and "cq = n_cq n ! unat (sq_cqid sq)" and "cq_enabled cq" and "0 \<le> cq_irq cq"
    and "nvme_process_one vfu qid (n, h) = Inr (True, n', h')"
    and "encode_sqe sqe = map (\<lambda>a. hmem h (tr a)) [unat slot..<unat slot + 64]"
    and "sqe_opcode sqe = NVME_CMD_KV_STORE"
    and "cslot = cq_dma cq + ucast (cq_tail cq) * 16"
    and "cqe = (\<lambda>st. \<lparr>cqe_cdw0 = 0, cqe_cdw1 = 0, cqe_sq_head = ucast ((ucast (sq_head sq) + 1 :: u32) mod sq_size sq),
           cqe_sq_id = qid, cqe_cid = sqe_cid sqe, cqe_status = push_bit 1 st OR ucast (cq_phase cq AND 1)\<rparr>)"
  shows "\<exists>st h1 h2. nvme_fetch vfu qid (n, h) = Some (sqe, h1) \<and> hmem h1 = hmem h \<and>
    spec_store (kvdma vfu) (kvcmd_of_sqe sqe) (unat (max_num_keys (n_ns n))) (kv_full (n_ns n)) (kv_abs (n_ns n)) h1 =
      (st, kv_abs (n_ns n'), h2) \<and>
    hmem h' = (if fst (nvme_gpa_xfer vfu cslot (encode_cqe (cqe st)) 16 True h2) = 0
      then mem_writes (hmem h) (map tr [unat cslot..<unat cslot + 16]) (encode_cqe (cqe st)) else hmem h) \<and>
    n_cq n' ! unat (sq_cqid sq) = cq_advance cq \<and> irqs h' = irqs h @ [word_of_int (cq_irq cq)]"
proof -
  define n1 where "n1 = n\<lparr>n_sq := (n_sq n)[unat qid := sq\<lparr>sq_head := ucast ((ucast (sq_head sq) + 1 :: u32) mod sq_size sq)\<rparr>]\<rparr>"
  obtain sqe' st ns' h1 h2 where r:
    "encode_sqe sqe' = map (\<lambda>a. hmem h (tr a)) [unat slot..<unat slot + 64]" "hmem h1 = hmem h"
    "nvme_io_kv vfu n1 sqe' h1 = Inr (st, n1\<lparr>n_ns := ns'\<rparr>, h2)"
    "n' = n1\<lparr>n_ns := ns', n_cq := (n_cq n)[unat (sq_cqid sq) := cq_advance cq]\<rparr>"
    "irqs h' = irqs h @ [word_of_int (cq_irq cq)]"
    "nvme_post_cqe vfu (n1\<lparr>n_ns := ns'\<rparr>) (sq_cqid sq) qid
       (ucast ((ucast (sq_head sq) + 1 :: u32) mod sq_size sq)) (sqe_cid sqe') 0 st h2 = Inr (n', h')"
    "nvme_gpa_xfer vfu slot (map (junk h) [0..<64]) 64 False h = (0, encode_sqe sqe', h1)"
    by (rule nvme_process_one_io [OF assms(1-9) n1_def])
  note D = sq_liveD [OF assms(2)]
  note kv = ctrl_invD(7) [OF D(1)]
  have sqe: "sqe' = sqe" using r(1) assms(10) decode_encode_sqe by metis
  have ns: "n_ns n1 = n_ns n" "n_ns n' = ns'" by (simp_all add: n1_def r(4))
  have op: "kvc_opcode (kvcmd_of_sqe sqe) = 1" using assms(11) by (simp add: kvcmd_of_sqe_fields)
  have st: "kv_store (kvdma vfu) (kvcmd_of_sqe sqe) (n_ns n) h1 = Inr (st, ns', h2)"
    using r(3) op ns(1) sqe
    by (auto simp: nvme_io_kv_def Let_def split: sum.splits dest: arg_cong [of _ _ n_ns])
  then have "spec_store (kvdma vfu) (kvcmd_of_sqe sqe) (unat (max_num_keys (n_ns n))) (kv_full (n_ns n)) (kv_abs (n_ns n)) h1 =
      (st, kv_abs (n_ns n'), h2)"
    using kvdma.kv_store_refines [OF kv, of vfu "kvcmd_of_sqe sqe" h1]
    by (auto simp: refines_def prod_eq_iff ns(2))
  moreover have "nvme_fetch vfu qid (n, h) = Some (sqe, h1)"
    using r(7) by (simp add: nvme_fetch_def Let_def sqe decode_encode_sqe flip: assms(4,5))
  moreover have cqid: "unat (sq_cqid sq) < 64" using D(4,5) assms(4) by (simp add: sq_wf_def)
  have "hmem h' = (if fst (nvme_gpa_xfer vfu cslot (encode_cqe (cqe st)) 16 True h2) = 0
      then mem_writes (hmem h2) (map tr [unat cslot..<unat cslot + 16]) (encode_cqe (cqe st)) else hmem h2)"
    by (rule nvme_post_cqe_hmem [OF assms(1) cqid _ assms(7,12) _ r(6)]) (simp_all add: n1_def assms(6,13) sqe)
  moreover have "hmem h2 = hmem h" using kv_store_hmem [OF kv assms(1) st] r(2) by simp
  moreover have "n_cq n' ! unat (sq_cqid sq) = cq_advance cq"
    using cqid ctrl_invD(2) [OF D(1)] by (simp add: r(4))
  ultimately show ?thesis using r(2,5) by metis
qed

text \<open>A store that only replaces, of a key that is not there: the completion reports a missing key.\<close>

theorem kv_store_through_queue_witness:
  "\<exists>n' h'. nvme_process_one id_vfu 1 (guest_write id 0x40001 (encode_sqe (kv_sqe 1 0x636261 0x103 0x60000 4)) (ctrl2, host0)) =
      Inr (True, n', h') \<and> kv_abs (n_ns n') = Map.empty \<and>
    cqe_status (decode_cqe (map (hmem h') [0x50000..<0x50010])) = push_bit 1 NVME_KV_KEY_NOT_EXISTS OR 1"
proof -
  define sqe where "sqe = kv_sqe 1 0x636261 0x103 0x60000 4"
  define h where "h = snd (guest_write id 0x40001 (encode_sqe sqe) (ctrl2, host0))"
  have g: "guest_write id 0x40001 (encode_sqe sqe) (ctrl2, host0) = (ctrl2, h)" by (simp add: guest_write_def h_def)
  have hp: "heap_ok h" by (simp add: h_def heap_ok_def guest_write_def)
  have enc: "encode_sqe sqe = map (\<lambda>a. hmem h (id a)) [unat (0x40001 :: u64)..<unat (0x40001 :: u64) + 64]"
    using guest_read_write [of id "0x40001" "encode_sqe sqe" "(ctrl2, host0)"] by (simp add: guest_read_def h_def del: upt_rec_numeral)
  obtain n' h' where one: "nvme_process_one id_vfu 1 (ctrl2, h) = Inr (True, n', h')"
    by (rule nvme_process_one_fetched [OF ctrl2_live hp id_vfu_ring])
  define sq where "sq = n_sq ctrl2 ! unat (1 :: u16)"
  define cq where "cq = n_cq ctrl2 ! unat (sq_cqid sq)"
  define cqe where "cqe = (\<lambda>st. \<lparr>cqe_cdw0 = 0, cqe_cdw1 = 0, cqe_sq_head = ucast ((ucast (sq_head sq) + 1 :: u32) mod sq_size sq),
           cqe_sq_id = 1, cqe_cid = sqe_cid sqe, cqe_status = push_bit 1 st OR ucast (cq_phase cq AND 1)\<rparr>)"
  have q: "(1 :: u16) \<noteq> 0" "0x40001 = sq_dma sq + ucast (sq_head sq) * 64" "cq_enabled cq" "0 \<le> cq_irq cq" "cq_phase cq = 1"
    "0x50000 = cq_dma cq + ucast (cq_tail cq) * 16" "sqe_opcode sqe = 1"
    by (simp_all add: sq_def cq_def sqe_def kv_sqe_def ctrl2_queue zero_sq_def zero_cq_def)
  obtain st h1 h2 where r: "nvme_fetch id_vfu 1 (ctrl2, h) = Some (sqe, h1)"
    "spec_store (kvdma id_vfu) (kvcmd_of_sqe sqe) (unat (max_num_keys (n_ns ctrl2))) (kv_full (n_ns ctrl2)) (kv_abs (n_ns ctrl2)) h1 =
       (st, kv_abs (n_ns n'), h2)"
    "hmem h' = (if fst (nvme_gpa_xfer id_vfu 0x50000 (encode_cqe (cqe st)) 16 True h2) = 0
       then mem_writes (hmem h) (map id [unat (0x50000 :: u64)..<unat (0x50000 :: u64) + 16]) (encode_cqe (cqe st)) else hmem h)"
    using kv_store_through_queue [OF id_vfu_ok ctrl2_live q(1) sq_def q(2) cq_def q(3,4) one enc q(7,6) cqe_def] by blast
  have c: "kvcmd_of_sqe sqe = kv_cmd0 1 0x636261 0x103 0x60000 4" by (simp add: sqe_def kv_cmd0_def)
  have st: "st = NVME_KV_KEY_NOT_EXISTS" "kv_abs (n_ns n') = Map.empty"
    using r(2) by (simp_all add: c spec_store_def Let_def ctrl2_queue ns0_inv(2))
  have "heap_ok h1"
    using r(1) heap.xfer(2) [OF hp, of id_vfu "0x40001" "map (junk h) [0..<64]" 64 False]
    by (auto simp: nvme_fetch_def Let_def split_def ctrl2_queue zero_sq_def split: if_splits)
  then have "heap_ok h2" using heap.store [of h1] r(2) by (metis snd_conv)
  then have "fst (nvme_gpa_xfer id_vfu 0x50000 (encode_cqe (cqe st)) 16 True h2) = 0"
    by (intro nvme_gpa_xfer_rc [OF id_vfu_ok heap_ok_alloc_fst, of _ _ _ _ "[(0x50000, 16)]" "[(0x50000, 16)]"])
      (simp_all add: id_vfu_def)
  then have "map (\<lambda>a. hmem h' (id a)) [0x50000..<0x50010] = encode_cqe (cqe st)"
    using r(3) mem_writes_read_map [of id "[0x50000..<0x50010]" "encode_cqe (cqe st)" "hmem h"]
    by (simp del: upt_rec_numeral)
  then have "decode_cqe (map (hmem h') [0x50000..<0x50010]) = cqe st"
    using decode_encode_cqe [of "cqe st"] by (simp del: upt_rec_numeral)
  then have "cqe_status (decode_cqe (map (hmem h') [0x50000..<0x50010])) = push_bit 1 NVME_KV_KEY_NOT_EXISTS OR 1"
    by (simp only: cqe_def st(1) q(5)) simp
  with one st(2) g show ?thesis unfolding sqe_def [symmetric] by auto
qed

section \<open>Host and device\<close>

text \<open>C5: Durability. Whatever a guest does to registers, doorbells, queues and memory and however often it
  resets the device, the run has a list of commands that the queue engine fetched and executed,
  and the value under a key can only have changed if that list holds a store or a delete for
  this key on an I/O queue.\<close>

theorem stored_pairs_durable:
  assumes "ctrl_inv n" and "(device_step vfu)\<^sup>*\<^sup>* (n, h) (n', h')"
  shows "\<exists>es. device_run vfu (n, h) es (n', h') \<and>
    (\<forall>k. (\<exists>e \<in> set es. writes_key k e) \<or> kv_abs (n_ns n') k = kv_abs (n_ns n) k)"
proof -
  obtain es where es: "device_run vfu (n, h) es (n', h')" using device_run_exists [OF assms(2)] assms(1) by auto
  have "kv_abs (n_ns n') k = kv_abs (n_ns n) k" if "\<not> (\<exists>e \<in> set es. writes_key k e)" for k
    using device_run_frame [OF es, of k] assms(1) that by auto
  with es show ?thesis by blast
qed

theorem stored_pairs_durable_witness: "\<exists>es. device_run id_vfu (ctrl0, host0) es (nvme_ctrl_reset ctrl0, host0)"
proof -
  have "(device_step id_vfu)\<^sup>*\<^sup>* (ctrl0, host0) (nvme_ctrl_reset ctrl0, host0)"
    by (rule r_into_rtranclp, rule device_step.reset) (simp add: nvme_reset_cb_def)
  from stored_pairs_durable [OF ctrl0_inv(1) this] show ?thesis by blast
qed

text \<open>C2: A driver rings the doorbell of a store that it has placed in a queue; the device completes it with
  success. Then anything may happen, as long as no command of that run writes the key. When a
  driver rings the doorbell of a retrieve of the key, on whatever queue, the device completes it
  with success and the buffer of the retrieve holds the stored bytes.\<close>

theorem kv_roundtrip_through_doorbells:
  assumes "vfu_ok vfu tr" and "vfu_mapped lim vfu" and "inj tr"
    and "posted lim tr qid sqe (n, h)" and "sqe_opcode sqe = NVME_CMD_KV_STORE" and "cmd = kvcmd_of_sqe sqe"
    and "unat (kvc_hbs cmd) \<le> 4096" and "ro (kvc_cdw11 cmd) = 0"
    and "kv_abs (n_ns n) (cmd_key cmd) \<noteq> None \<or> card (dom (kv_abs (n_ns n))) < unat (max_num_keys (n_ns n))"
    and "v = guest_bytes tr h cmd (unat (kvc_hbs cmd)) @ drop (unat (kvc_hbs cmd)) (old_value (n_ns n) (cmd_key cmd))"
  shows "\<exists>n1 h1. ring vfu qid (n, h) = Some (n1, h1) \<and> io_queue lim qid n1 \<and> pair_moved n qid n1 \<and>
    decode_cqe (guest_read tr (hmem h1) (cq_slot n qid) 16) = completed n qid (sqe_cid sqe) NVME_SUCCESS \<and>
    (\<forall>es n2 h2 q r c as.
       device_run vfu (n1, h1) es (n2, h2) \<and> (\<forall>e \<in> set es. \<not> writes_key (cmd_key cmd) e) \<and>
       posted lim tr q r (n2, h2) \<and> sqe_opcode r = NVME_CMD_KV_RETRIEVE \<and> c = kvcmd_of_sqe r \<and>
       cmd_key c = cmd_key cmd \<and> as = prp_addrs (kvc_prp1 c) (kvc_prp2 c) (min (unat (kvc_hbs c)) 4096) \<and>
       distinct as \<and> set as \<inter> {unat (cq_slot n2 q)..<unat (cq_slot n2 q) + 16} = {} \<longrightarrow>
       (\<exists>n3 h3. ring vfu q (n2, h2) = Some (n3, h3) \<and>
         decode_cqe (guest_read tr (hmem h3) (cq_slot n2 q) 16) = completed n2 q (sqe_cid r) NVME_SUCCESS \<and>
         map (\<lambda>a. hmem h3 (tr a)) as = take (unat (kvc_hbs c)) v))"
proof -
  have p: "io_queue lim qid n" "heap_ok h" "encode_sqe sqe = guest_read tr (hmem h) (sq_slot n qid) 64"
    "unat (kl (kvc_cdw11 cmd)) \<le> 16" "prp_fits lim (kvc_prp1 cmd) (kvc_prp2 cmd) (unat (kvc_hbs cmd))"
    using assms(4,7) by (simp_all add: posted_def Let_def assms(6) min_def)
  obtain n1 h1 where s: "ring vfu qid (n, h) = Some (n1, h1)" "io_queue lim qid n1" "heap_ok h1"
    "decode_cqe (guest_read tr (hmem h1) (cq_slot n qid) 16) = completed n qid (sqe_cid sqe) NVME_SUCCESS"
    "kv_abs (n_ns n1) (cmd_key cmd) = Some v" "pair_moved n qid n1"
    unfolding assms(10)
    by (rule ring_store [OF assms(1-3) p(2,1,3) assms(5,6) p(4) assms(7,8) p(5) assms(9)])
  have inv: "ctrl_inv n1" using s(2) sq_liveD(1) by (auto simp: io_queue_def)
  have "\<exists>n3 h3. ring vfu q (n2, h2) = Some (n3, h3) \<and>
      decode_cqe (guest_read tr (hmem h3) (cq_slot n2 q) 16) = completed n2 q (sqe_cid r) NVME_SUCCESS \<and>
      map (\<lambda>a. hmem h3 (tr a)) as = take (unat (kvc_hbs c)) v"
    if run: "device_run vfu (n1, h1) es (n2, h2)" "\<forall>e \<in> set es. \<not> writes_key (cmd_key cmd) e"
      and q: "posted lim tr q r (n2, h2)" "sqe_opcode r = NVME_CMD_KV_RETRIEVE" "c = kvcmd_of_sqe r"
        "cmd_key c = cmd_key cmd" "as = prp_addrs (kvc_prp1 c) (kvc_prp2 c) (min (unat (kvc_hbs c)) 4096)"
        "distinct as" "set as \<inter> {unat (cq_slot n2 q)..<unat (cq_slot n2 q) + 16} = {}"
    for es n2 h2 q r c as
  proof -
    have p2: "io_queue lim q n2" "heap_ok h2" "encode_sqe r = guest_read tr (hmem h2) (sq_slot n2 q) 64"
      "unat (kl (kvc_cdw11 c)) \<le> 16" "prp_fits lim (kvc_prp1 c) (kvc_prp2 c) (min (unat (kvc_hbs c)) 4096)"
      using q(1) by (simp_all add: posted_def Let_def q(3))
    have v: "kv_abs (n_ns n2) (cmd_key c) = Some v"
      using device_run_frame [OF run(1) _ run(2)] inv s(5) q(4) by simp
    show ?thesis
      by (rule ring_retrieve [OF assms(1-3) p2(2,1,3) q(2,3) p2(4) v q(5) p2(5) q(6,7)]) blast
  qed
  with s show ?thesis by blast
qed

theorem kv_roundtrip_through_doorbells_witness:
  "\<exists>n1 h1 n3 h3. ring id_vfu 1 (guest_write id 0x40001 (encode_sqe (kv_sqe 1 0x636261 3 0x60000 4)) (ctrl2, host0)) = Some (n1, h1) \<and>
     ring id_vfu 1 (guest_write id 0x40041 (encode_sqe (kv_sqe 2 0x636261 3 0x70000 4)) (n1, host0)) = Some (n3, h3) \<and>
     map (hmem h3) [0x70000..<0x70004] = [0, 1, 2, 3]"
proof -
  let ?s = "kv_sqe 1 0x636261 3 0x60000 4" and ?r = "kv_sqe 2 0x636261 3 0x70000 4"
  let ?h = "snd (guest_write id 0x40001 (encode_sqe ?s) (ctrl2, host0))"
  have g: "guest_write id 0x40001 (encode_sqe ?s) (ctrl2, host0) = (ctrl2, ?h)" by (simp add: guest_write_def)
  have m: "vfu_mapped 0x100000 id_vfu" by (rule id_vfu_mapped) simp
  have c: "kvcmd_of_sqe ?s = kv_cmd0 1 0x636261 3 0x60000 4" "kvcmd_of_sqe ?r = kv_cmd0 2 0x636261 3 0x70000 4"
    by (simp_all add: kv_cmd0_def)
  have k: "cmd_key (kv_cmd0 2 0x636261 3 0x70000 4) = cmd_key (kv_cmd0 1 0x636261 3 0x60000 4)" by (simp add: cmd_key_def)
  have pf: "prp_first 0x60000 4 = 4" "prp_first 0x70000 4 = 4" by (simp_all add: prp_first_def)
  have hp: "heap_ok host0" by (simp add: heap_ok_def)
  have post: "posted 0x100000 id 1 ?s (ctrl2, ?h)" by (rule ctrl2_posted [OF refl])
  have op: "sqe_opcode ?s = 1" by (simp add: kv_sqe_def)
  have f: "unat (kvc_hbs (kvcmd_of_sqe ?s)) \<le> 4096" "ro (kvc_cdw11 (kvcmd_of_sqe ?s)) = 0"
    "kv_abs (n_ns ctrl2) (cmd_key (kvcmd_of_sqe ?s)) \<noteq> None \<or> card (dom (kv_abs (n_ns ctrl2))) < unat (max_num_keys (n_ns ctrl2))"
    by (simp_all add: c ctrl2_queue ns0_inv(2))
  obtain n1 h1 where r: "ring id_vfu 1 (ctrl2, ?h) = Some (n1, h1)" "io_queue 0x100000 1 n1" "pair_moved ctrl2 1 n1"
    and rt: "\<forall>es n2 h2 q r c as.
       device_run id_vfu (n1, h1) es (n2, h2) \<and> (\<forall>e \<in> set es. \<not> writes_key (cmd_key (kvcmd_of_sqe ?s)) e) \<and>
       posted 0x100000 id q r (n2, h2) \<and> sqe_opcode r = 2 \<and> c = kvcmd_of_sqe r \<and>
       cmd_key c = cmd_key (kvcmd_of_sqe ?s) \<and> as = prp_addrs (kvc_prp1 c) (kvc_prp2 c) (min (unat (kvc_hbs c)) 4096) \<and>
       distinct as \<and> set as \<inter> {unat (cq_slot n2 q)..<unat (cq_slot n2 q) + 16} = {} \<longrightarrow>
       (\<exists>n3 h3. ring id_vfu q (n2, h2) = Some (n3, h3) \<and>
         decode_cqe (guest_read id (hmem h3) (cq_slot n2 q) 16) = completed n2 q (sqe_cid r) NVME_SUCCESS \<and> map (\<lambda>a. hmem h3 (id a)) as =
         take (unat (kvc_hbs c)) (guest_bytes id ?h (kvcmd_of_sqe ?s) (unat (kvc_hbs (kvcmd_of_sqe ?s))) @
           drop (unat (kvc_hbs (kvcmd_of_sqe ?s))) (old_value (n_ns ctrl2) (cmd_key (kvcmd_of_sqe ?s)))))"
    using kv_roundtrip_through_doorbells [OF id_vfu_ok m inj_on_id post op refl f refl] by blast
  have n1: "sq_slot n1 1 = 0x40041" "cq_slot n1 1 = 0x50010"
    using r(3) by (simp_all add: sq_slot_def cq_slot_def pair_moved_def ctrl2_io ctrl2_queue cq_advance_def zero_sq_def zero_cq_def Let_def)
  let ?g = "snd (guest_write id 0x40041 (encode_sqe ?r) (n1, host0))"
  have g1: "guest_write id 0x40041 (encode_sqe ?r) (n1, host0) = (n1, ?g)" by (simp add: guest_write_def)
  have run: "device_run id_vfu (n1, h1) [] (n1, ?g)" by (rule device_run_guest)
  have "posted 0x100000 id 1 ?r (n1, ?g)"
    using r(2) hp guest_read_write [of id "0x40041" "encode_sqe ?r" "(n1, host0)"]
    by (simp add: posted_def c n1 prp_fits_def pf)
  moreover have "sqe_opcode ?r = 2" by (simp add: kv_sqe_def)
  ultimately obtain n3 h3 where "ring id_vfu 1 (n1, ?g) = Some (n3, h3)"
    "map (\<lambda>a. hmem h3 (id a)) [0x70000..<0x70004] = take 4 (guest_bytes id ?h (kvcmd_of_sqe ?s) 4 @
       drop 4 (old_value (n_ns ctrl2) (cmd_key (kvcmd_of_sqe ?s))))"
    using rt [rule_format, of "[]" n1 ?g 1 ?r "kvcmd_of_sqe ?r" "[0x70000..<0x70004]"] run
    unfolding c n1 by (auto simp: k prp_addrs_def pf)
  moreover have "guest_bytes id ?h (kvcmd_of_sqe ?s) 4 = [0, 1, 2, 3]"
    using guest_read_elsewhere [of id "0x60000" 4 "0x40001" "encode_sqe ?s" "(ctrl2, host0)"]
    by (simp add: guest_bytes_def guest_read_def c prp_addrs_def pf)
  ultimately show ?thesis using r(1) g g1 by auto
qed

text \<open>C6: The client of \<^verbatim>\<open>tests/client_harness.c\<close> runs to its end on every device that is disabled, with a
  mapped region of sixteen pages and room for one key: the controller becomes ready, the identify
  pages have the expected contents, the queue pair is created, every completion arrives in the
  expected slot with the expected phase, status and identifier, and the stored value comes back.\<close>

theorem harness_passes:
  assumes "vfu_ok vfu tr" and "vfu_mapped 0x10000 vfu" and "inj tr" and "heap_ok h"
    and "ctrl_inv n" and "n_cc n = 0"
    and "kv_abs (n_ns n) [0x61, 0x62, 0x63] \<noteq> None \<or> card (dom (kv_abs (n_ns n))) < unat (max_num_keys (n_ns n))"
  shows "harness vfu tr (n, h) \<noteq> None"
  by (rule harness_ok [OF assms])

theorem harness_passes_witness: "harness id_vfu id (ctrl0, host0) \<noteq> None"
  by (rule harness_passes [OF id_vfu_ok id_vfu_mapped])
    (simp_all add: heap_ok_def ctrl0_inv ns0_inv(2))

text \<open>C7: The modelled modes of the stress client, in any order and with any number of iterations, pass on
  every disabled controller that maps the client memory, with the round trip after each mode: every register access returns, resets,
  enable, disable and shutdown reach the status that the client checks, junk accesses are ignored, every
  batch of up to fifteen commands behind one doorbell is answered with success in order,
  every admin command that these modes submit, whatever its arguments, is answered by a completion in the next slot with the
  phase the client expects, and at the end the controller is disabled again with its stored pairs
  unchanged.\<close>

theorem hammer_survives:
  assumes "vfu_ok vfu tr" and "vfu_mapped 0x20000 vfu" and "inj tr" and "heap_ok h"
    and "ctrl_inv n" and "n_cc n = 0"
  shows "\<exists>seed' n' h'. hammer vfu tr iters ms (seed, n, h) = Some (seed', n', h') \<and> ctrl_inv n' \<and> n_cc n' = 0 \<and>
    kv_abs (n_ns n') = kv_abs (n_ns n)"
proof -
  have "idle (kv_abs (n_ns n)) (n, h)" using assms(4-6) by (simp add: idle_def)
  from hammer_ok [OF assms(1-3) this, of iters ms seed] show ?thesis by (auto simp: idle_def)
qed

theorem hammer_survives_witness:
  "\<exists>seed' n' h'. hammer id_vfu id 200 [Flr, Cc, Shn, Doorbell, Garbage, Bad_dma, Bad_queue] (1, ctrl0, host0) =
     Some (seed', n', h') \<and> n_cc n' = 0"
  using hammer_survives [of id_vfu id host0 ctrl0 200 "[Flr, Cc, Shn, Doorbell, Garbage, Bad_dma, Bad_queue]" 1]
    id_vfu_ok id_vfu_mapped [of "0x20000"] ctrl0_inv by (auto simp: heap_ok_def)

section \<open>The program\<close>

text \<open>C39: The command line: a socket path and a decimal size with an optional K, M or G suffix, each given in
  any of the four spellings of \<open>getopt_long\<close> and in either order, start the device on that
  socket with as many keys as the size holds, where the size is the number times the power of
  1024, computed on 64 bits; a size below one slot ends the program with code 2.\<close>

theorem command_line_correct:
  assumes "spellable (sp1, CHR ''s'', path)" and "spellable (sp2, CHR ''c'', dec n @ suf)"
    and "0 < n" and "n < 2 ^ 64" and "(suf, k) \<in> size_suffixes" and "sz = (of_nat n * 2 ^ k :: u64)"
    and "argv \<in> {argv0 # spell (sp1, CHR ''s'', path) @ spell (sp2, CHR ''c'', dec n @ suf),
                 argv0 # spell (sp2, CHR ''c'', dec n @ suf) @ spell (sp1, CHR ''s'', path)}"
  shows "main_args version argv =
    (if unat sz < 4112 then Inl (2, Stderr, ''--capacity must hold at least one 4112-byte slot'' @ [CHR 0x0A])
     else Inr (path, of_nat (min (unat sz div 4112) 4294967295)))"
proof -
  have "getopt_long (tl argv) \<in> {[(CHR ''s'', path), (CHR ''c'', dec n @ suf)], [(CHR ''c'', dec n @ suf), (CHR ''s'', path)]}"
    using assms(7) getopt_spell [OF assms(1)] getopt_spell [OF assms(2)]
      getopt_spell [OF assms(1), of "[]"] getopt_spell [OF assms(2), of "[]"] by auto
  then show ?thesis
    using parse_size_dec [OF assms(3-5)] by (auto simp: main_args_def assms(6) capacity_slots_eq)
qed

theorem command_line_correct_witness:
  "main_args ''0.1.12'' [''vfu_kvssd'', ''--capacity='' @ dec 5 @ ''M'', ''-s'', ''/tmp/kv''] = Inr (''/tmp/kv'', 1275)"
  using command_line_correct [of Short_separate "''/tmp/kv''" Long_equals 5 "''M''" 20 "5 * 2 ^ 20"
      "[''vfu_kvssd'', ''--capacity='' @ dec 5 @ ''M'', ''-s'', ''/tmp/kv'']" "''vfu_kvssd''" "''0.1.12''"]
  by (simp add: size_suffixes_def opt_name_def)

text \<open>The suffix multiplication wraps silently and a negative number is taken as a huge one: a size of
  2 to the 64 in gigabytes is zero bytes, and minus one is the largest 64-bit number.\<close>

lemma parse_size_wraps:
  "parse_size ''17179869184G'' = Some 0 \<and> parse_size ''-1'' = Some 0xffffffffffffffff"
  by (simp add: parse_size_def strtoull_def strtoull_sign_def strtoull_base_def digit_val_def
      digits_value_def is_space_def Let_def)

text \<open>The key capacity derived from the advertised size is at least one, fits into the size, and is the
  largest such number up to the ceiling of the specification; a size below one slot is refused.\<close>

lemma capacity_slots_correct:
  "(capacity_slots c = None \<longleftrightarrow> unat c < 4112) \<and>
   (\<forall>m. capacity_slots c = Some m \<longrightarrow> 0 < unat m \<and> unat m * 4112 \<le> unat c \<and>
      (unat m = 4294967295 \<or> unat c < (unat m + 1) * 4112))"
proof -
  have "unat (of_nat (min (unat c div 4112) 4294967295) :: u32) = min (unat c div 4112) 4294967295"
    by (simp add: unsigned_of_nat take_bit_nat_eq_self)
  moreover have "unat c < (unat c div 4112 + 1) * 4112" "unat c div 4112 * 4112 \<le> unat c"
    using dividend_less_div_times [of 4112 "unat c"] by simp_all
  ultimately show ?thesis
    by (auto simp: capacity_slots_eq min_def div_greater_zero_iff split: if_splits)
qed

text \<open>C37: However the program ends, the vfio-user context is destroyed exactly once if it was created, as the
  last call; the controller is torn down exactly once if \<open>nvme_ctrl_init\<close> was reached and succeeded for the capacity of the
  command line, and otherwise not at all; the context is realized and clients are served only
  after that success; and once the context was asked for, the exit code is zero exactly when
  clients were served.\<close>

theorem main_cleanup:
  assumes "main_program version argv ok h ss = (Some e, tr)"
  shows "count_list tr Destroy_ctx = (if tr \<noteq> [] \<and> ok Create_ctx then 1 else 0) \<and>
    (tr \<noteq> [] \<and> ok Create_ctx \<longrightarrow> last tr = Destroy_ctx) \<and>
    count_list tr Ctrl_teardown =
      (if Ctrl_init \<in> set tr \<and> (\<exists>sock mx. main_args version argv = Inr (sock, mx) \<and> 0 \<le> fst (nvme_ctrl_init mx h))
       then 1 else 0) \<and>
    count_list tr Realize_ctx = count_list tr Ctrl_teardown \<and>
    (tr \<noteq> [] \<longrightarrow> (e = 0 \<longleftrightarrow> Serve \<in> set tr)) \<and> (Serve \<in> set tr \<longrightarrow> Ctrl_teardown \<in> set tr)"
  using assms
proof (cases rule: main_program_cases)
qed (use main_setup_calls [of ok setup_calls] in \<open>auto simp: main_setup_count setup_calls_def\<close>)

theorem main_cleanup_witness:
  "(\<exists>tr. main_program ''0.1.12'' [''vfu_kvssd'', ''-s'', ''/tmp/kv''] (\<lambda>c. True) (host0\<lparr>allocs := \<lambda>_. False\<rparr>) [] = (Some 1, tr) \<and>
     count_list tr Ctrl_teardown = 0 \<and> count_list tr Destroy_ctx = 1) \<and>
   (\<exists>tr. main_program ''0.1.12'' [''vfu_kvssd'', ''-s'', ''/tmp/kv''] (\<lambda>c. c \<noteq> Realize_ctx) host0 [] = (Some 1, tr) \<and>
     count_list tr Ctrl_teardown = 1 \<and> count_list tr Destroy_ctx = 1)"
proof -
  let ?p = "main_program ''0.1.12'' [''vfu_kvssd'', ''-s'', ''/tmp/kv'']" and ?h = "host0\<lparr>allocs := \<lambda>_. False\<rparr>"
  note run = main_program_def main_args_default setup_calls_def nvme_ctrl_init_def kv_ns_init_def Let_def
  have a: "?p (\<lambda>c. True) ?h [] = (Some 1, [Create_ctx, Setup_log] @ setup_calls @ [Ctrl_init, Destroy_ctx])"
    by (simp add: run alloc_def)
  have b: "?p (\<lambda>c. c \<noteq> Realize_ctx) host0 [] =
     (Some 1, [Create_ctx, Setup_log] @ setup_calls @ [Ctrl_init, Realize_ctx, Ctrl_teardown, Destroy_ctx])"
    by (simp add: run)
  show ?thesis
    using a b main_cleanup [OF a] main_cleanup [OF b]
    by (auto simp: main_args_default setup_calls_def nvme_ctrl_init_def kv_ns_init_def Let_def alloc_def)
qed

text \<open>C38: A signal ends the program: once every session before it has come to its end, the loop is left at
  the next test of the stop flag, whatever clients are still to come, and the exit code is zero
  if the program was serving.\<close>

theorem main_stops_on_signal:
  assumes "\<forall>s \<in> set ss. session_complete s" and "sig_before t"
    and "main_program version argv ok h (ss @ t # us) = (rc, tr)"
  shows "rc \<noteq> None \<and> (Serve \<in> set tr \<longrightarrow> rc = Some 0)"
proof -
  have serving: "rc \<noteq> None"
    using assms(3) main_loop_signal [OF assms(1,2), of False us]
    by (auto simp: main_program_def Let_def split_def split: if_splits sum.splits option.splits)
  have set_up: "Serve \<notin> set (fst (main_setup ok setup_calls))"
    using main_setup_calls [of ok setup_calls] by (auto simp: setup_calls_def)
  from assms(3) show ?thesis
    by (cases rule: main_program_cases) (use serving set_up in auto)
qed

theorem main_stops_on_signal_witness:
  "\<exists>rc tr. main_program ''0.1.12'' [''vfu_kvssd'', ''-s'', ''/tmp/kv''] (\<lambda>c. True) host0
     [\<lparr>sig_before = False, attach = Attach_ok, runs = [(Run_ok, False), (Run_notconn, False)]\<rparr>,
      \<lparr>sig_before = True, attach = Attach_ok, runs = []\<rparr>] = (rc, tr) \<and> rc \<noteq> None"
proof -
  let ?s = "\<lparr>sig_before = False, attach = Attach_ok, runs = [(Run_ok, False), (Run_notconn, False)]\<rparr>"
  let ?t = "\<lparr>sig_before = True, attach = Attach_ok, runs = []\<rparr>"
  obtain rc tr where eq: "main_program ''0.1.12'' [''vfu_kvssd'', ''-s'', ''/tmp/kv''] (\<lambda>c. True) host0 ([?s] @ ?t # []) = (rc, tr)"
    by (metis prod.exhaust)
  have "rc \<noteq> None"
    using main_stops_on_signal [OF _ _ eq] by (simp add: session_complete_def)
  with eq show ?thesis by simp
qed

end
